(* ===== verification/Ublk_Prelude.thy ===== *)
theory Ublk_Prelude
  imports Main "HOL-Library.Word"
begin

text \<open>
  Shared vocabulary of the development: the machine integers of the Rust code, the
  \<open>Result\<close> type with its \<open>?\<close> operator, the little-endian byte codecs
  (\<open>to_le_bytes\<close>, \<open>from_le_bytes\<close>), sub-slice copies
  (\<open>copy_from_slice\<close>, \<open>slice::chunks\<close>), the atomic \<open>fetch_max\<close> applied to a run
  of a list, and the lemmas on them that every component uses. The locale
  \<open>byte_codec\<close> is the interface between a fixed-width encoding and the code that lays
  several encoded values out one after the other; it is interpreted for \<open>u32\<close> and
  \<open>u64\<close>.
\<close>

unbundle bit_operations_syntax

section \<open>Machine integers\<close>

type_synonym u8 = "8 word"
type_synonym u16 = "16 word"
type_synonym u32 = "32 word"
type_synonym u64 = "64 word"
type_synonym i32 = "32 word"

text \<open>
  Rust is modelled in its release profile (\<^verbatim>\<open>[profile.release]\<close> of \<^verbatim>\<open>Cargo.toml\<close> sets
  only \<^verbatim>\<open>lto\<close>): unsigned arithmetic wraps, \<open>as\<close> casts truncate, \<open>usize\<close> has
  64 bits. A \<open>usize\<close> used as an index is a \<open>nat\<close>.
\<close>

named_theorems word_nat \<open>translation of word order and division to \<open>nat\<close>\<close>

lemmas word_order_nat [word_nat] = word_le_nat_alt word_less_nat_alt

lemmas word_div_nat [word_nat] = unat_div_distrib unat_mod_distrib

lemma unat_add_no_overflow:
  fixes a b :: "'a::len word"
  assumes "unat a + unat b < 2 ^ LENGTH('a)"
  shows "unat (a + b) = unat a + unat b"
  using assms by (simp add: unat_add_lem [THEN iffD1])

lemma unat_of_nat_less:
  assumes "n < 2 ^ LENGTH('a::len)"
  shows "unat (of_nat n :: 'a word) = n"
  using assms by (simp add: unat_of_nat)

lemma unat_add_of_nat:
  fixes a :: "'a::len word"
  assumes "unat a + n < 2 ^ LENGTH('a)"
  shows "unat (a + of_nat n) = unat a + n"
  using assms by (subst unat_add_no_overflow) (simp_all add: unat_of_nat_less)

lemma unat_of_nat_mult:
  fixes g :: "'a::len word"
  assumes "n * unat g < 2 ^ LENGTH('a)"
  shows "unat (of_nat n * g) = n * unat g"
proof (cases "unat g = 0")
  case True
  then show ?thesis by (simp add: unat_eq_zero)
next
  case False
  then have "n \<le> n * unat g" by simp
  with assms have "n < 2 ^ LENGTH('a)" by linarith
  with assms show ?thesis by (simp add: unat_word_ariths unat_of_nat)
qed

lemma unat_u64_less: "unat w < 2 ^ 64" for w :: u64
  using unsigned_less [of w, where 'a = nat] by simp

lemma unat_u32_less: "unat w < 2 ^ 32" for w :: u32
  using unsigned_less [of w, where 'a = nat] by simp

lemma unat_max: "unat (max a b) = max (unat a) (unat b)" for a b :: "'a::len word"
  by (simp add: max_def word_le_nat_alt)

lemma unat_min: "unat (min a b) = min (unat a) (unat b)" for a b :: "'a::len word"
  by (simp add: min_def word_le_nat_alt)

lemma xor_left_cancel [simp]: "a XOR x = a XOR y \<longleftrightarrow> x = y" for a x y :: "'a::len word"
proof
  assume "a XOR x = a XOR y"
  then have "a XOR (a XOR x) = a XOR (a XOR y)" by (rule arg_cong)
  then show "x = y" by (simp flip: xor.assoc)
qed simp

lemma xor_right_cancel [simp]: "x XOR a = y XOR a \<longleftrightarrow> x = y" for a x y :: "'a::len word"
  by (simp add: xor.commute [of _ a])

lemma ceil_div_nat:
  fixes a b :: nat
  assumes "0 < b"
  shows "(a + b - 1) div b = (if a mod b = 0 then a div b else a div b + 1)"
proof -
  obtain q r where qr: "a = b * q + r" "r < b" "a div b = q" "a mod b = r"
    using assms by (metis mod_less_divisor mult_div_mod_eq)
  show ?thesis
  proof (cases "r = 0")
    case True
    have "(a + b - 1) div b = q"
      by (rule div_nat_eqI) (use True qr assms in \<open>simp_all add: algebra_simps\<close>)
    with True qr show ?thesis by simp
  next
    case False
    have "(a + b - 1) div b = q + 1"
      by (rule div_nat_eqI) (use False qr in \<open>simp_all add: algebra_simps\<close>)
    with False qr show ?thesis by simp
  qed
qed

section \<open>Results\<close>

text \<open>
  \<open>Result<A>\<close> is \<open>'e + 'a\<close>, an \<open>Err\<close> on the left; \<open>r and_then f\<close> continues
  with the value of an \<open>Ok\<close>, as \<open>?\<close> and \<open>Result::and_then\<close> do.
\<close>

definition and_then :: "'e + 'a \<Rightarrow> ('a \<Rightarrow> 'e + 'b) \<Rightarrow> 'e + 'b" where
  "and_then r f = case_sum Inl f r"

lemma and_then_simps [simp]: "and_then (Inr x) f = f x" "and_then (Inl e) f = Inl e"
  by (simp_all add: and_then_def)

lemma and_then_ok: "and_then r f = Inr y \<longleftrightarrow> (\<exists>x. f x = Inr y \<and> r = Inr x)"
  by (cases r) auto

definition is_err :: "'e + 'a \<Rightarrow> bool" where
  "is_err r = (case r of Inl _ \<Rightarrow> True | Inr _ \<Rightarrow> False)"

lemma is_err_simps [simp]: "is_err (Inl e)" "\<not> is_err (Inr x)"
  by (simp_all add: is_err_def)

section \<open>Little-endian bytes\<close>

definition to_le_bytes :: "nat \<Rightarrow> 'a::len word \<Rightarrow> u8 list" where
  "to_le_bytes n w = map (\<lambda>i. ucast (drop_bit (8 * i) w)) [0..<n]"

fun from_le_bytes :: "u8 list \<Rightarrow> 'a::len word" where
  "from_le_bytes [] = 0"
| "from_le_bytes (b # bs) = ucast b OR push_bit 8 (from_le_bytes bs)"

lemma length_to_le_bytes [simp]: "length (to_le_bytes n w) = n"
  by (simp add: to_le_bytes_def)

lemma bit_from_le_bytes:
  "bit (from_le_bytes bs :: 'a::len word) k \<longleftrightarrow>
     k < LENGTH('a) \<and> k div 8 < length bs \<and> bit (bs ! (k div 8)) (k mod 8)"
proof (induction bs arbitrary: k)
  case Nil
  then show ?case by simp
next
  case (Cons b bs)
  show ?case
  proof (cases "k < 8")
    case True
    then show ?thesis by (auto simp: bit_simps dest: bit_imp_le_length)
  next
    case False
    then obtain j where j: "k = j + 8" by (metis add.commute le_Suc_ex not_less)
    have nb: "\<not> bit b k" using False by (auto dest: bit_imp_le_length)
    have "(j + 8) div 8 = Suc (j div 8)" by simp
    then show ?thesis
      using nb by (auto simp: j bit_simps Cons.IH)
  qed
qed

lemma from_to_le_bytes:
  fixes w :: "'a::len word"
  assumes "LENGTH('a) \<le> 8 * n"
  shows "from_le_bytes (to_le_bytes n w) = w"
proof (rule bit_word_eqI)
  fix k
  assume k: "k < LENGTH('a)"
  with assms have "k div 8 < n" by linarith
  with k show "bit (from_le_bytes (to_le_bytes n w) :: 'a word) k = bit w k"
    by (simp add: bit_from_le_bytes to_le_bytes_def bit_simps)
qed

lemma to_from_le_bytes:
  assumes "length bs = n" and "8 * n \<le> LENGTH('a::len)"
  shows "to_le_bytes n (from_le_bytes bs :: 'a word) = bs"
proof (rule nth_equalityI)
  show "length (to_le_bytes n (from_le_bytes bs :: 'a word)) = length bs"
    using assms by simp
next
  fix i
  assume "i < length (to_le_bytes n (from_le_bytes bs :: 'a word))"
  then have i: "i < n" by simp
  show "to_le_bytes n (from_le_bytes bs :: 'a word) ! i = bs ! i"
  proof (rule bit_word_eqI)
    fix k
    assume "k < LENGTH(8)"
    then have k: "k < 8" by simp
    then have "8 * i + k < LENGTH('a)" using i assms by linarith
    with k i show "bit (to_le_bytes n (from_le_bytes bs :: 'a word) ! i) k = bit (bs ! i) k"
      using assms by (simp add: to_le_bytes_def bit_simps bit_from_le_bytes)
  qed
qed

text \<open>
  The interface of a fixed-width codec: what \<open>save\<close> and \<open>load\<close> rely on when they write
  the era array as one run of encoded values and read it back by position.
\<close>

locale byte_codec =
  fixes enc :: "'v \<Rightarrow> u8 list" and dec :: "u8 list \<Rightarrow> 'v" and width :: nat
  assumes enc_length: "length (enc v) = width"
    and dec_enc: "dec (enc v) = v"
    and enc_dec: "length bs = width \<Longrightarrow> enc (dec bs) = bs"
    and width_pos: "0 < width"
begin

lemma length_concat_enc: "length (concat (map enc vs)) = length vs * width"
  by (induction vs) (simp_all add: enc_length)

lemma field_concat_enc:
  "i < length vs \<Longrightarrow> take width (drop (i * width) (concat (map enc vs))) = enc (vs ! i)"
proof (induction vs arbitrary: i)
  case Nil
  then show ?case by simp
next
  case (Cons v vs)
  then show ?case by (cases i) (simp_all add: enc_length add.commute)
qed

lemma decode_concat_enc:
  "map (\<lambda>i. dec (take width (drop (i * width) (concat (map enc vs))))) [0..<length vs] = vs"
  by (rule nth_equalityI) (simp_all add: field_concat_enc dec_enc)

lemma enc_inj: "enc v = enc v' \<longleftrightarrow> v = v'"
  by (metis dec_enc)

lemma concat_enc_inj: "concat (map enc vs) = concat (map enc vs') \<longleftrightarrow> vs = vs'"
proof
  assume eq: "concat (map enc vs) = concat (map enc vs')"
  then have "length vs * width = length vs' * width" by (metis length_concat_enc)
  then have "length vs = length vs'" using width_pos by simp
  with eq show "vs = vs'" by (metis decode_concat_enc)
qed simp

lemma encode_decode:
  "length bs = n * width \<Longrightarrow>
     concat (map enc (map (\<lambda>i. dec (take width (drop (i * width) bs))) [0..<n])) = bs"
proof (induction n arbitrary: bs)
  case 0
  then show ?case by simp
next
  case (Suc n)
  let ?f = "\<lambda>bs i. dec (take width (drop (i * width) bs))"
  have len: "length (take (n * width) bs) = n * width" using Suc.prems by simp
  have ih: "concat (map enc (map (?f (take (n * width) bs)) [0..<n])) = take (n * width) bs"
    by (rule Suc.IH [OF len])
  have same: "map (?f (take (n * width) bs)) [0..<n] = map (?f bs) [0..<n]"
  proof (rule map_cong [OF refl])
    fix i assume "i \<in> set [0..<n]"
    then have "Suc i * width \<le> n * width" by (intro mult_le_mono1) simp
    then show "?f (take (n * width) bs) i = ?f bs i"
      by (simp add: take_drop min_absorb1)
  qed
  have "length (drop (n * width) bs) = width" using Suc.prems by simp
  then have last: "enc (?f bs n) = drop (n * width) bs" by (simp add: enc_dec)
  show ?case using ih last by (simp add: same)
qed

end

definition le_u32 :: "u32 \<Rightarrow> u8 list" where
  "le_u32 = to_le_bytes 4"

definition le_u64 :: "u64 \<Rightarrow> u8 list" where
  "le_u64 = to_le_bytes 8"

interpretation u32_codec: byte_codec le_u32 "from_le_bytes :: u8 list \<Rightarrow> u32" 4
  by unfold_locales (simp_all add: le_u32_def from_to_le_bytes to_from_le_bytes)

interpretation u64_codec: byte_codec le_u64 "from_le_bytes :: u8 list \<Rightarrow> u64" 8
  by unfold_locales (simp_all add: le_u64_def from_to_le_bytes to_from_le_bytes)

lemma length_le_bytes [simp]: "length (le_u32 a) = 4" "length (le_u64 b) = 8"
  by (simp_all add: u32_codec.enc_length u64_codec.enc_length)

section \<open>Slices\<close>

text \<open>\<open>write_at i ds xs\<close> is \<open>xs[i..i + ds.len()].copy_from_slice(ds)\<close> where it is in range.\<close>

definition write_at :: "nat \<Rightarrow> 'a list \<Rightarrow> 'a list \<Rightarrow> 'a list" where
  "write_at i ds xs = take i xs @ ds @ drop (i + length ds) xs"

lemma length_write_at [simp]: "i + length ds \<le> length xs \<Longrightarrow> length (write_at i ds xs) = length xs"
  by (simp add: write_at_def)

lemma nth_write_at:
  assumes "i + length ds \<le> length xs" and "k < length xs"
  shows "write_at i ds xs ! k = (if i \<le> k \<and> k < i + length ds then ds ! (k - i) else xs ! k)"
  using assms by (auto simp: write_at_def nth_append min_def)

lemma write_at_Nil [simp]: "write_at i [] xs = xs"
  by (simp add: write_at_def)

lemma write_at_twice:
  "length ds = length ds' \<Longrightarrow> i + length ds \<le> length xs \<Longrightarrow>
     write_at i ds (write_at i ds' xs) = write_at i ds xs"
  by (rule nth_equalityI) (simp_all add: nth_write_at)

text \<open>\<open>slice::chunks\<close>: consecutive pieces of \<open>n\<close> elements, the last one shorter.\<close>

function chunks :: "nat \<Rightarrow> 'a list \<Rightarrow> 'a list list" where
  "chunks n xs = (if n = 0 \<or> xs = [] then [] else take n xs # chunks n (drop n xs))"
  by pat_completeness auto
termination
  by (relation "measure (\<lambda>(n, xs). length xs)") auto

declare chunks.simps [simp del]

lemma chunks_Nil [simp]: "chunks n [] = []"
  by (subst chunks.simps) simp

lemma concat_chunks: "0 < n \<Longrightarrow> concat (chunks n xs) = xs"
proof (induction n xs rule: chunks.induct)
  case (1 n xs)
  then show ?case by (cases "xs = []") (simp_all add: chunks.simps [of n xs])
qed

lemma chunks_append_block:
  "0 < n \<Longrightarrow> length xs = n \<Longrightarrow> chunks n (xs @ ys) = xs # chunks n ys"
  by (subst chunks.simps) auto

section \<open>Stamping a run of a list\<close>

text \<open>
  \<open>fetch_max\<close> on one cell, and the \<open>for\<close> loop that applies it to the cells
  \<open>lo..=hi\<close> in order.
\<close>

definition fetch_max :: "nat \<Rightarrow> 'a::linorder \<Rightarrow> 'a list \<Rightarrow> 'a list" where
  "fetch_max i e xs = xs[i := max (xs ! i) e]"

definition stamp :: "nat \<Rightarrow> nat \<Rightarrow> 'a::linorder \<Rightarrow> 'a list \<Rightarrow> 'a list" where
  "stamp lo hi e xs = fold (\<lambda>i. fetch_max i e) [lo..<Suc hi] xs"

lemma length_fetch_max [simp]: "length (fetch_max i e xs) = length xs"
  by (simp add: fetch_max_def)

lemma nth_fetch_max:
  "k < length xs \<Longrightarrow> fetch_max i e xs ! k = (if k = i then max (xs ! k) e else xs ! k)"
  by (simp add: fetch_max_def nth_list_update)

lemma nth_fold_fetch_max:
  "k < length xs \<Longrightarrow> fold (\<lambda>i. fetch_max i e) is xs ! k =
     (if k \<in> set is then max (xs ! k) e else xs ! k)"
  by (induction "is" arbitrary: xs) (auto simp: nth_fetch_max max.assoc)

lemma length_fold_fetch_max [simp]: "length (fold (\<lambda>i. fetch_max i e) is xs) = length xs"
  by (induction "is" arbitrary: xs) simp_all

lemma length_stamp [simp]: "length (stamp lo hi e xs) = length xs"
  by (simp add: stamp_def)

lemma nth_stamp:
  "k < length xs \<Longrightarrow>
     stamp lo hi e xs ! k = (if lo \<le> k \<and> k \<le> hi then max (xs ! k) e else xs ! k)"
  by (auto simp: stamp_def nth_fold_fetch_max less_Suc_eq_le simp del: upt_Suc)

lemma stamp_increases: "k < length xs \<Longrightarrow> xs ! k \<le> stamp lo hi e xs ! k"
  by (simp add: nth_stamp)

end
