(* ===== verification/Era.thy ===== *)
theory Era
  imports Ublk_Prelude
begin

text \<open>
  The era map of \<^verbatim>\<open>src/src/era.rs\<close>: one \<open>u32\<close> era per chunk of the device, a
  current era that a checkpoint bumps, and the queries over them. This theory is the
  single-threaded reading of \<open>EraState\<close>: every atomic operation takes effect at once.
  \<^verbatim>\<open>Era_Conc\<close> runs the same operations as interleaved atomic steps, and \<^verbatim>\<open>Meta\<close>
  holds \<open>save\<close> and \<open>load\<close>.
\<close>

section \<open>The code\<close>

record era_state =
  granularity :: u64
  dev_size :: u64
  generation :: u64
  current_era :: u32
  eras :: "u32 list"

record dirty_range =
  dr_offset :: u64
  dr_len :: u64

datatype era_error =
    BadGranularity u64
  | UrandomUnavailable
  | MetaUnreadable
  | MetaTruncated
  | NotMetadata
  | UnsupportedVersion u32
  | ChecksumMismatch
  | GranularityMismatch u64 u64
  | SizeMismatch u64 u64
  | ChunkCountMismatch
  | BodyLengthMismatch

text \<open>\<open>u64::is_power_of_two\<close> counts the ones; \<open>u64::div_ceil\<close> rounds a quotient up.\<close>

definition is_power_of_two :: "u64 \<Rightarrow> bool" where
  "is_power_of_two w \<longleftrightarrow> length (filter (bit w) [0..<64]) = 1"

definition div_ceil :: "u64 \<Rightarrow> u64 \<Rightarrow> u64" where
  "div_ceil a b = (let d = a div b; r = a mod b in if 0 < r then d + 1 else d)"

text \<open>
  \<open>EraState::new\<close>. The argument \<open>urandom\<close> is what reading eight bytes of
  \<^verbatim>\<open>/dev/urandom\<close> gave: \<open>None\<close> when the open or the read failed.
\<close>

definition era_new :: "u8 list option \<Rightarrow> u64 \<Rightarrow> u64 \<Rightarrow> era_error + era_state" where
  "era_new urandom dsize gr =
     (if \<not> is_power_of_two gr \<or> gr < 4096 then Inl (BadGranularity gr)
      else let nr = div_ceil dsize gr in
        (case urandom of
           None \<Rightarrow> Inl UrandomUnavailable
         | Some rnd \<Rightarrow> Inr \<lparr> granularity = gr, dev_size = dsize,
             generation = from_le_bytes rnd, current_era = 1,
             eras = replicate (unat nr) 0 \<rparr>))"

definition nr_chunks :: "era_state \<Rightarrow> u64" where
  "nr_chunks s = of_nat (length (eras s))"

text \<open>
  \<open>mark_write\<close>, up to the loop: which chunks \<open>first..=last\<close> it takes. \<open>NoChunks\<close>
  are the two early returns; \<open>SlicePanic\<close> is a division by zero or a slice whose start
  lies behind its end.
\<close>

datatype chunk_slice = NoChunks | SlicePanic | Chunks nat nat

definition mark_slice :: "era_state \<Rightarrow> u64 \<Rightarrow> u64 \<Rightarrow> chunk_slice" where
  "mark_slice s offset len =
     (if len = 0 then NoChunks
      else if granularity s = 0 then SlicePanic
      else let first = unat (offset div granularity s) in
        if length (eras s) \<le> first then NoChunks
        else let last = unat ((offset + len - 1) div granularity s);
                 hi = min last (length (eras s) - 1)
             in if Suc hi < first then SlicePanic else Chunks first hi)"

text \<open>
  The whole operation with no other thread running: the second load of \<open>current_era\<close>
  agrees with the first, so the loop body runs once. \<open>None\<close> is a panic.
\<close>

definition mark_write :: "u64 \<Rightarrow> u64 \<Rightarrow> era_state \<Rightarrow> era_state option" where
  "mark_write offset len s =
     (case mark_slice s offset len of
        NoChunks \<Rightarrow> Some s
      | SlicePanic \<Rightarrow> None
      | Chunks lo hi \<Rightarrow> Some (s\<lparr>eras := stamp lo hi (current_era s) (eras s)\<rparr>))"

definition checkpoint :: "era_state \<Rightarrow> era_state \<times> (u32 \<times> u32)" where
  "checkpoint s =
     (let old = current_era s in (s\<lparr>current_era := old + 1\<rparr>, (old, old + 1)))"

definition written_chunks :: "era_state \<Rightarrow> u64" where
  "written_chunks s = of_nat (length (filter (\<lambda>e. 0 < e) (eras s)))"

text \<open>\<open>ranges_since\<close>: the loop body on chunk \<open>idx\<close> with era \<open>e\<close>, and the loop.\<close>

definition range_step ::
    "era_state \<Rightarrow> u32 \<Rightarrow> nat \<times> u32 \<Rightarrow> dirty_range list \<Rightarrow> dirty_range list" where
  "range_step s since = (\<lambda>(idx, e) ranges.
     if e \<le> since then ranges
     else let offset = of_nat idx * granularity s;
              len = min (granularity s) (dev_size s - offset)
          in if ranges \<noteq> [] \<and> dr_offset (last ranges) + dr_len (last ranges) = offset
             then butlast ranges @ [(last ranges)\<lparr>dr_len := dr_len (last ranges) + len\<rparr>]
             else ranges @ [\<lparr>dr_offset = offset, dr_len = len\<rparr>])"

definition ranges_since :: "era_state \<Rightarrow> u32 \<Rightarrow> dirty_range list" where
  "ranges_since s since = fold (range_step s since) (List.enumerate 0 (eras s)) []"

definition mark_all_dirty :: "era_state \<Rightarrow> era_state" where
  "mark_all_dirty s =
     s\<lparr>eras := fold (\<lambda>i. fetch_max i (current_era s)) [0..<length (eras s)] (eras s)\<rparr>"

section \<open>Well-formed era maps\<close>

lemma max_word_zero_id: "max w 0 = w" for w :: "'a::len word"
  by (simp add: max_def)

abbreviation gran :: "era_state \<Rightarrow> nat" where
  "gran s \<equiv> unat (granularity s)"

abbreviation size_of :: "era_state \<Rightarrow> nat" where
  "size_of s \<equiv> unat (dev_size s)"

definition era_wf :: "era_state \<Rightarrow> bool" where
  "era_wf s \<longleftrightarrow> is_power_of_two (granularity s) \<and> 4096 \<le> granularity s \<and>
     length (eras s) = unat (div_ceil (dev_size s) (granularity s))"

text \<open>What an era map means: the bytes whose chunk carries an era newer than \<open>since\<close>.\<close>

definition chunk_era :: "era_state \<Rightarrow> nat \<Rightarrow> u32" where
  "chunk_era s b = eras s ! (b div gran s)"

definition changed_since :: "era_state \<Rightarrow> u32 \<Rightarrow> nat set" where
  "changed_since s since = {b. b < size_of s \<and> since < chunk_era s b}"

definition range_bytes :: "dirty_range \<Rightarrow> nat set" where
  "range_bytes r = {unat (dr_offset r)..<unat (dr_offset r) + unat (dr_len r)}"

definition covered :: "dirty_range list \<Rightarrow> nat set" where
  "covered rs = (\<Union>r\<in>set rs. range_bytes r)"

named_theorems era_frame \<open>fields an operation leaves alone\<close>

lemma gran_pos: "era_wf s \<Longrightarrow> 4096 \<le> gran s"
  by (simp add: era_wf_def word_le_nat_alt)

lemma div_ceil_nat:
  assumes "b \<noteq> 0" and "1 < unat b"
  shows "unat (div_ceil a b) = (unat a + unat b - 1) div unat b"
proof -
  have "unat a div unat b < 2 ^ 63"
  proof -
    have "unat a div unat b \<le> unat a div 2" using assms by (intro div_le_mono2) simp_all
    also have "unat a < 2 ^ 64" by (rule unat_u64_less)
    then have "unat a div 2 < 2 ^ 63" by simp
    finally show ?thesis .
  qed
  then have plus: "unat (a div b + 1) = unat a div unat b + 1"
    by (subst unat_add_no_overflow) (simp_all add: word_nat)
  have "0 < unat b" using assms by linarith
  then show ?thesis
    using plus ceil_div_nat [of "unat b" "unat a"] by (simp add: div_ceil_def Let_def word_nat)
qed

lemma length_eras:
  assumes "era_wf s"
  shows "length (eras s) = (size_of s + gran s - 1) div gran s"
proof -
  have "granularity s \<noteq> 0" using gran_pos [OF assms] by auto
  with assms show ?thesis
    unfolding era_wf_def using gran_pos [OF assms] by (simp add: div_ceil_nat)
qed

lemma chunk_index_iff:
  assumes "era_wf s"
  shows "k < length (eras s) \<longleftrightarrow> k * gran s < size_of s"
proof -
  have g: "0 < gran s" using gran_pos [OF assms] by linarith
  have "k < length (eras s) \<longleftrightarrow> Suc k \<le> (size_of s + gran s - 1) div gran s"
    by (simp add: length_eras [OF assms] Suc_le_eq)
  also have "\<dots> \<longleftrightarrow> Suc k * gran s \<le> size_of s + gran s - 1"
    by (rule less_eq_div_iff_mult_less_eq [OF g])
  also have "\<dots> \<longleftrightarrow> k * gran s < size_of s" using g by auto
  finally show ?thesis .
qed

lemma byte_chunk_in_range:
  assumes "era_wf s" and "b < size_of s"
  shows "b div gran s < length (eras s)"
proof -
  have "b div gran s * gran s \<le> b" by (rule div_times_less_eq_dividend)
  then have "b div gran s * gran s < size_of s" using assms(2) by (rule le_less_trans)
  with assms(1) show ?thesis by (simp add: chunk_index_iff)
qed

text \<open>Two maps of the same shape: the frame of every operation but \<open>new\<close> and \<open>load\<close>.\<close>

definition same_shape :: "era_state \<Rightarrow> era_state \<Rightarrow> bool" where
  "same_shape s t \<longleftrightarrow> granularity t = granularity s \<and> dev_size t = dev_size s \<and>
     generation t = generation s \<and> length (eras t) = length (eras s)"

lemma same_shape_wf: "same_shape s t \<Longrightarrow> era_wf s \<Longrightarrow> era_wf t"
  by (simp add: same_shape_def era_wf_def)

lemma same_shape_refl [simp]: "same_shape s s"
  by (simp add: same_shape_def)

lemma same_shape_trans: "same_shape s t \<Longrightarrow> same_shape t u \<Longrightarrow> same_shape s u"
  by (simp add: same_shape_def)

section \<open>Stamping\<close>

text \<open>The bytes of a request, and the chunks they lie in.\<close>

definition req_bytes :: "u64 \<Rightarrow> u64 \<Rightarrow> nat set" where
  "req_bytes offset len = {unat offset..<unat offset + unat len}"

definition in_device :: "era_state \<Rightarrow> u64 \<Rightarrow> u64 \<Rightarrow> bool" where
  "in_device s offset len \<longleftrightarrow> unat offset + unat len \<le> size_of s"

lemma chunks_of_bytes:
  fixes g :: nat
  assumes "0 < g" and "0 < n"
  shows "(\<exists>b\<in>{off..<off + n}. b div g = k) \<longleftrightarrow> off div g \<le> k \<and> k \<le> (off + n - 1) div g"
proof
  assume "\<exists>b\<in>{off..<off + n}. b div g = k"
  then obtain b where "off \<le> b" "b \<le> off + n - 1" "b div g = k" by auto
  then show "off div g \<le> k \<and> k \<le> (off + n - 1) div g" by (auto intro: div_le_mono)
next
  assume k: "off div g \<le> k \<and> k \<le> (off + n - 1) div g"
  let ?b = "max off (k * g)"
  have "k * g \<le> off + n - 1"
    using k by (simp add: less_eq_div_iff_mult_less_eq [OF assms(1)])
  moreover have "?b div g = k"
  proof (cases "off \<le> k * g")
    case True
    with assms show ?thesis by (simp add: max_def)
  next
    case False
    then have "k \<le> off div g" by (simp add: less_eq_div_iff_mult_less_eq [OF assms(1)])
    with False k show ?thesis by simp
  qed
  ultimately show "\<exists>b\<in>{off..<off + n}. b div g = k"
    using assms(2) by (intro bexI [of _ ?b]) auto
qed

lemma mark_slice_in_range:
  assumes wf: "era_wf s" and len: "len \<noteq> 0" and inr: "in_device s offset len"
  shows "mark_slice s offset len =
    Chunks (unat offset div gran s) ((unat offset + unat len - 1) div gran s)"
proof -
  have pos: "0 < unat len" using len by (simp add: unat_gt_0)
  have lt: "unat offset + unat len < 2 ^ 64"
    using inr unat_u64_less [of "dev_size s"] by (simp add: in_device_def)
  then have sum: "unat (offset + len) = unat offset + unat len"
    by (intro unat_add_no_overflow) simp
  then have "offset + len \<noteq> 0" using pos by (metis add_is_0 not_gr_zero unat_0)
  then have end1: "unat (offset + len - 1) = unat offset + unat len - 1"
    by (simp add: unat_minus_one sum)
  have first: "unat offset div gran s < length (eras s)"
    by (rule byte_chunk_in_range [OF wf]) (use inr pos in \<open>simp add: in_device_def\<close>)
  have last: "(unat offset + unat len - 1) div gran s < length (eras s)"
    by (rule byte_chunk_in_range [OF wf]) (use inr pos in \<open>simp add: in_device_def\<close>)
  have "unat offset div gran s \<le> (unat offset + unat len - 1) div gran s"
    using pos by (intro div_le_mono) linarith
  moreover have "granularity s \<noteq> 0" using gran_pos [OF wf] by auto
  ultimately show ?thesis
    using len first last by (simp add: mark_slice_def Let_def word_nat end1 min_absorb1)
qed

lemma mark_write_shape: "mark_write offset len s = Some s' \<Longrightarrow>
    same_shape s s' \<and> current_era s' = current_era s"
  by (auto simp: mark_write_def same_shape_def split: chunk_slice.splits)

lemma mark_write_increases:
  "mark_write offset len s = Some s' \<Longrightarrow> k < length (eras s) \<Longrightarrow> eras s ! k \<le> eras s' ! k"
  by (auto simp: mark_write_def stamp_increases split: chunk_slice.splits)

lemma mark_write_empty [simp]: "mark_write offset 0 s = Some s"
  by (simp add: mark_write_def mark_slice_def)

text \<open>The effect of an in-range \<open>mark_write\<close>, chunk by chunk.\<close>

lemma mark_write_effect:
  assumes wf: "era_wf s" and inr: "in_device s offset len"
  obtains s' where "mark_write offset len s = Some s'"
    and "\<And>k. k < length (eras s) \<Longrightarrow> eras s' ! k =
      (if \<exists>b\<in>req_bytes offset len. b div gran s = k
       then max (eras s ! k) (current_era s) else eras s ! k)"
proof (cases "len = 0")
  case True
  show ?thesis by (rule that [of s]) (simp_all add: True req_bytes_def)
next
  case False
  then have pos: "0 < unat len" by (simp add: unat_gt_0)
  have g: "0 < gran s" using gran_pos [OF wf] by linarith
  let ?lo = "unat offset div gran s" and ?hi = "(unat offset + unat len - 1) div gran s"
  let ?t = "s\<lparr>eras := stamp ?lo ?hi (current_era s) (eras s)\<rparr>"
  have "mark_write offset len s = Some ?t"
    by (simp add: mark_write_def mark_slice_in_range [OF wf False inr])
  moreover have "eras ?t ! k =
      (if \<exists>b\<in>req_bytes offset len. b div gran s = k
       then max (eras s ! k) (current_era s) else eras s ! k)" if "k < length (eras s)" for k
    using that by (simp add: nth_stamp req_bytes_def chunks_of_bytes [OF g pos])
  ultimately show ?thesis by (rule that)
qed

lemma mark_write_reaches:
  assumes "era_wf s" and "in_device s offset len" and "mark_write offset len s = Some s'"
    and "b \<in> req_bytes offset len"
  shows "current_era s \<le> chunk_era s' b"
proof -
  obtain t where t: "mark_write offset len s = Some t"
    and eff: "\<And>k. k < length (eras s) \<Longrightarrow> eras t ! k =
      (if \<exists>b\<in>req_bytes offset len. b div gran s = k
       then max (eras s ! k) (current_era s) else eras s ! k)"
    using mark_write_effect [OF assms(1,2)] by blast
  have "b < size_of s" using assms(2,4) by (auto simp: req_bytes_def in_device_def)
  then have "b div gran s < length (eras s)" by (rule byte_chunk_in_range [OF assms(1)])
  moreover have "gran s' = gran s" using mark_write_shape [OF assms(3)] by (simp add: same_shape_def)
  ultimately show ?thesis using eff assms(3,4) t by (auto simp: chunk_era_def)
qed

lemma checkpoint_simps [simp]:
  "fst (snd (checkpoint s)) = current_era s"
  "snd (snd (checkpoint s)) = current_era s + 1"
  "current_era (fst (checkpoint s)) = current_era s + 1"
  "eras (fst (checkpoint s)) = eras s"
  "granularity (fst (checkpoint s)) = granularity s"
  "dev_size (fst (checkpoint s)) = dev_size s"
  "generation (fst (checkpoint s)) = generation s"
  by (simp_all add: checkpoint_def Let_def)

lemma checkpoint_shape [simp]: "same_shape s (fst (checkpoint s))"
  by (simp add: same_shape_def)

lemma mark_all_dirty_simps [simp]:
  "current_era (mark_all_dirty s) = current_era s"
  "granularity (mark_all_dirty s) = granularity s"
  "dev_size (mark_all_dirty s) = dev_size s"
  "generation (mark_all_dirty s) = generation s"
  "length (eras (mark_all_dirty s)) = length (eras s)"
  by (simp_all add: mark_all_dirty_def)

lemma nth_mark_all_dirty:
  "k < length (eras s) \<Longrightarrow> eras (mark_all_dirty s) ! k = max (eras s ! k) (current_era s)"
  by (simp add: mark_all_dirty_def nth_fold_fetch_max)

lemma mark_all_dirty_shape [simp]: "same_shape s (mark_all_dirty s)"
  by (simp add: same_shape_def)

section \<open>The reported ranges\<close>

text \<open>
  What \<open>ranges_since\<close> promises of its list, up to chunk \<open>k\<close>: it covers the changed
  bytes of the chunks before \<open>k\<close> and nothing else, in ascending order with a gap between
  two ranges (so adjacent chunks are merged), each range non-empty and starting on a chunk
  boundary.
\<close>

abbreviation range_end :: "dirty_range \<Rightarrow> nat" where
  "range_end r \<equiv> unat (dr_offset r) + unat (dr_len r)"

definition ranges_sep :: "dirty_range list \<Rightarrow> bool" where
  "ranges_sep rs \<longleftrightarrow> sorted_wrt (\<lambda>r r'. range_end r < unat (dr_offset r')) rs"

definition ranges_upto :: "era_state \<Rightarrow> u32 \<Rightarrow> nat \<Rightarrow> dirty_range list \<Rightarrow> bool" where
  "ranges_upto s since k rs \<longleftrightarrow>
     covered rs = {b \<in> changed_since s since. b < k * gran s} \<and> ranges_sep rs \<and>
     (\<forall>r\<in>set rs. 0 < unat (dr_len r) \<and> range_end r \<le> min (k * gran s) (size_of s) \<and>
        gran s dvd unat (dr_offset r) \<and>
        (gran s dvd range_end r \<or> range_end r = size_of s))"

lemma enumerate_as_upt: "List.enumerate 0 xs = map (\<lambda>i. (i, xs ! i)) [0..<length xs]"
  by (rule nth_equalityI) (simp_all add: nth_enumerate_eq)

lemma ranges_since_upt:
  "ranges_since s since = fold (\<lambda>i. range_step s since (i, eras s ! i)) [0..<length (eras s)] []"
  by (simp add: ranges_since_def enumerate_as_upt fold_map comp_def)

text \<open>Chunk \<open>k\<close> on its own: where it starts, how long it is, what it contributes.\<close>

lemma chunk_span:
  assumes "era_wf s" and "k < length (eras s)"
  defines "off \<equiv> of_nat k * granularity s"
  defines "len \<equiv> min (granularity s) (dev_size s - off)"
  shows "unat off = k * gran s"
    and "unat len = min (gran s) (size_of s - k * gran s)"
    and "0 < unat len" and "unat off + unat len = min (Suc k * gran s) (size_of s)"
proof -
  have lt: "k * gran s < size_of s" using assms by (simp add: chunk_index_iff)
  moreover have "size_of s < 2 ^ 64" by (rule unat_u64_less)
  ultimately have "k * gran s < 2 ^ LENGTH(64)" by simp
  then show off: "unat off = k * gran s" unfolding off_def by (rule unat_of_nat_mult)
  then have "off \<le> dev_size s" using lt by (simp add: word_le_nat_alt)
  then have "unat (dev_size s - off) = size_of s - k * gran s" by (simp add: unat_sub off)
  then show len: "unat len = min (gran s) (size_of s - k * gran s)"
    unfolding len_def by (simp add: unat_min)
  show "0 < unat len" using lt gran_pos [OF assms(1)] by (simp add: len)
  show "unat off + unat len = min (Suc k * gran s) (size_of s)"
    using lt unfolding off len by (auto simp: min_def)
qed

lemma changed_in_chunk:
  assumes "era_wf s" and "k < length (eras s)"
  shows "{b \<in> changed_since s since. b < Suc k * gran s} =
    {b \<in> changed_since s since. b < k * gran s} \<union>
    (if since < eras s ! k then {k * gran s..<min (Suc k * gran s) (size_of s)} else {})"
proof -
  have g: "0 < gran s" using gran_pos [OF assms(1)] by linarith
  have at_k: "b div gran s = k" if "k * gran s \<le> b" and "b < Suc k * gran s" for b
    using that g by (intro div_nat_eqI) (simp_all add: mult.commute)
  have "b < Suc k * gran s \<longleftrightarrow> b < k * gran s \<or> k * gran s \<le> b \<and> b < Suc k * gran s" for b
    by auto
  then show ?thesis
    using at_k by (cases "since < eras s ! k") (fastforce simp: changed_since_def chunk_era_def)+
qed

lemma covered_snoc [simp]: "covered (rs @ [r]) = covered rs \<union> range_bytes r"
  by (auto simp: covered_def)

lemma covered_Nil [simp]: "covered [] = {}"
  by (simp add: covered_def)

lemma ranges_sep_snoc:
  "ranges_sep (rs @ [r]) \<longleftrightarrow> ranges_sep rs \<and> (\<forall>x\<in>set rs. range_end x < unat (dr_offset r))"
  by (simp add: ranges_sep_def sorted_wrt_append)

lemma range_end_word:
  assumes "range_end r \<le> size_of s"
  shows "unat (dr_offset r + dr_len r) = range_end r"
  using assms unat_u64_less [of "dev_size s"] by (intro unat_add_no_overflow) simp

text \<open>The three branches of the loop body.\<close>

lemma range_step_clean:
  assumes "ranges_upto s since k rs" and "era_wf s" and "k < length (eras s)"
    and "eras s ! k \<le> since"
  shows "ranges_upto s since (Suc k) rs"
proof -
  have "\<not> since < eras s ! k" using assms(4) by simp
  then have "{b \<in> changed_since s since. b < Suc k * gran s} =
      {b \<in> changed_since s since. b < k * gran s}"
    unfolding changed_in_chunk [OF assms(2,3)] by simp
  moreover have "min (k * gran s) (size_of s) \<le> min (Suc k * gran s) (size_of s)"
    by (intro min.mono) simp_all
  ultimately show ?thesis
    using assms(1) unfolding ranges_upto_def by (fastforce intro: order_trans)
qed

lemma range_step_merge:
  assumes up: "ranges_upto s since k (rs @ [r])" and wf: "era_wf s" and k: "k < length (eras s)"
    and dirty: "since < eras s ! k"
    and meet: "dr_offset r + dr_len r = of_nat k * granularity s"
  defines "len \<equiv> min (granularity s) (dev_size s - of_nat k * granularity s)"
  shows "ranges_upto s since (Suc k) (rs @ [r\<lparr>dr_len := dr_len r + len\<rparr>])"
proof -
  note span = chunk_span [OF wf k, folded len_def]
  have r: "range_end r \<le> min (k * gran s) (size_of s)" "gran s dvd unat (dr_offset r)"
    using up by (auto simp: ranges_upto_def)
  then have "unat (dr_offset r + dr_len r) = range_end r" by (intro range_end_word [of r s]) simp
  then have e: "range_end r = k * gran s" using meet span(1) by simp
  have "unat (dr_len r) + unat len \<le> size_of s"
    using span(1,4) e by linarith
  then have len: "unat (dr_len r + len) = unat (dr_len r) + unat len"
    using unat_u64_less [of "dev_size s"] by (intro unat_add_no_overflow) simp
  have bytes: "range_bytes (r\<lparr>dr_len := dr_len r + len\<rparr>)
      = range_bytes r \<union> {k * gran s..<min (Suc k * gran s) (size_of s)}"
    using e span(1,4) by (auto simp: range_bytes_def len)
  have "covered (rs @ [r]) = {b \<in> changed_since s since. b < k * gran s}"
    using up by (simp add: ranges_upto_def)
  then have cov: "covered (rs @ [r\<lparr>dr_len := dr_len r + len\<rparr>])
      = {b \<in> changed_since s since. b < Suc k * gran s}"
    unfolding changed_in_chunk [OF wf k] using dirty by (auto simp: bytes)
  have ends: "unat (dr_offset r) + unat (dr_len r + len) = min (Suc k * gran s) (size_of s)"
    using e span(1,4) len by linarith
  have "range_end x \<le> min (Suc k * gran s) (size_of s)" if "x \<in> set rs" for x
    using up that by (auto simp: ranges_upto_def)
  moreover have "gran s dvd min (Suc k * gran s) (size_of s) \<or>
      min (Suc k * gran s) (size_of s) = size_of s"
    by (simp add: min_def)
  ultimately show ?thesis
    using up r cov ends span(3) by (auto simp: ranges_upto_def ranges_sep_snoc len)
qed

lemma ends_before:
  assumes "ranges_sep rs" and "rs \<noteq> []" and "range_end (last rs) < n" and "x \<in> set rs"
  shows "range_end x < n"
proof (cases "x = last rs")
  case False
  have rs: "rs = butlast rs @ [last rs]" using assms(2) by simp
  then have "x \<in> set (butlast rs)" using assms(4) False by (metis in_set_butlastD rotate1.simps(2)
      set_ConsD set_rotate1)
  then have "range_end x < unat (dr_offset (last rs))"
    using assms(1) rs by (metis ranges_sep_snoc)
  with assms(3) show ?thesis by linarith
qed (use assms in simp)

lemma range_step_push:
  assumes up: "ranges_upto s since k rs" and wf: "era_wf s" and k: "k < length (eras s)"
    and dirty: "since < eras s ! k"
    and apart: "rs \<noteq> [] \<Longrightarrow> dr_offset (last rs) + dr_len (last rs) \<noteq> of_nat k * granularity s"
  defines "len \<equiv> min (granularity s) (dev_size s - of_nat k * granularity s)"
  shows "ranges_upto s since (Suc k)
    (rs @ [\<lparr>dr_offset = of_nat k * granularity s, dr_len = len\<rparr>])"
proof -
  note span = chunk_span [OF wf k, folded len_def]
  have bound: "range_end x \<le> min (k * gran s) (size_of s)" if "x \<in> set rs" for x
    using up that by (auto simp: ranges_upto_def)
  have before: "range_end x < k * gran s" if x: "x \<in> set rs" for x
  proof -
    have ne: "rs \<noteq> []" using x by auto
    then have b: "range_end (last rs) \<le> min (k * gran s) (size_of s)" by (intro bound) simp
    then have "unat (dr_offset (last rs) + dr_len (last rs)) = range_end (last rs)"
      by (intro range_end_word [of _ s]) simp
    with apart [OF ne] have "range_end (last rs) \<noteq> k * gran s"
      using span(1) by (metis unsigned_word_eqI)
    with b have "range_end (last rs) < k * gran s" by simp
    then show ?thesis using ends_before ne up x by (auto simp: ranges_upto_def)
  qed
  let ?new = "\<lparr>dr_offset = of_nat k * granularity s, dr_len = len\<rparr> :: dirty_range"
  have bytes: "range_bytes ?new = {k * gran s..<min (Suc k * gran s) (size_of s)}"
    using span(1,4) by (simp add: range_bytes_def)
  have "covered rs = {b \<in> changed_since s since. b < k * gran s}"
    using up by (simp add: ranges_upto_def)
  then have cov: "covered (rs @ [?new]) = {b \<in> changed_since s since. b < Suc k * gran s}"
    unfolding changed_in_chunk [OF wf k] using dirty by (auto simp: bytes)
  have "range_end x \<le> min (Suc k * gran s) (size_of s)" if "x \<in> set rs" for x
    using bound [OF that] by simp
  moreover have "gran s dvd min (Suc k * gran s) (size_of s) \<or>
      min (Suc k * gran s) (size_of s) = size_of s"
    by (simp add: min_def)
  ultimately show ?thesis
    using up cov before span by (auto simp: ranges_upto_def ranges_sep_snoc)
qed

lemma range_step_upto:
  assumes "ranges_upto s since k rs" and "era_wf s" and "k < length (eras s)"
  shows "ranges_upto s since (Suc k) (range_step s since (k, eras s ! k) rs)"
proof (cases "eras s ! k \<le> since")
  case True
  with range_step_clean [OF assms] show ?thesis by (simp add: range_step_def)
next
  case dirty: False
  let ?off = "of_nat k * granularity s"
  show ?thesis
  proof (cases "rs \<noteq> [] \<and> dr_offset (last rs) + dr_len (last rs) = ?off")
    case True
    then have "rs = butlast rs @ [last rs]" by simp
    then have "ranges_upto s since k (butlast rs @ [last rs])" using assms(1) by simp
    from range_step_merge [OF this assms(2,3)] True dirty show ?thesis
      by (simp add: range_step_def Let_def)
  next
    case False
    with range_step_push [OF assms] dirty show ?thesis
      by (auto simp: range_step_def Let_def)
  qed
qed

lemma ranges_since_upto:
  assumes "era_wf s"
  shows "ranges_upto s since (length (eras s)) (ranges_since s since)"
proof -
  have "ranges_upto s since k (fold (\<lambda>i. range_step s since (i, eras s ! i)) [0..<k] [])"
    if "k \<le> length (eras s)" for k
    using that
  proof (induction k)
    case 0
    then show ?case by (simp add: ranges_upto_def ranges_sep_def)
  next
    case (Suc k)
    then show ?case using range_step_upto [OF _ assms] by simp
  qed
  then show ?thesis by (simp add: ranges_since_upt)
qed

lemma covered_ranges_since: "era_wf s \<Longrightarrow> covered (ranges_since s since) = changed_since s since"
proof -
  assume wf: "era_wf s"
  have "size_of s \<le> length (eras s) * gran s"
    using chunk_index_iff [OF wf, of "length (eras s)"] by simp
  with ranges_since_upto [OF wf, of since] show ?thesis
    by (auto simp: ranges_upto_def changed_since_def)
qed

lemma card_covered: "ranges_sep rs \<Longrightarrow> card (covered rs) = (\<Sum>r\<leftarrow>rs. unat (dr_len r))"
proof (induction rs rule: rev_induct)
  case (snoc r rs)
  then have "covered rs \<inter> range_bytes r = {}"
    by (fastforce simp: ranges_sep_snoc covered_def range_bytes_def)
  moreover have "finite (covered rs)" "finite (range_bytes r)"
    by (simp_all add: covered_def range_bytes_def)
  ultimately show ?case
    using snoc by (simp add: ranges_sep_snoc card_Un_disjoint range_bytes_def)
qed simp

lemma ranges_sep_whole:
  assumes sep: "ranges_sep rs" and pos: "\<forall>r\<in>set rs. 0 < unat (dr_len r)"
    and cov: "covered rs = {0..<n}" and n: "0 < n"
  shows "\<exists>r. rs = [r] \<and> unat (dr_offset r) = 0 \<and> unat (dr_len r) = n"
proof (cases rs)
  case Nil
  with cov n show ?thesis by simp
next
  case (Cons r rest)
  have later: "range_end r < unat (dr_offset x)" if "x \<in> set rest" for x
    using sep that by (simp add: Cons ranges_sep_def)
  have hd_pos: "0 < unat (dr_len r)" using pos Cons by simp
  have "0 \<in> covered rs" using cov n by simp
  then have off: "unat (dr_offset r) = 0"
    using later by (fastforce simp: Cons covered_def range_bytes_def)
  have "rest = []"
  proof (rule ccontr)
    assume "rest \<noteq> []"
    then obtain x where x: "x \<in> set rest" by (cases rest) auto
    then have "unat (dr_offset x) \<in> covered rs"
      using pos by (auto simp: Cons covered_def range_bytes_def)
    with later [OF x] cov have "range_end r \<in> covered rs" by simp
    then show False using later by (fastforce simp: Cons covered_def range_bytes_def)
  qed
  then have "{0..<unat (dr_len r)} = {0..<n}"
    using cov Cons off by (simp add: covered_def range_bytes_def)
  with hd_pos n have "unat (dr_len r) = n" by (metis atLeastLessThan_inj(2))
  with \<open>rest = []\<close> Cons off show ?thesis by simp
qed

lemma all_dirty_ranges:
  assumes "era_wf s" and "0 < dev_size s" and "since < current_era s"
  shows "ranges_since (mark_all_dirty s) since = [\<lparr>dr_offset = 0, dr_len = dev_size s\<rparr>]"
proof -
  let ?t = "mark_all_dirty s"
  have wf: "era_wf ?t" by (rule same_shape_wf [OF _ assms(1)]) simp
  have "changed_since ?t since = {0..<size_of s}"
    using assms(3) nth_mark_all_dirty byte_chunk_in_range [OF assms(1)]
    by (auto simp: changed_since_def chunk_era_def less_max_iff_disj)
  moreover have "0 < size_of s" using assms(2) by (simp add: word_less_nat_alt)
  ultimately obtain r where r: "ranges_since ?t since = [r]"
    "unat (dr_offset r) = 0" "unat (dr_len r) = size_of s"
    using ranges_sep_whole [of "ranges_since ?t since" "size_of s"]
      ranges_since_upto [OF wf, of since] covered_ranges_since [OF wf, of since]
    by (auto simp: ranges_upto_def)
  then have "r = \<lparr>dr_offset = 0, dr_len = dev_size s\<rparr>"
    by (cases r) (auto simp: unat_eq_zero intro: unsigned_word_eqI)
  with r(1) show ?thesis by simp
qed

section \<open>Histories\<close>

text \<open>
  The contract of the map over a whole life: a history is a sequence of completed writes
  and checkpoints, and era \<open>n\<close> is the time between the checkpoints \<open>n - 1\<close> and
  \<open>n\<close>. A chunk is reported for \<open>since\<close> exactly when some write to it happened in a
  later era.
\<close>

datatype era_op = MarkWrite u64 u64 | Checkpoint

fun era_exec :: "era_op \<Rightarrow> era_state \<Rightarrow> era_state option" where
  "era_exec (MarkWrite offset len) s = mark_write offset len s"
| "era_exec Checkpoint s = Some (fst (checkpoint s))"

fun era_run :: "era_op list \<Rightarrow> era_state \<Rightarrow> era_state option" where
  "era_run [] s = Some s"
| "era_run (x # xs) s = (case era_exec x s of None \<Rightarrow> None | Some t \<Rightarrow> era_run xs t)"

lemma era_run_snoc:
  "era_run (xs @ [x]) s = (case era_run xs s of None \<Rightarrow> None | Some t \<Rightarrow> era_exec x t)"
  by (induction xs arbitrary: s) (simp_all split: option.split)

definition checkpoints_before :: "era_op list \<Rightarrow> nat \<Rightarrow> nat" where
  "checkpoints_before ops i = count_list (take i ops) Checkpoint"

definition writes_chunk :: "nat \<Rightarrow> era_op \<Rightarrow> nat \<Rightarrow> bool" where
  "writes_chunk g x k = (case x of
      MarkWrite offset len \<Rightarrow> \<exists>b\<in>req_bytes offset len. b div g = k
    | Checkpoint \<Rightarrow> False)"

definition ops_in_device :: "era_state \<Rightarrow> era_op list \<Rightarrow> bool" where
  "ops_in_device s ops \<longleftrightarrow>
     (\<forall>offset len. MarkWrite offset len \<in> set ops \<longrightarrow> in_device s offset len)"

definition written_after :: "nat \<Rightarrow> era_op list \<Rightarrow> nat \<Rightarrow> nat \<Rightarrow> bool" where
  "written_after g ops since k \<longleftrightarrow>
     (\<exists>i<length ops. writes_chunk g (ops ! i) k \<and> since \<le> checkpoints_before ops i)"

lemma written_after_snoc:
  "written_after g (ops @ [x]) since k \<longleftrightarrow>
     written_after g ops since k \<or> writes_chunk g x k \<and> since \<le> count_list ops Checkpoint"
  unfolding written_after_def checkpoints_before_def
  by (auto simp: Ex_less_Suc nth_append)

text \<open>The map after a history, chunk by chunk, as long as the counter does not wrap.\<close>

definition map_exact :: "era_state \<Rightarrow> era_op list \<Rightarrow> era_state \<Rightarrow> bool" where
  "map_exact s ops t \<longleftrightarrow> same_shape s t \<and> unat (current_era t) = Suc (count_list ops Checkpoint) \<and>
     (\<forall>k<length (eras s). \<forall>since. since < unat (eras t ! k) \<longleftrightarrow> written_after (gran s) ops since k)"

lemma map_exact_fresh:
  assumes "current_era s = 1" and "\<forall>e\<in>set (eras s). e = 0"
  shows "map_exact s [] s"
proof -
  have "\<not> since < unat (eras s ! k)" if "k < length (eras s)" for k since
    using assms(2) nth_mem [OF that] by fastforce
  then show ?thesis using assms(1) by (simp add: map_exact_def written_after_def)
qed

lemma map_exact_mark:
  assumes "era_wf s" and "map_exact s ops t" and "in_device s offset len"
  shows "\<exists>u. mark_write offset len t = Some u \<and> map_exact s (ops @ [MarkWrite offset len]) u"
proof -
  have shape: "same_shape s t" and cur: "unat (current_era t) = Suc (count_list ops Checkpoint)"
    using assms(2) by (simp_all add: map_exact_def)
  have ex: "since < unat (eras t ! k) \<longleftrightarrow> written_after (gran s) ops since k" if "k < length (eras s)" for k since
    using assms(2) that by (simp add: map_exact_def)
  have same: "length (eras t) = length (eras s)" "granularity t = granularity s" "in_device t offset len"
    using shape assms(3) by (simp_all add: same_shape_def in_device_def)
  obtain u where u: "mark_write offset len t = Some u"
    and eff: "\<And>k. k < length (eras t) \<Longrightarrow> eras u ! k =
      (if \<exists>b\<in>req_bytes offset len. b div gran t = k
       then max (eras t ! k) (current_era t) else eras t ! k)"
    using mark_write_effect [OF same_shape_wf [OF shape assms(1)] same(3)] by blast
  have "since < unat (eras u ! k) \<longleftrightarrow> written_after (gran s) (ops @ [MarkWrite offset len]) since k"
    if k: "k < length (eras s)" for k since
    using k eff [of k] ex [OF k, of since] cur
    by (auto simp: written_after_snoc writes_chunk_def same unat_max)
  then show ?thesis
    using u cur mark_write_shape [OF u] same_shape_trans [OF shape] by (simp add: map_exact_def)
qed

lemma map_exact_checkpoint:
  assumes "map_exact s ops t" and "Suc (count_list ops Checkpoint) < 2 ^ 32 - 1"
  shows "map_exact s (ops @ [Checkpoint]) (fst (checkpoint t))"
proof -
  have "unat (current_era t + 1) = Suc (unat (current_era t))"
    using assms by (subst unat_add_no_overflow) (simp_all add: map_exact_def)
  then show ?thesis
    using assms(1) same_shape_trans [of s t]
    by (simp add: map_exact_def written_after_snoc writes_chunk_def)
qed

lemma era_run_exact:
  assumes wf: "era_wf s" and fresh: "current_era s = 1" "\<forall>e\<in>set (eras s). e = 0"
    and ops: "ops_in_device s ops" and few: "count_list ops Checkpoint < 2 ^ 32 - 1"
  shows "\<exists>t. era_run ops s = Some t \<and> same_shape s t \<and>
    unat (current_era t) = Suc (count_list ops Checkpoint) \<and>
    (\<forall>k<length (eras s). \<forall>since. since < unat (eras t ! k) \<longleftrightarrow> written_after (gran s) ops since k)"
  unfolding map_exact_def [symmetric] using ops few
proof (induction ops rule: rev_induct)
  case Nil
  then show ?case using map_exact_fresh [OF fresh] by simp
next
  case (snoc x ops)
  then obtain t where run: "era_run ops s = Some t" and ex: "map_exact s ops t"
    by (auto simp: ops_in_device_def split: if_splits)
  show ?case
  proof (cases x)
    case (MarkWrite offset len)
    then have "in_device s offset len" using snoc.prems(1) by (simp add: ops_in_device_def)
    from map_exact_mark [OF wf ex this] show ?thesis using run MarkWrite by (auto simp: era_run_snoc)
  next
    case Checkpoint
    then show ?thesis using run map_exact_checkpoint [OF ex] snoc.prems(2) by (simp add: era_run_snoc)
  qed
qed

lemma era_new_ok:
  assumes "era_new urandom dsize gr = Inr s"
  shows "era_wf s \<and> granularity s = gr \<and> dev_size s = dsize \<and> current_era s = 1 \<and>
    (\<forall>e\<in>set (eras s). e = 0) \<and> (\<exists>rnd. urandom = Some rnd \<and> generation s = from_le_bytes rnd)"
  using assms
  by (auto simp: era_new_def era_wf_def Let_def split: if_splits option.splits)

lemma is_power_of_two_exp:
  assumes "k < 64"
  shows "is_power_of_two (2 ^ k)"
proof -
  have "filter (bit (2 ^ k :: u64)) [0..<64] = filter (\<lambda>i. i = k) [0..<64]"
    by (rule filter_cong) (auto simp: bit_exp_iff)
  moreover have "distinct [0..<64]" by simp
  ultimately show ?thesis
    using assms distinct_length_filter [of "[0..<64]" "\<lambda>i. i = k"]
    by (simp add: is_power_of_two_def Collect_conv_if del: upt_rec_numeral)
qed

section \<open>Properties\<close>

text \<open>
  A map with four chunks of 4 KiB and a partial tail, used by the witnesses below.
\<close>

definition ex_era :: era_state where
  "ex_era = \<lparr>granularity = 4096, dev_size = 14336, generation = 7, current_era = 1,
     eras = [0, 0, 0, 0]\<rparr>"

lemma ex_era_simps:
  "granularity ex_era = 4096" "dev_size ex_era = 14336" "current_era ex_era = 1"
  "eras ex_era = [0, 0, 0, 0]"
  by (simp_all add: ex_era_def)

lemma ex_era_wf [simp]: "era_wf ex_era"
proof -
  have "is_power_of_two 4096" using is_power_of_two_exp [of 12] by simp
  then show ?thesis by (simp add: era_wf_def ex_era_def div_ceil_def)
qed

text \<open>
  C10. \<open>ranges_since\<close> is exact: the bytes of the reported ranges are the bytes of the
  device whose chunk carries an era newer than \<open>since\<close>, no more and no less. The ranges
  are ascending, disjoint and maximally merged (a gap lies between two of them), none is
  empty, each starts on a chunk boundary, and each ends on one or at the end of the device.
\<close>

theorem ranges_since_exact:
  assumes "era_wf s"
  shows "covered (ranges_since s since) =
      {b. b < unat (dev_size s) \<and> since < eras s ! (b div unat (granularity s))} \<and>
    sorted_wrt (\<lambda>r r'. range_end r < unat (dr_offset r')) (ranges_since s since) \<and>
    (\<forall>r\<in>set (ranges_since s since). 0 < dr_len r \<and>
       unat (granularity s) dvd unat (dr_offset r) \<and>
       (unat (granularity s) dvd range_end r \<or> range_end r = unat (dev_size s)))"
  using ranges_since_upto [OF assms, of since] covered_ranges_since [OF assms, of since]
  by (auto simp: ranges_upto_def ranges_sep_def changed_since_def chunk_era_def word_less_nat_alt)

theorem ranges_since_exact_witness:
  "covered (ranges_since (ex_era\<lparr>eras := [2, 0, 1, 3]\<rparr>) 1) = {b. b < 14336 \<and> 1 < [2, 0, 1, 3 :: u32] ! (b div 4096)}"
proof -
  have "era_wf (ex_era\<lparr>eras := [2, 0, 1, 3]\<rparr>)"
    by (rule same_shape_wf [OF _ ex_era_wf]) (simp add: same_shape_def ex_era_def)
  from ranges_since_exact [OF this, of 1] show ?thesis by (simp add: ex_era_def)
qed

lemma era_run_covered:
  assumes "era_new urandom dsize gr = Inr s" and "ops_in_device s ops"
    and "count_list ops Checkpoint < 2 ^ 32 - 1"
  shows "\<exists>t. era_run ops s = Some t \<and> covered (ranges_since t since) =
    {b. b < unat dsize \<and> written_after (unat gr) ops (unat since) (b div unat gr)}"
proof -
  note new = era_new_ok [OF assms(1)]
  then have wf: "era_wf s" by blast
  from era_run_exact [OF wf _ _ assms(2,3)] new
  obtain t where t: "era_run ops s = Some t" "same_shape s t"
    and ex: "\<And>k since. k < length (eras s) \<Longrightarrow>
        since < unat (eras t ! k) \<longleftrightarrow> written_after (gran s) ops since k"
    by blast
  have same: "granularity t = granularity s" "dev_size t = dev_size s"
    using t(2) by (simp_all add: same_shape_def)
  have "since < chunk_era t b \<longleftrightarrow> written_after (unat gr) ops (unat since) (b div unat gr)"
    if "b < unat dsize" for b
    using that new ex [OF byte_chunk_in_range [OF wf]]
    by (simp add: chunk_era_def word_less_nat_alt same)
  then have "changed_since t since =
      {b. b < unat dsize \<and> written_after (unat gr) ops (unat since) (b div unat gr)}"
    using new same by (auto simp: changed_since_def)
  then show ?thesis
    using t(1) covered_ranges_since [OF same_shape_wf [OF t(2) wf]] by auto
qed

text \<open>
  C9. The history contract: start from a fresh map, run any sequence of completed in-device
  writes and checkpoints with fewer than \<open>2 ^ 32 - 1\<close> checkpoints. No operation panics,
  and \<open>ranges_since n\<close> covers exactly the bytes of the chunks that a write of the history
  touched after its \<open>n\<close>-th checkpoint.
\<close>

theorem era_history_exact:
  assumes "era_new urandom dsize gr = Inr s" and "ops_in_device s ops"
    and "count_list ops Checkpoint < 2 ^ 32 - 1"
  shows "\<exists>t. era_run ops s = Some t \<and> covered (ranges_since t since) =
    {b. b < unat dsize \<and> written_after (unat gr) ops (unat since) (b div unat gr)}"
  by (rule era_run_covered [OF assms])

theorem era_history_exact_witness:
  "\<exists>t. era_run [MarkWrite 0 1, Checkpoint, MarkWrite 5000 4096]
      \<lparr>granularity = 4096, dev_size = 14336, generation = from_le_bytes [7, 0, 0, 0, 0, 0, 0, 0],
       current_era = 1, eras = replicate 4 0\<rparr> = Some t \<and>
    covered (ranges_since t 1) = {b. b < 14336 \<and>
      written_after 4096 [MarkWrite 0 1, Checkpoint, MarkWrite 5000 4096] 1 (b div 4096)}"
proof -
  let ?rnd = "[7, 0, 0, 0, 0, 0, 0, 0] :: u8 list"
  let ?s = "\<lparr>granularity = 4096, dev_size = 14336, generation = from_le_bytes ?rnd,
       current_era = 1, eras = replicate 4 0\<rparr> :: era_state"
  have "is_power_of_two 4096" using is_power_of_two_exp [of 12] by simp
  then have "era_new (Some ?rnd) 14336 4096 = Inr ?s"
    by (simp add: era_new_def div_ceil_def Let_def)
  from era_history_exact [OF this, of "[MarkWrite 0 1, Checkpoint, MarkWrite 5000 4096]" 1]
  show ?thesis by (simp add: ops_in_device_def in_device_def)
qed

text \<open>
  C14. \<open>mark_write\<close> of a request inside the device does not panic; it raises the era of
  every chunk the request touches to at least the current era, never lowers one, leaves
  every other chunk, the current era, the sizes and the generation as they were.
\<close>

theorem mark_write_exact:
  assumes "era_wf s" and "unat offset + unat len \<le> unat (dev_size s)"
  shows "\<exists>s'. mark_write offset len s = Some s' \<and> same_shape s s' \<and>
    current_era s' = current_era s \<and>
    (\<forall>k<length (eras s). eras s' ! k =
      (if \<exists>b\<ge>unat offset. b < unat offset + unat len \<and> b div unat (granularity s) = k
       then max (eras s ! k) (current_era s) else eras s ! k))"
proof -
  have "in_device s offset len" using assms(2) by (simp add: in_device_def)
  then obtain s' where s': "mark_write offset len s = Some s'"
    and eff: "\<And>k. k < length (eras s) \<Longrightarrow> eras s' ! k =
      (if \<exists>b\<in>req_bytes offset len. b div gran s = k
       then max (eras s ! k) (current_era s) else eras s ! k)"
    using mark_write_effect [OF assms(1)] by blast
  have "(\<exists>b\<in>req_bytes offset len. b div gran s = k) \<longleftrightarrow>
      (\<exists>b\<ge>unat offset. b < unat offset + unat len \<and> b div gran s = k)" for k
    by (auto simp: req_bytes_def)
  with s' eff mark_write_shape [OF s'] show ?thesis by simp
qed

theorem mark_write_exact_witness:
  "\<exists>s'. mark_write 4095 2 ex_era = Some s' \<and> same_shape ex_era s' \<and> eras s' ! 1 = 1"
proof -
  have "unat (4095 :: u64) + unat (2 :: u64) \<le> unat (dev_size ex_era)" by (simp add: ex_era_def)
  from mark_write_exact [OF ex_era_wf this] obtain s' where s': "mark_write 4095 2 ex_era = Some s'"
    "same_shape ex_era s'"
    and eff: "\<forall>k<length (eras ex_era). eras s' ! k =
      (if \<exists>b\<ge>unat (4095 :: u64). b < unat (4095 :: u64) + unat (2 :: u64) \<and>
          b div unat (granularity ex_era) = k
       then max (eras ex_era ! k) (current_era ex_era) else eras ex_era ! k)"
    by blast
  have "\<exists>b\<ge>unat (4095 :: u64). b < unat (4095 :: u64) + unat (2 :: u64) \<and>
      b div unat (granularity ex_era) = 1"
    by (intro exI [of _ 4096]) (simp add: ex_era_def)
  with eff have "eras s' ! 1 = 1" by (simp add: ex_era_def)
  with s' show ?thesis by blast
qed

text \<open>
  C17. The limit of the counter: the checkpoint taken in era \<open>2 ^ 32 - 1\<close> wraps the
  current era to 0, and from then until the next checkpoint a write to any chunk leaves the
  map unchanged.
\<close>

theorem checkpoint_wrap_drops_writes:
  assumes "era_wf s" and "current_era s = 0xFFFFFFFF"
    and "unat offset + unat len \<le> unat (dev_size s)"
  shows "current_era (fst (checkpoint s)) = 0 \<and>
    mark_write offset len (fst (checkpoint s)) = Some (fst (checkpoint s))"
proof -
  let ?c = "fst (checkpoint s)"
  have cur: "current_era ?c = 0" using assms(2) by simp
  have wf: "era_wf ?c" by (rule same_shape_wf [OF _ assms(1)]) simp
  have "in_device ?c offset len" using assms(3) by (simp add: in_device_def)
  then obtain t where t: "mark_write offset len ?c = Some t"
    and eff: "\<And>k. k < length (eras ?c) \<Longrightarrow> eras t ! k = eras ?c ! k"
    using mark_write_effect [OF wf] cur by (metis max_word_zero_id)
  have "eras t = eras ?c"
    using eff mark_write_shape [OF t] by (intro nth_equalityI) (simp_all add: same_shape_def)
  then have "t = ?c"
    using mark_write_shape [OF t] by (cases t; cases ?c) (simp add: same_shape_def)
  with t cur show ?thesis by simp
qed

theorem checkpoint_wrap_drops_writes_witness:
  "mark_write 0 512 (fst (checkpoint (ex_era\<lparr>current_era := 0xFFFFFFFF\<rparr>)))
     = Some (fst (checkpoint (ex_era\<lparr>current_era := 0xFFFFFFFF\<rparr>)))"
proof -
  have "era_wf (ex_era\<lparr>current_era := 0xFFFFFFFF\<rparr>)"
    by (rule same_shape_wf [OF _ ex_era_wf]) (simp add: same_shape_def ex_era_def)
  from checkpoint_wrap_drops_writes [OF this, of 0 512] show ?thesis by (simp add: ex_era_def)
qed

end
