(* ===== verification/Era_Conc.thy ===== *)
theory Era_Conc
  imports Era
begin

text \<open>
  The era map under concurrency (\<^verbatim>\<open>src/src/era.rs\<close>, \<^verbatim>\<open>docs/concurrency.md\<close>).
  Queue threads run \<open>mark_write\<close>, the control thread runs \<open>checkpoint\<close> and
  \<open>ranges_since\<close>, all on one shared \<open>EraState\<close>. A step of the system is one atomic
  operation of one thread (a load of \<open>current_era\<close>, a \<open>fetch_max\<close> or a load of one
  chunk, a \<open>fetch_add\<close>); which thread moves is not determined. Atomic operations are
  sequentially consistent here, which is stronger than the \<open>Acquire\<close>/\<open>AcqRel\<close>
  orderings of the source.
\<close>

section \<open>The code, one atomic operation at a time\<close>

datatype pc =
    Idle
  | Load nat nat
  | Stamping nat nat u32 nat
  | Returned nat nat
  | Panicked
  | Scan u32 "u32 list"
  | Scanned u32 "u32 list"

record conc =
  shared :: era_state
  threads :: "nat \<Rightarrow> pc"

text \<open>
  One operation of a running thread. \<open>Load lo hi\<close> stands before the first load of the
  loop in \<open>mark_write\<close>, \<open>Stamping lo hi e i\<close> before the \<open>fetch_max\<close> of chunk
  \<open>i\<close> or, past \<open>hi\<close>, before the second load and the comparison. \<open>Scan since vs\<close>
  is \<open>ranges_since\<close> after it has loaded the eras \<open>vs\<close> of the first chunks.
\<close>

fun thread_op :: "era_state \<Rightarrow> pc \<Rightarrow> era_state \<times> pc" where
  "thread_op s (Load lo hi) = (s, Stamping lo hi (current_era s) lo)"
| "thread_op s (Stamping lo hi e i) =
     (if i \<le> hi then (s\<lparr>eras := fetch_max i e (eras s)\<rparr>, Stamping lo hi e (Suc i))
      else if current_era s = e then (s, Returned lo hi) else (s, Load lo hi))"
| "thread_op s (Scan since vs) =
     (if length vs < length (eras s) then (s, Scan since (vs @ [eras s ! length vs]))
      else (s, Scanned since vs))"
| "thread_op s p = (s, p)"

fun running :: "pc \<Rightarrow> bool" where
  "running (Load lo hi) = True"
| "running (Stamping lo hi e i) = True"
| "running (Scan since vs) = True"
| "running p = False"

text \<open>The result a finished scan returns to its caller.\<close>

definition scan_result :: "era_state \<Rightarrow> u32 \<Rightarrow> u32 list \<Rightarrow> dirty_range list" where
  "scan_result s since vs = ranges_since (s\<lparr>eras := vs\<rparr>) since"

datatype event = CallMark nat u64 u64 | CallScan nat u32 | Step nat | Finish nat | Chk

inductive conc_step :: "event \<Rightarrow> conc \<Rightarrow> conc \<Rightarrow> bool" where
  call_mark: "threads c t = Idle \<Longrightarrow> mark_slice (shared c) offset len = Chunks lo hi \<Longrightarrow>
     conc_step (CallMark t offset len) c (c\<lparr>threads := (threads c)(t := Load lo hi)\<rparr>)"
| call_none: "threads c t = Idle \<Longrightarrow> mark_slice (shared c) offset len = NoChunks \<Longrightarrow>
     conc_step (CallMark t offset len) c c"
| call_panic: "threads c t = Idle \<Longrightarrow> mark_slice (shared c) offset len = SlicePanic \<Longrightarrow>
     conc_step (CallMark t offset len) c (c\<lparr>threads := (threads c)(t := Panicked)\<rparr>)"
| call_scan: "threads c t = Idle \<Longrightarrow>
     conc_step (CallScan t since) c (c\<lparr>threads := (threads c)(t := Scan since [])\<rparr>)"
| step: "running (threads c t) \<Longrightarrow> thread_op (shared c) (threads c t) = (s, p) \<Longrightarrow>
     conc_step (Step t) c (c\<lparr>shared := s, threads := (threads c)(t := p)\<rparr>)"
| finish: "\<not> running (threads c t) \<Longrightarrow> threads c t \<noteq> Panicked \<Longrightarrow>
     conc_step (Finish t) c (c\<lparr>threads := (threads c)(t := Idle)\<rparr>)"
| chk: "conc_step Chk c (c\<lparr>shared := fst (checkpoint (shared c))\<rparr>)"

inductive conc_path :: "event list \<Rightarrow> conc \<Rightarrow> conc \<Rightarrow> bool" where
  path_nil: "conc_path [] c c"
| path_snoc: "conc_path es c d \<Longrightarrow> conc_step ev d d' \<Longrightarrow> conc_path (es @ [ev]) c d'"

inductive_cases stepE: "conc_step (Step t) c d"
inductive_cases chkE: "conc_step Chk c d"

inductive_simps conc_path_Nil [simp]: "conc_path [] c d"

section \<open>Every step only raises eras\<close>

lemma thread_op_shape:
  "thread_op s p = (s', p') \<Longrightarrow> same_shape s s' \<and> current_era s' = current_era s"
  by (cases p) (auto simp: same_shape_def split: if_splits)

lemma thread_op_increases:
  "thread_op s p = (s', p') \<Longrightarrow> k < length (eras s) \<Longrightarrow> eras s ! k \<le> eras s' ! k"
  by (cases p) (auto simp: nth_fetch_max split: if_splits)

lemma conc_step_shape: "conc_step ev c d \<Longrightarrow> same_shape (shared c) (shared d)"
  by (induction rule: conc_step.induct) (auto dest: thread_op_shape)

lemma conc_step_increases:
  "conc_step ev c d \<Longrightarrow> k < length (eras (shared c)) \<Longrightarrow>
     eras (shared c) ! k \<le> eras (shared d) ! k"
  by (induction rule: conc_step.induct) (auto dest: thread_op_increases)

lemma conc_path_shape: "conc_path es c d \<Longrightarrow> same_shape (shared c) (shared d)"
  by (induction rule: conc_path.induct) (auto dest: conc_step_shape intro: same_shape_trans)

lemma conc_path_length: "conc_path es c d \<Longrightarrow> length (eras (shared d)) = length (eras (shared c))"
  by (drule conc_path_shape) (simp add: same_shape_def)

lemma conc_path_increases:
  "conc_path es c d \<Longrightarrow> k < length (eras (shared c)) \<Longrightarrow>
     eras (shared c) ! k \<le> eras (shared d) ! k"
proof (induction rule: conc_path.induct)
  case (path_snoc es c d ev d')
  then show ?case
    using conc_step_increases [OF path_snoc.hyps(2), of k] conc_path_length by fastforce
qed simp

text \<open>\<open>current_era\<close> counts the checkpoints, as long as it does not wrap.\<close>

definition n_chk :: "event list \<Rightarrow> nat" where
  "n_chk es = count_list es Chk"

lemma conc_step_current:
  "conc_step ev c d \<Longrightarrow>
     current_era (shared d) = current_era (shared c) + (if ev = Chk then 1 else 0)"
  by (induction rule: conc_step.induct) (auto dest: thread_op_shape)

lemma conc_path_current:
  "conc_path es c d \<Longrightarrow> unat (current_era (shared c)) + n_chk es < 2 ^ 32 \<Longrightarrow>
     unat (current_era (shared d)) = unat (current_era (shared c)) + n_chk es"
proof (induction rule: conc_path.induct)
  case (path_snoc es c d ev d')
  have ih: "unat (current_era (shared d)) = unat (current_era (shared c)) + n_chk es"
    using path_snoc.prems by (intro path_snoc.IH) (simp add: n_chk_def split: if_splits)
  show ?case
  proof (cases "ev = Chk")
    case True
    then have "unat (current_era (shared d) + 1) = Suc (unat (current_era (shared d)))"
      using ih path_snoc.prems by (subst unat_add_no_overflow) (simp_all add: n_chk_def)
    then show ?thesis
      using conc_step_current [OF path_snoc.hyps(2)] ih True by (simp add: n_chk_def)
  next
    case False
    then show ?thesis
      using conc_step_current [OF path_snoc.hyps(2)] ih by (simp add: n_chk_def)
  qed
qed (simp add: n_chk_def)

section \<open>What a stamping thread has achieved\<close>

fun pc_ok :: "era_state \<Rightarrow> pc \<Rightarrow> bool" where
  "pc_ok s (Load lo hi) = (hi < length (eras s))"
| "pc_ok s (Stamping lo hi e i) =
     (hi < length (eras s) \<and> (\<forall>k. lo \<le> k \<and> k < i \<and> k \<le> hi \<longrightarrow> e \<le> eras s ! k))"
| "pc_ok s (Scan since vs) = (length vs \<le> length (eras s))"
| "pc_ok s (Scanned since vs) = (length vs = length (eras s))"
| "pc_ok s p = True"

definition conc_inv :: "conc \<Rightarrow> bool" where
  "conc_inv c \<longleftrightarrow> era_wf (shared c) \<and> (\<forall>t. pc_ok (shared c) (threads c t))"

definition conc_init :: "conc \<Rightarrow> bool" where
  "conc_init c \<longleftrightarrow> era_wf (shared c) \<and> threads c = (\<lambda>_. Idle)"

lemma conc_init_inv: "conc_init c \<Longrightarrow> conc_inv c"
  by (simp add: conc_init_def conc_inv_def)

lemma mark_slice_bound: "mark_slice s offset len = Chunks lo hi \<Longrightarrow> hi < length (eras s)"
  by (auto simp: mark_slice_def Let_def split: if_splits)

lemma pc_ok_mono:
  assumes "pc_ok s p" and "length (eras s') = length (eras s)"
    and "\<And>k. k < length (eras s) \<Longrightarrow> eras s ! k \<le> eras s' ! k"
  shows "pc_ok s' p"
  using assms by (cases p) (auto intro: order_trans)

lemma thread_op_ok:
  assumes "pc_ok s p" and "thread_op s p = (s', p')"
  shows "pc_ok s' p'"
proof (cases p)
  case (Stamping lo hi e i)
  then show ?thesis
    using assms by (auto simp: nth_fetch_max less_Suc_eq le_max_iff_disj split: if_splits)
qed (use assms in \<open>auto split: if_splits\<close>)

lemma conc_step_inv:
  assumes "conc_step ev c d" and "conc_inv c"
  shows "conc_inv d"
proof -
  have wf: "era_wf (shared d)"
    using assms(2) same_shape_wf [OF conc_step_shape [OF assms(1)]] by (simp add: conc_inv_def)
  have old: "pc_ok (shared d) (threads c t)" for t
  proof (rule pc_ok_mono [OF _ _ conc_step_increases [OF assms(1)]])
    show "pc_ok (shared c) (threads c t)" using assms(2) by (simp add: conc_inv_def)
    show "length (eras (shared d)) = length (eras (shared c))"
      using conc_step_shape [OF assms(1)] by (simp add: same_shape_def)
  qed
  have "pc_ok (shared d) (threads d t)" for t
    using assms old
    by (induction rule: conc_step.induct)
      (auto simp: conc_inv_def dest: mark_slice_bound thread_op_ok split: if_splits)
  with wf show ?thesis by (simp add: conc_inv_def)
qed

lemma conc_path_inv: "conc_path es c d \<Longrightarrow> conc_inv c \<Longrightarrow> conc_inv d"
  by (induction rule: conc_path.induct) (auto intro: conc_step_inv)

text \<open>\<open>mark_write\<close> returns only after it saw that its era was still the current one.\<close>

lemma thread_op_returned:
  "running p \<Longrightarrow> thread_op s p = (s', Returned lo hi) \<Longrightarrow>
     \<exists>e i. p = Stamping lo hi e i \<and> hi < i \<and> current_era s = e \<and> s' = s"
  by (cases p) (simp_all split: if_splits)

text \<open>The moment \<open>mark_write\<close> returns, its chunks carry the era current at that moment.\<close>

lemma return_stamped:
  assumes "conc_inv c" and "conc_step (Step t) c d" and "threads d t = Returned lo hi"
    and "lo \<le> k" and "k \<le> hi"
  shows "current_era (shared c) \<le> eras (shared d) ! k \<and> k < length (eras (shared d))"
proof -
  obtain s p where op: "running (threads c t)" "thread_op (shared c) (threads c t) = (s, p)"
    and d: "d = c\<lparr>shared := s, threads := (threads c)(t := p)\<rparr>"
    using assms(2) by (elim stepE)
  have "p = Returned lo hi" using assms(3) d by simp
  then obtain e i where st: "threads c t = Stamping lo hi e i" "hi < i"
      "current_era (shared c) = e" "s = shared c"
    using thread_op_returned op by blast
  have "pc_ok (shared c) (threads c t)" using assms(1) by (simp add: conc_inv_def)
  with st assms(4,5) d show ?thesis by auto
qed

lemma return_lasts:
  assumes "conc_inv c" and "conc_step (Step t) c d" and "threads d t = Returned lo hi"
    and "conc_path es d d'" and "lo \<le> k" and "k \<le> hi"
  shows "current_era (shared c) \<le> eras (shared d') ! k \<and> k < length (eras (shared d'))"
  using return_stamped [OF assms(1-3,5,6)] conc_path_increases [OF assms(4)]
    conc_path_length [OF assms(4)]
  by fastforce

section \<open>What a scan sees\<close>

fun scan_above :: "u32 list \<Rightarrow> pc \<Rightarrow> bool" where
  "scan_above base (Scan since vs) = (\<forall>k<length vs. base ! k \<le> vs ! k)"
| "scan_above base (Scanned since vs) = (\<forall>k<length vs. base ! k \<le> vs ! k)"
| "scan_above base p = True"

lemma thread_op_scan_above:
  assumes "scan_above base p" and "thread_op s p = (s', p')"
    and "\<And>k. k < length (eras s) \<Longrightarrow> base ! k \<le> eras s ! k"
  shows "scan_above base p'"
  using assms by (cases p) (auto simp: nth_append less_Suc_eq split: if_splits)

lemma conc_step_scan_above:
  assumes "conc_step ev c d" and "scan_above base (threads c t)"
    and "\<And>k. k < length (eras (shared c)) \<Longrightarrow> base ! k \<le> eras (shared c) ! k"
  shows "scan_above base (threads d t)"
  using assms
  by (induction rule: conc_step.induct)
    (auto dest: thread_op_scan_above)

lemma scan_sees:
  assumes "conc_path es c d" and "threads c t = Scan since []"
  shows "scan_above (eras (shared c)) (threads d t)"
  using assms
proof (induction rule: conc_path.induct)
  case (path_nil c)
  then show ?case by simp
next
  case (path_snoc es c d ev d')
  have "eras (shared c) ! k \<le> eras (shared d) ! k" if "k < length (eras (shared d))" for k
    using conc_path_increases [OF path_snoc.hyps(1)] conc_path_length [OF path_snoc.hyps(1)] that
    by simp
  with path_snoc show ?case by (auto intro: conc_step_scan_above)
qed

lemma scan_reports:
  assumes "era_wf s" and "length vs = length (eras s)" and "b < size_of s"
    and "since < vs ! (b div gran s)"
  shows "b \<in> covered (scan_result s since vs)"
proof -
  have "era_wf (s\<lparr>eras := vs\<rparr>)"
    by (rule same_shape_wf [OF _ assms(1)]) (simp add: same_shape_def assms(2))
  then show ?thesis
    using assms(3,4)
    by (simp add: scan_result_def covered_ranges_since changed_since_def chunk_era_def)
qed

text \<open>
  A scan that starts when a chunk is already newer than its cursor reports the chunk.
\<close>

lemma scan_covers:
  assumes "conc_inv c" and "threads c t = Scan since []" and "conc_path es c d"
    and "threads d t = Scanned since' vs" and "b < size_of (shared c)"
    and "since < eras (shared c) ! (b div gran (shared c))"
  shows "b \<in> covered (scan_result (shared d) since vs)"
proof -
  have wf: "era_wf (shared c)" using assms(1) by (simp add: conc_inv_def)
  have d: "conc_inv d" by (rule conc_path_inv [OF assms(3,1)])
  then have vs: "length vs = length (eras (shared d))"
    using assms(4) by (metis conc_inv_def pc_ok.simps(4))
  have len: "length (eras (shared d)) = length (eras (shared c))" by (rule conc_path_length [OF assms(3)])
  have "b div gran (shared c) < length vs"
    using byte_chunk_in_range [OF wf assms(5)] vs len by simp
  moreover have "scan_above (eras (shared c)) (Scanned since' vs)"
    using scan_sees [OF assms(3,2)] assms(4) by simp
  ultimately have "since < vs ! (b div gran (shared c))"
    using assms(6) by (auto elim: order_less_le_trans)
  moreover have "same_shape (shared c) (shared d)" by (rule conc_path_shape [OF assms(3)])
  moreover have "era_wf (shared d)" using d by (simp add: conc_inv_def)
  ultimately show ?thesis using assms(5) vs by (intro scan_reports) (simp_all add: same_shape_def)
qed

text \<open>The chunks of a request are those of its bytes.\<close>

lemma mark_slice_shape: "same_shape s t \<Longrightarrow> mark_slice t offset len = mark_slice s offset len"
  by (simp add: mark_slice_def same_shape_def Let_def)

lemma slice_of_byte:
  assumes "era_wf s" and "in_device s offset len" and "mark_slice s offset len = Chunks lo hi"
    and "b \<in> req_bytes offset len"
  shows "lo \<le> b div gran s" and "b div gran s \<le> hi" and "b < size_of s"
proof -
  have len: "len \<noteq> 0" using assms(4) by (auto simp: req_bytes_def)
  have g: "0 < gran s" using gran_pos [OF assms(1)] by linarith
  have "lo = unat offset div gran s" "hi = (unat offset + unat len - 1) div gran s"
    using mark_slice_in_range [OF assms(1) len assms(2)] assms(3) by simp_all
  then show "lo \<le> b div gran s" "b div gran s \<le> hi"
    using chunks_of_bytes [OF g, of "unat len" "unat offset" "b div gran s"] assms(4) len
    unfolding req_bytes_def by (auto simp: unat_gt_0)
  show "b < size_of s" using assms(2,4) by (auto simp: in_device_def req_bytes_def)
qed

lemma current_era_later:
  assumes "conc_path es c d" and "unat (current_era (shared c)) + n_chk es < 2 ^ 32"
  shows "current_era (shared c) \<le> current_era (shared d)"
  using conc_path_current [OF assms] by (simp add: word_le_nat_alt)

lemma checkpoint_newer:
  assumes "conc_step Chk c d" and "unat (current_era (shared c)) + 1 < 2 ^ 32"
    and "since \<le> current_era (shared c)"
  shows "since < current_era (shared d)"
  using conc_step_current [OF assms(1)] assms(2,3)
  by (simp add: word_less_nat_alt word_le_nat_alt unat_add_no_overflow)

section \<open>A thread left alone\<close>

abbreviation op_step :: "era_state \<times> pc \<Rightarrow> era_state \<times> pc" where
  "op_step \<equiv> (\<lambda>(s, p). thread_op s p)"

lemma alone_stamps:
  "lo + j \<le> Suc hi \<Longrightarrow>
     (op_step ^^ j) (s, Stamping lo hi e lo) =
       (s\<lparr>eras := fold (\<lambda>i. fetch_max i e) [lo..<lo + j] (eras s)\<rparr>, Stamping lo hi e (lo + j))"
  by (induction j) simp_all

lemma alone_returns:
  assumes "lo \<le> Suc hi"
  shows "(op_step ^^ (Suc hi - lo + 2)) (s, Load lo hi) =
    (s\<lparr>eras := stamp lo hi (current_era s) (eras s)\<rparr>, Returned lo hi)"
proof -
  let ?n = "Suc hi - lo" and ?e = "current_era s"
  have "(op_step ^^ (?n + 2)) (s, Load lo hi)
      = op_step ((op_step ^^ ?n) (op_step (s, Load lo hi)))"
    by (simp add: funpow_swap1)
  also have "(op_step ^^ ?n) (op_step (s, Load lo hi))
      = (s\<lparr>eras := fold (\<lambda>i. fetch_max i ?e) [lo..<lo + ?n] (eras s)\<rparr>, Stamping lo hi ?e (lo + ?n))"
    using assms by (simp add: alone_stamps)
  also have "lo + ?n = Suc hi" using assms by simp
  finally show ?thesis by (simp add: stamp_def)
qed

section \<open>Properties\<close>

text \<open>
  For the witnesses: a device of one chunk, thread 0 writing and thread 1 scanning.
\<close>

definition ex_sys :: "u32 \<Rightarrow> u32 \<Rightarrow> pc \<Rightarrow> pc \<Rightarrow> conc" where
  "ex_sys cur e p q = \<lparr>shared = \<lparr>granularity = 4096, dev_size = 4096, generation = 7,
     current_era = cur, eras = [e]\<rparr>, threads = (\<lambda>_. Idle)(0 := p, 1 := q)\<rparr>"

lemma ex_sys_init: "conc_init (ex_sys cur e Idle Idle)"
proof -
  have "is_power_of_two 4096" using is_power_of_two_exp [of 12] by simp
  then show ?thesis by (auto simp: conc_init_def ex_sys_def era_wf_def div_ceil_def)
qed

lemma ex_sys_chk: "conc_step Chk (ex_sys cur e p q) (ex_sys (cur + 1) e p q)"
  using conc_step.chk [of "ex_sys cur e p q"] by (simp add: ex_sys_def checkpoint_def)

lemma ex_sys_call: "conc_step (CallMark 0 0 512) (ex_sys cur e Idle q) (ex_sys cur e (Load 0 0) q)"
  using conc_step.call_mark [of "ex_sys cur e Idle q" 0 0 512 0 0]
  by (simp add: ex_sys_def mark_slice_def fun_upd_twist)

lemma ex_sys_step0:
  "running p \<Longrightarrow> thread_op (shared (ex_sys cur e p q)) p = (shared (ex_sys cur e' p' q), p') \<Longrightarrow>
     conc_step (Step 0) (ex_sys cur e p q) (ex_sys cur e' p' q)"
  using conc_step.step [of "ex_sys cur e p q" 0 "shared (ex_sys cur e' p' q)" p']
  by (simp add: ex_sys_def fun_upd_twist)

lemma ex_sys_scan: "conc_step (CallScan 1 since) (ex_sys cur e p Idle) (ex_sys cur e p (Scan since []))"
  using conc_step.call_scan [of "ex_sys cur e p Idle" 1 since] by (simp add: ex_sys_def)

lemma ex_sys_step1:
  "running q \<Longrightarrow> thread_op (shared (ex_sys cur e p q)) q = (shared (ex_sys cur e p q'), q') \<Longrightarrow>
     conc_step (Step 1) (ex_sys cur e p q) (ex_sys cur e p q')"
  using conc_step.step [of "ex_sys cur e p q" 1 "shared (ex_sys cur e p q')" q']
  by (simp add: ex_sys_def)

lemma ex_sys_stamped:
  "conc_path [CallMark 0 0 512, Step 0, Step 0] (ex_sys 2 0 Idle Idle)
     (ex_sys 2 2 (Stamping 0 0 2 1) Idle)"
proof -
  have "conc_path [CallMark 0 0 512] (ex_sys 2 0 Idle Idle) (ex_sys 2 0 (Load 0 0) Idle)"
    using path_snoc [OF path_nil ex_sys_call] by simp
  moreover have "conc_step (Step 0) (ex_sys 2 0 (Load 0 0) Idle) (ex_sys 2 0 (Stamping 0 0 2 0) Idle)"
    by (rule ex_sys_step0) (simp_all add: ex_sys_def)
  ultimately have "conc_path [CallMark 0 0 512, Step 0] (ex_sys 2 0 Idle Idle)
      (ex_sys 2 0 (Stamping 0 0 2 0) Idle)"
    using path_snoc by fastforce
  moreover have "conc_step (Step 0) (ex_sys 2 0 (Stamping 0 0 2 0) Idle)
      (ex_sys 2 2 (Stamping 0 0 2 1) Idle)"
    by (rule ex_sys_step0) (simp_all add: ex_sys_def fetch_max_def)
  ultimately show ?thesis using path_snoc by fastforce
qed

lemma ex_sys_return:
  "conc_step (Step 0) (ex_sys 2 2 (Stamping 0 0 2 1) Idle) (ex_sys 2 2 (Returned 0 0) Idle)"
  by (rule ex_sys_step0) (simp_all add: ex_sys_def)

lemma ex_sys_scanned:
  "conc_path [Step 1, Step 1] (ex_sys 2 2 p (Scan 1 [])) (ex_sys 2 2 p (Scanned 1 [2]))"
proof -
  have "conc_step (Step 1) (ex_sys 2 2 p (Scan 1 [])) (ex_sys 2 2 p (Scan 1 [2]))"
    by (rule ex_sys_step1) (simp_all add: ex_sys_def)
  then have "conc_path [Step 1] (ex_sys 2 2 p (Scan 1 [])) (ex_sys 2 2 p (Scan 1 [2]))"
    using path_snoc [OF path_nil] by fastforce
  moreover have "conc_step (Step 1) (ex_sys 2 2 p (Scan 1 [2])) (ex_sys 2 2 p (Scanned 1 [2]))"
    by (rule ex_sys_step1) (simp_all add: ex_sys_def)
  ultimately show ?thesis using path_snoc by fastforce
qed

text \<open>
  C2. No write is lost, whatever the interleaving. Take a checkpoint that closes era
  \<open>N\<close> (\<open>current_era\<close> of \<open>c\<close>), a \<open>mark_write\<close> that returns at any time after it,
  and a \<open>ranges_since\<close> scan with a cursor \<open>since \<le> N\<close> that starts after that return;
  between these events any number of other threads run in any order. The finished scan
  reports every byte of the write.
\<close>

theorem no_write_lost:
  assumes "conc_init c0" and "conc_path es0 c0 c" and "conc_step Chk c c'"
    and "conc_path es1 c' c1" and "conc_step (Step t) c1 c2" and "threads c2 t = Returned lo hi"
    and "conc_path es2 c2 c3" and "threads c3 d = Scan since []"
    and "conc_path es3 c3 c4" and "threads c4 d = Scanned since' vs"
    and "since \<le> current_era (shared c)"
    and "unat (current_era (shared c)) + 1 + n_chk es1 < 2 ^ 32"
    and "mark_slice (shared c2) offset len = Chunks lo hi" and "in_device (shared c2) offset len"
    and "b \<in> req_bytes offset len"
  shows "b \<in> covered (scan_result (shared c4) since vs)"
proof -
  have c': "conc_inv c'"
    using assms(1-3) conc_init_inv conc_path_inv conc_step_inv by blast
  then have c1: "conc_inv c1" using assms(4) by (rule conc_path_inv [rotated])
  then have c2: "conc_inv c2" by (rule conc_step_inv [OF assms(5)])
  then have c3: "conc_inv c3" by (rule conc_path_inv [OF assms(7)])
  have cur': "unat (current_era (shared c')) = unat (current_era (shared c)) + 1"
    using conc_step_current [OF assms(3)] assms(12) by (simp add: unat_add_no_overflow)
  have "since < current_era (shared c')"
    by (rule checkpoint_newer [OF assms(3) _ assms(11)]) (use assms(12) in simp)
  also have "\<dots> \<le> current_era (shared c1)"
    by (rule current_era_later [OF assms(4)]) (use cur' assms(12) in simp)
  finally have later: "since < current_era (shared c1)" .
  have wf2: "era_wf (shared c2)" using c2 by (simp add: conc_inv_def)
  note k = slice_of_byte [OF wf2 assms(14,13,15)]
  have same: "same_shape (shared c2) (shared c3)" by (rule conc_path_shape [OF assms(7)])
  have "current_era (shared c1) \<le> eras (shared c3) ! (b div gran (shared c2))"
    using return_lasts [OF c1 assms(5,6,7) k(1,2)] by simp
  with later have "since < eras (shared c3) ! (b div gran (shared c3))"
    using same by (simp add: same_shape_def)
  moreover have "b < size_of (shared c3)" using k(3) same by (simp add: same_shape_def)
  ultimately show ?thesis by (intro scan_covers [OF c3 assms(8-10)])
qed

theorem no_write_lost_witness:
  "100 \<in> covered (scan_result (shared (ex_sys 2 2 (Returned 0 0) (Scanned 1 [2]))) 1 [2])"
proof (rule no_write_lost)
  show "conc_init (ex_sys 1 0 Idle Idle)" by (rule ex_sys_init)
  show "conc_path [] (ex_sys 1 0 Idle Idle) (ex_sys 1 0 Idle Idle)" by simp
  show "conc_step Chk (ex_sys 1 0 Idle Idle) (ex_sys 2 0 Idle Idle)"
    using ex_sys_chk [of 1] by simp
  show "conc_path [CallScan 1 1] (ex_sys 2 2 (Returned 0 0) Idle) (ex_sys 2 2 (Returned 0 0) (Scan 1 []))"
    using path_snoc [OF path_nil ex_sys_scan] by simp
  show "threads (ex_sys 2 2 (Returned 0 0) Idle) 0 = Returned 0 0"
    "threads (ex_sys 2 2 (Returned 0 0) (Scan 1 [])) 1 = Scan 1 []"
    "threads (ex_sys 2 2 (Returned 0 0) (Scanned 1 [2])) 1 = Scanned 1 [2]"
    by (simp_all add: ex_sys_def)
  show "mark_slice (shared (ex_sys 2 2 (Returned 0 0) Idle)) 0 512 = Chunks 0 0"
    by (simp add: ex_sys_def mark_slice_def)
qed (rule ex_sys_stamped ex_sys_return ex_sys_scanned
    | simp add: ex_sys_def n_chk_def in_device_def req_bytes_def)+

text \<open>
  The guarantee of \<open>mark_write\<close> when it returns: every chunk of the request then carries
  an era at least as new as the era current at that moment, hence newer than every era a
  checkpoint closed before, and it keeps one through every later step of every thread.
\<close>

theorem mark_write_return_guarantee:
  assumes "conc_init c0" and "conc_path es0 c0 c1" and "conc_step (Step t) c1 c2"
    and "threads c2 t = Returned lo hi" and "conc_path es2 c2 c3"
    and "lo \<le> k" and "k \<le> hi"
  shows "current_era (shared c1) \<le> eras (shared c3) ! k"
  using return_lasts [OF conc_path_inv [OF assms(2) conc_init_inv [OF assms(1)]] assms(3-7)]
  by blast

theorem mark_write_return_guarantee_witness:
  "current_era (shared (ex_sys 2 2 (Stamping 0 0 2 1) Idle))
     \<le> eras (shared (ex_sys 3 2 (Returned 0 0) Idle)) ! 0"
proof (rule mark_write_return_guarantee)
  show "conc_init (ex_sys 2 0 Idle Idle)" by (rule ex_sys_init)
  show "threads (ex_sys 2 2 (Returned 0 0) Idle) 0 = Returned 0 0" by (simp add: ex_sys_def)
  show "conc_path [Chk] (ex_sys 2 2 (Returned 0 0) Idle) (ex_sys 3 2 (Returned 0 0) Idle)"
    using path_snoc [OF path_nil ex_sys_chk [of 2]] by simp
qed (rule ex_sys_stamped ex_sys_return | simp)+

text \<open>
  C15. The retry loop of \<open>mark_write\<close> terminates when the thread is left alone: after one
  load, one \<open>fetch_max\<close> per chunk and the second load it returns, and the map is the one the
  sequential \<open>mark_write\<close> computes.
\<close>

theorem mark_write_alone_terminates:
  assumes "mark_slice s offset len = Chunks lo hi"
  shows "\<exists>s'. mark_write offset len s = Some s' \<and>
    ((\<lambda>(s, p). thread_op s p) ^^ (Suc hi - lo + 2)) (s, Load lo hi) = (s', Returned lo hi)"
proof -
  have "lo \<le> Suc hi" using assms by (auto simp: mark_slice_def Let_def split: if_splits)
  from alone_returns [OF this, of s] assms show ?thesis by (auto simp: mark_write_def)
qed

theorem mark_write_alone_terminates_witness:
  "\<exists>s'. mark_write 0 5000 ex_era = Some s' \<and>
    ((\<lambda>(s, p). thread_op s p) ^^ (Suc 1 - 0 + 2)) (ex_era, Load 0 1) = (s', Returned 0 1)"
proof -
  have "mark_slice ex_era 0 5000 = Chunks 0 1" by (simp add: mark_slice_def ex_era_def)
  from mark_write_alone_terminates [OF this] show ?thesis .
qed

end
