(* ===== verification/Era_Race.thy ===== *)
theory Era_Race
  imports Era_Conc
begin

text \<open>
  The concurrent test of \<^verbatim>\<open>src/src/era.rs\<close>, \<open>no_write_lost_across_concurrent_checkpoints\<close>: a writer
  thread marks every chunk once while a checker thread takes checkpoints back to back and collects the
  diff after each. The two threads are interleaved atomic by atomic on the map of \<open>Era_Conc\<close>, and the
  assertion of the test is proved for every schedule, every number of chunks and every granularity.
\<close>

section \<open>The test\<close>

text \<open>
  Where the checker is: before a checkpoint, before and in the scan for the diff up to the era just closed,
  before the load of \<open>done\<close>, in the last sweep, and at the end. The writer is thread 0 of the map, the
  checker thread 1; \<open>wnext\<close> is the chunk of the writer's loop, \<open>chunks_seen\<close> the set \<open>covered\<close>.
\<close>

datatype checker = KLoop | KCall u32 | KDiff u32 | KCheck | KSweep | KEnd

record race =
  rsys :: conc
  wnext :: nat
  rdone :: bool
  checker :: checker
  prev :: u32
  chunks_seen :: "nat set"

text \<open>\<open>accumulate\<close>: the chunks of the ranges of a diff.\<close>

definition accumulate :: "u64 \<Rightarrow> dirty_range list \<Rightarrow> nat set \<Rightarrow> nat set" where
  "accumulate g rs seen = fold (\<lambda>r seen. seen \<union>
     {unat (dr_offset r div g)..<unat ((dr_offset r + dr_len r) div g)}) rs seen"

datatype race_event =
    WMark | WAtomic | WNext | WDone | KCheckpoint | KScan | KAtomic | KDiffed | KAgain | KLast | KSwept

inductive race_step :: "nat \<Rightarrow> race_event \<Rightarrow> race \<Rightarrow> race \<Rightarrow> bool" for N where
  w_mark: "wnext s < N \<Longrightarrow>
    conc_step (CallMark 0 (of_nat (wnext s) * granularity (shared (rsys s))) 1) (rsys s) c \<Longrightarrow>
    race_step N WMark s (s\<lparr>rsys := c\<rparr>)"
| w_atomic: "conc_step (Step 0) (rsys s) c \<Longrightarrow> race_step N WAtomic s (s\<lparr>rsys := c\<rparr>)"
| w_next: "threads (rsys s) 0 = Returned lo hi \<Longrightarrow> conc_step (Finish 0) (rsys s) c \<Longrightarrow>
    race_step N WNext s (s\<lparr>rsys := c, wnext := wnext s + 1\<rparr>)"
| w_done: "wnext s = N \<Longrightarrow> threads (rsys s) 0 = Idle \<Longrightarrow> race_step N WDone s (s\<lparr>rdone := True\<rparr>)"
| k_checkpoint: "checker s = KLoop \<Longrightarrow> conc_step Chk (rsys s) c \<Longrightarrow>
    race_step N KCheckpoint s (s\<lparr>rsys := c, checker := KCall (current_era (shared (rsys s)))\<rparr>)"
| k_scan: "checker s = KCall closed \<Longrightarrow> conc_step (CallScan 1 (prev s)) (rsys s) c \<Longrightarrow>
    race_step N KScan s (s\<lparr>rsys := c, checker := KDiff closed\<rparr>)"
| k_atomic: "conc_step (Step 1) (rsys s) c \<Longrightarrow> race_step N KAtomic s (s\<lparr>rsys := c\<rparr>)"
| k_diffed: "checker s = KDiff closed \<Longrightarrow> threads (rsys s) 1 = Scanned since vs \<Longrightarrow>
    conc_step (Finish 1) (rsys s) c \<Longrightarrow>
    race_step N KDiffed s (s\<lparr>rsys := c, prev := closed, checker := KCheck,
      chunks_seen := accumulate (granularity (shared c)) (scan_result (shared c) since vs) (chunks_seen s)\<rparr>)"
| k_again: "checker s = KCheck \<Longrightarrow> \<not> rdone s \<Longrightarrow> race_step N KAgain s (s\<lparr>checker := KLoop\<rparr>)"
| k_last: "checker s = KCheck \<Longrightarrow> rdone s \<Longrightarrow> conc_step (CallScan 1 (prev s)) (rsys s) c \<Longrightarrow>
    race_step N KLast s (s\<lparr>rsys := c, checker := KSweep\<rparr>)"
| k_swept: "checker s = KSweep \<Longrightarrow> threads (rsys s) 1 = Scanned since vs \<Longrightarrow>
    conc_step (Finish 1) (rsys s) c \<Longrightarrow>
    race_step N KSwept s (s\<lparr>rsys := c, checker := KEnd,
      chunks_seen := accumulate (granularity (shared c)) (scan_result (shared c) since vs) (chunks_seen s)\<rparr>)"

inductive race_path :: "nat \<Rightarrow> race_event list \<Rightarrow> race \<Rightarrow> race \<Rightarrow> bool" for N where
  race_nil: "race_path N [] s s"
| race_snoc: "race_path N evs s t \<Longrightarrow> race_step N ev t u \<Longrightarrow> race_path N (evs @ [ev]) s u"

definition race_start :: "era_state \<Rightarrow> race" where
  "race_start s = \<lparr>rsys = \<lparr>shared = s, threads = (\<lambda>_. Idle)\<rparr>, wnext = 0, rdone = False, checker = KLoop,
     prev = 0, chunks_seen = {}\<rparr>"

text \<open>The assertions after both threads have been joined.\<close>

definition race_passes :: "nat \<Rightarrow> race \<Rightarrow> bool" where
  "race_passes N t \<longleftrightarrow> list_all (\<lambda>i. i \<in> chunks_seen t) [0..<N]"

section \<open>A diff holds the chunks newer than its cursor\<close>

lemma accumulate_iff:
  "k \<in> accumulate g rs seen \<longleftrightarrow> k \<in> seen \<or>
     (\<exists>r\<in>set rs. unat (dr_offset r div g) \<le> k \<and> k < unat ((dr_offset r + dr_len r) div g))"
  by (induction rs arbitrary: seen) (auto simp: accumulate_def)

lemma diff_holds:
  assumes "era_wf s" and "size_of s = N * gran s" and "length vs = length (eras s)"
    and "k < N" and "since < vs ! k"
  shows "k \<in> accumulate (granularity s) (scan_result s since vs) seen"
proof -
  let ?s = "s\<lparr>eras := vs\<rparr>" and ?g = "gran s"
  have g: "0 < ?g" using gran_pos [OF assms(1)] by simp
  have wf: "era_wf ?s" by (rule same_shape_wf [OF _ assms(1)]) (simp add: same_shape_def assms(3))
  have "k * ?g < size_of s" using assms(2,4) g by simp
  then have "k * ?g \<in> covered (scan_result s since vs)"
    using scan_reports [OF assms(1,3)] assms(5) g by simp
  then obtain r where r: "r \<in> set (scan_result s since vs)" "unat (dr_offset r) \<le> k * ?g" "k * ?g < range_end r"
    by (auto simp: covered_def range_bytes_def)
  from ranges_since_upto [OF wf, of since] r(1) have e: "?g dvd range_end r \<or> range_end r = size_of s"
      "range_end r \<le> size_of s"
    unfolding ranges_upto_def scan_result_def by auto
  then obtain m where m: "range_end r = ?g * m" using assms(2) by (metis dvdE mult.commute)
  then have "k < m" using r(3) g by (simp add: mult.commute)
  moreover have "unat (dr_offset r) div ?g \<le> k" using r(2) g by (metis div_le_mono nonzero_mult_div_cancel_right less_numeral_extra(3))
  ultimately show ?thesis
    using r(1) m g range_end_word [OF e(2)] by (auto simp: accumulate_iff unat_div_distrib)
qed

section \<open>The invariant\<close>

text \<open>Where the two threads are, and which eras the checker has closed.\<close>

definition race_writer_ok :: "nat \<Rightarrow> nat \<Rightarrow> pc \<Rightarrow> bool" where
  "race_writer_ok N k p \<longleftrightarrow> k \<le> N \<and> (p = Idle \<or> k < N \<and>
     (p = Load k k \<or> (\<exists>e i. p = Stamping k k e i) \<or> p = Returned k k))"

fun checker_ok :: "u32 \<Rightarrow> u32 \<Rightarrow> checker \<Rightarrow> pc \<Rightarrow> bool" where
  "checker_ok cur prv (KCall closed) p \<longleftrightarrow> p = Idle \<and> prv \<le> closed \<and> closed < cur"
| "checker_ok cur prv (KDiff closed) p \<longleftrightarrow> (\<exists>vs. p = Scan prv vs \<or> p = Scanned prv vs) \<and> prv \<le> closed \<and> closed < cur"
| "checker_ok cur prv KSweep p \<longleftrightarrow> (\<exists>vs. p = Scan prv vs \<or> p = Scanned prv vs)"
| "checker_ok cur prv _ p \<longleftrightarrow> p = Idle"

text \<open>A chunk whose \<open>mark_write\<close> has returned, and that a scan under way or to come reports.\<close>

definition marked :: "nat \<Rightarrow> pc \<Rightarrow> nat \<Rightarrow> bool" where
  "marked k p i \<longleftrightarrow> i < k \<or> i = k \<and> p = Returned k k"

fun loaded :: "pc \<Rightarrow> u32 list" where
  "loaded (Scan since vs) = vs"
| "loaded (Scanned since vs) = vs"
| "loaded p = []"

definition scan_will :: "u32 \<Rightarrow> u32 list \<Rightarrow> pc \<Rightarrow> nat \<Rightarrow> bool" where
  "scan_will prv es p i \<longleftrightarrow> prv < (if i < length (loaded p) then loaded p ! i else es ! i)"

fun pending :: "u32 \<Rightarrow> u32 list \<Rightarrow> checker \<Rightarrow> pc \<Rightarrow> nat \<Rightarrow> bool" where
  "pending prv es (KDiff closed) p i \<longleftrightarrow> closed < es ! i \<or> scan_will prv es p i"
| "pending prv es KSweep p i \<longleftrightarrow> scan_will prv es p i"
| "pending prv es KEnd p i \<longleftrightarrow> False"
| "pending prv es _ p i \<longleftrightarrow> prv < es ! i"

definition race_shape :: "nat \<Rightarrow> race \<Rightarrow> bool" where
  "race_shape N s \<longleftrightarrow> conc_inv (rsys s) \<and> size_of (shared (rsys s)) = N * gran (shared (rsys s)) \<and>
     length (eras (shared (rsys s))) = N"

definition race_inv :: "nat \<Rightarrow> race \<Rightarrow> bool" where
  "race_inv N s \<longleftrightarrow> race_shape N s \<and> race_writer_ok N (wnext s) (threads (rsys s) 0) \<and>
     checker_ok (current_era (shared (rsys s))) (prev s) (checker s) (threads (rsys s) 1) \<and>
     prev s < current_era (shared (rsys s)) \<and>
     (rdone s \<longrightarrow> wnext s = N \<and> threads (rsys s) 0 = Idle) \<and>
     (checker s = KSweep \<or> checker s = KEnd \<longrightarrow> rdone s) \<and>
     (\<forall>i<N. marked (wnext s) (threads (rsys s) 0) i \<longrightarrow> i \<in> chunks_seen s \<or>
        pending (prev s) (eras (shared (rsys s))) (checker s) (threads (rsys s) 1) i)"

text \<open>Stamping keeps a chunk pending, and a scan keeps what it has still to load.\<close>

lemma pending_mono:
  assumes "pending prv es k p i" and "es ! i \<le> es' ! i"
  shows "pending prv es' k p i"
  using assms by (cases k) (auto simp: scan_will_def intro: order_less_le_trans split: if_splits)

lemma pending_scan:
  assumes "pending prv (eras s) k p i" and "thread_op s p = (s', p')" and "\<exists>vs. p = Scan prv vs"
  shows "pending prv (eras s) k p' i"
  using assms by (cases k) (auto simp: scan_will_def nth_append less_Suc_eq split: if_splits)

lemma race_shape_step:
  assumes "race_shape N s" and "conc_step ev (rsys s) c"
  shows "race_shape N (s\<lparr>rsys := c\<rparr>)"
  using assms(1) conc_step_inv [OF assms(2)] conc_step_shape [OF assms(2)]
  by (simp add: race_shape_def same_shape_def)

lemma race_shape_only: "race_shape N t = race_shape N s" if "rsys t = rsys s"
  using that by (simp add: race_shape_def)

section \<open>Every step keeps it\<close>

inductive_cases call_markE: "conc_step (CallMark t off len) c d"
inductive_cases call_scanE: "conc_step (CallScan t since) c d"
inductive_cases finishE: "conc_step (Finish t) c d"

lemma chunk_slice_one:
  assumes "race_shape N s" and "k < N"
  shows "mark_slice (shared (rsys s)) (of_nat k * granularity (shared (rsys s))) 1 = Chunks k k"
proof -
  let ?s = "shared (rsys s)"
  have wf: "era_wf ?s" and k: "k < length (eras ?s)" and sz: "size_of ?s = N * gran ?s"
    using assms by (simp_all add: race_shape_def conc_inv_def)
  have g: "0 < gran ?s" using gran_pos [OF wf] by simp
  have off: "unat (of_nat k * granularity ?s) = k * gran ?s" by (rule chunk_span [OF wf k])
  have "k * gran ?s + 1 \<le> Suc k * gran ?s" using g by simp
  also have "\<dots> \<le> N * gran ?s" using assms(2) by (intro mult_le_mono1) simp
  finally have "in_device ?s (of_nat k * granularity ?s) 1" by (simp add: in_device_def off sz)
  from mark_slice_in_range [OF wf _ this] show ?thesis using g by (simp add: off)
qed

lemma inv_mark:
  assumes "race_inv N s" and "wnext s < N"
    and "conc_step (CallMark 0 (of_nat (wnext s) * granularity (shared (rsys s))) 1) (rsys s) c"
  shows "race_inv N (s\<lparr>rsys := c\<rparr>)"
proof -
  have sh: "race_shape N s" using assms(1) by (simp add: race_inv_def)
  from assms(3) chunk_slice_one [OF sh assms(2)] have c: "threads (rsys s) 0 = Idle"
      "c = (rsys s)\<lparr>threads := (threads (rsys s))(0 := Load (wnext s) (wnext s))\<rparr>"
    by (auto elim: call_markE)
  show ?thesis using assms(1,2) race_shape_step [OF sh assms(3)] c
    by (auto simp: race_inv_def race_writer_ok_def marked_def)
qed

text \<open>An atomic of the writer: eras only grow, and when it returns its chunk carries the current era.\<close>

lemma writer_moves:
  assumes "race_writer_ok N k p" and "running p" and "thread_op s p = (s', p')"
  shows "race_writer_ok N k p' \<and> k < N"
  using assms by (auto simp: race_writer_ok_def split: if_splits)

lemma inv_writer:
  assumes "race_inv N s" and "conc_step (Step 0) (rsys s) c"
  shows "race_inv N (s\<lparr>rsys := c\<rparr>)"
proof -
  have sh: "race_shape N s" and w: "race_writer_ok N (wnext s) (threads (rsys s) 0)"
    and ck: "checker_ok (current_era (shared (rsys s))) (prev s) (checker s) (threads (rsys s) 1)"
    using assms(1) by (simp_all add: race_inv_def)
  obtain s' p where op: "running (threads (rsys s) 0)" "thread_op (shared (rsys s)) (threads (rsys s) 0) = (s', p)"
    and c: "c = (rsys s)\<lparr>shared := s', threads := (threads (rsys s))(0 := p)\<rparr>"
    using assms(2) by (elim stepE)
  have p: "race_writer_ok N (wnext s) p" "wnext s < N" using writer_moves [OF w op] by simp_all
  have nd: "\<not> rdone s" using op(1) assms(1) by (auto simp: race_inv_def)
  then have nk: "checker s \<noteq> KSweep" "checker s \<noteq> KEnd" using assms(1) by (auto simp: race_inv_def)
  have cur: "current_era s' = current_era (shared (rsys s))" using thread_op_shape [OF op(2)] by simp
  have "i \<in> chunks_seen s \<or> pending (prev s) (eras s') (checker s) (threads (rsys s) 1) i"
    if i: "i < N" "marked (wnext s) p i" for i
  proof (cases "marked (wnext s) (threads (rsys s) 0) i")
    case True
    have "i < length (eras (shared (rsys s)))" using sh i(1) by (simp add: race_shape_def)
    from pending_mono [OF _ thread_op_increases [OF op(2) this]] True assms(1) i(1)
    show ?thesis by (auto simp: race_inv_def)
  next
    case False
    then have ret: "p = Returned (wnext s) (wnext s)" "i = wnext s" using i(2) by (auto simp: marked_def)
    then have "current_era (shared (rsys s)) \<le> eras s' ! i"
      using return_stamped [OF _ assms(2), of "wnext s" "wnext s" i] sh c by (simp add: race_shape_def)
    moreover have "prev s < current_era (shared (rsys s))" using assms(1) by (simp add: race_inv_def)
    ultimately show ?thesis using ck nk by (cases "checker s") (auto intro: order_less_le_trans)
  qed
  then show ?thesis using assms(1) race_shape_step [OF sh assms(2)] c p cur nd
    by (simp add: race_inv_def)
qed

lemma inv_next:
  assumes "race_inv N s" and "threads (rsys s) 0 = Returned lo hi" and "conc_step (Finish 0) (rsys s) c"
  shows "race_inv N (s\<lparr>rsys := c, wnext := wnext s + 1\<rparr>)"
proof -
  have sh: "race_shape N s" and w: "race_writer_ok N (wnext s) (threads (rsys s) 0)"
    using assms(1) by (simp_all add: race_inv_def)
  then have "wnext s < N" "threads (rsys s) 0 = Returned (wnext s) (wnext s)" using assms(2) by (auto simp: race_writer_ok_def)
  moreover have c: "c = (rsys s)\<lparr>threads := (threads (rsys s))(0 := Idle)\<rparr>" using assms(3) by (elim finishE)
  moreover have "race_shape N (s\<lparr>rsys := c, wnext := wnext s + 1\<rparr>)"
    using race_shape_step [OF sh assms(3)] by (simp add: race_shape_def)
  ultimately show ?thesis using assms(1) by (auto simp: race_inv_def race_writer_ok_def marked_def less_Suc_eq)
qed

lemma inv_done:
  "race_inv N s \<Longrightarrow> wnext s = N \<Longrightarrow> threads (rsys s) 0 = Idle \<Longrightarrow> race_inv N (s\<lparr>rdone := True\<rparr>)"
  by (simp add: race_inv_def race_shape_def)

lemma inv_checkpoint:
  assumes "race_inv N s" and "checker s = KLoop" and "conc_step Chk (rsys s) c"
    and "unat (current_era (shared (rsys s))) + 1 < 2 ^ 32"
  shows "race_inv N (s\<lparr>rsys := c, checker := KCall (current_era (shared (rsys s)))\<rparr>)"
proof -
  have sh: "race_shape N s" and pr: "prev s < current_era (shared (rsys s))" using assms(1) by (simp_all add: race_inv_def)
  have "current_era (shared (rsys s)) < current_era (shared c)" by (rule checkpoint_newer [OF assms(3,4)]) simp
  moreover have "c = (rsys s)\<lparr>shared := fst (checkpoint (shared (rsys s)))\<rparr>" using assms(3) by (elim chkE)
  moreover have "race_shape N (s\<lparr>rsys := c, checker := KCall (current_era (shared (rsys s)))\<rparr>)"
    using race_shape_step [OF sh assms(3)] by (simp add: race_shape_def)
  ultimately show ?thesis using assms(1,2) pr by (auto simp: race_inv_def)
qed

lemma inv_scan:
  assumes "race_inv N s" and "conc_step (CallScan 1 (prev s)) (rsys s) c"
    and "checker s = KCall closed \<and> k = KDiff closed \<or> checker s = KCheck \<and> rdone s \<and> k = KSweep"
  shows "race_inv N (s\<lparr>rsys := c, checker := k\<rparr>)"
proof -
  have sh: "race_shape N s" using assms(1) by (simp add: race_inv_def)
  have "c = (rsys s)\<lparr>threads := (threads (rsys s))(1 := Scan (prev s) [])\<rparr>" using assms(2) by (elim call_scanE)
  moreover have "race_shape N (s\<lparr>rsys := c, checker := k\<rparr>)"
    using race_shape_step [OF sh assms(2)] by (simp add: race_shape_def)
  ultimately show ?thesis using assms(1,3) by (auto simp: race_inv_def scan_will_def)
qed

lemma checker_scans:
  assumes "checker_ok cur prv k p" and "running p"
  shows "\<exists>vs. p = Scan prv vs" and "(\<exists>closed. k = KDiff closed) \<or> k = KSweep"
  using assms by (cases k; auto)+

lemma inv_checker:
  assumes "race_inv N s" and "conc_step (Step 1) (rsys s) c"
  shows "race_inv N (s\<lparr>rsys := c\<rparr>)"
proof -
  have sh: "race_shape N s" 
    and ck: "checker_ok (current_era (shared (rsys s))) (prev s) (checker s) (threads (rsys s) 1)"
    using assms(1) by (simp_all add: race_inv_def)
  obtain s' p where op: "running (threads (rsys s) 1)" "thread_op (shared (rsys s)) (threads (rsys s) 1) = (s', p)"
    and c: "c = (rsys s)\<lparr>shared := s', threads := (threads (rsys s))(1 := p)\<rparr>"
    using assms(2) by (elim stepE)
  note sc = checker_scans [OF ck op(1)]
  have s': "s' = shared (rsys s)" using op(2) sc(1) by (auto split: if_splits)
  have "checker_ok (current_era s') (prev s) (checker s) p"
    using ck sc op(2) by (auto split: if_splits)
  moreover have "pending (prev s) (eras s') (checker s) p i"
    if "pending (prev s) (eras (shared (rsys s))) (checker s) (threads (rsys s) 1) i" for i
    using pending_scan [OF that op(2) sc(1)] s' by simp
  ultimately show ?thesis using assms(1) race_shape_step [OF sh assms(2)] c s'
    by (auto simp: race_inv_def)
qed

text \<open>The end of a scan: what was pending is in the set, or newer than the era just closed.\<close>

lemma scan_ends:
  assumes "race_inv N s" and "threads (rsys s) 1 = Scanned since vs" and "conc_step (Finish 1) (rsys s) c"
  shows "c = (rsys s)\<lparr>threads := (threads (rsys s))(1 := Idle)\<rparr>" and "race_shape N (s\<lparr>rsys := c\<rparr>)"
    and "i < N \<Longrightarrow> scan_will (prev s) (eras (shared (rsys s))) (threads (rsys s) 1) i \<Longrightarrow>
      i \<in> accumulate (granularity (shared c)) (scan_result (shared c) since vs) (chunks_seen s)"
proof -
  have sh: "race_shape N s" using assms(1) by (simp add: race_inv_def)
  show c: "c = (rsys s)\<lparr>threads := (threads (rsys s))(1 := Idle)\<rparr>" using assms(3) by (elim finishE)
  show "race_shape N (s\<lparr>rsys := c\<rparr>)" by (rule race_shape_step [OF sh assms(3)])
  have "pc_ok (shared (rsys s)) (Scanned since vs)" using sh assms(2) by (metis conc_inv_def race_shape_def)
  then have len: "length vs = length (eras (shared (rsys s)))" by simp
  have "prev s = since"
    using assms(1,2) by (cases "checker s") (auto simp: race_inv_def)
  then show "i \<in> accumulate (granularity (shared c)) (scan_result (shared c) since vs) (chunks_seen s)"
    if "i < N" "scan_will (prev s) (eras (shared (rsys s))) (threads (rsys s) 1) i"
    using that sh assms(2) len c by (intro diff_holds [where N = N]) (simp_all add: race_shape_def conc_inv_def scan_will_def)
qed

lemma accumulate_keeps: "i \<in> seen \<Longrightarrow> i \<in> accumulate g rs seen"
  by (simp add: accumulate_iff)

lemma inv_diffed:
  assumes "race_inv N s" and "checker s = KDiff closed" and "threads (rsys s) 1 = Scanned since vs"
    and "conc_step (Finish 1) (rsys s) c"
  shows "race_inv N (s\<lparr>rsys := c, prev := closed, checker := KCheck,
    chunks_seen := accumulate (granularity (shared c)) (scan_result (shared c) since vs) (chunks_seen s)\<rparr>)"
  using assms(1,2) scan_ends [OF assms(1,3,4)] accumulate_keeps
  by (auto simp: race_inv_def race_shape_def)

lemma inv_swept:
  assumes "race_inv N s" and "checker s = KSweep" and "threads (rsys s) 1 = Scanned since vs"
    and "conc_step (Finish 1) (rsys s) c"
  shows "race_inv N (s\<lparr>rsys := c, checker := KEnd,
    chunks_seen := accumulate (granularity (shared c)) (scan_result (shared c) since vs) (chunks_seen s)\<rparr>)"
  using assms(1,2) scan_ends [OF assms(1,3,4)] accumulate_keeps
  by (auto simp: race_inv_def race_shape_def)

lemma inv_again: "race_inv N s \<Longrightarrow> checker s = KCheck \<Longrightarrow> race_inv N (s\<lparr>checker := KLoop\<rparr>)"
  by (simp add: race_inv_def race_shape_def)

lemma race_step_inv:
  "race_step N ev s t \<Longrightarrow> race_inv N s \<Longrightarrow> unat (current_era (shared (rsys s))) + 1 < 2 ^ 32 \<or> ev \<noteq> KCheckpoint \<Longrightarrow>
     race_inv N t"
  by (induction rule: race_step.induct)
    (auto intro: inv_mark inv_writer inv_next [simplified] inv_done inv_checkpoint inv_scan inv_checker inv_diffed
      inv_again inv_swept)

lemma race_step_current:
  "race_step N ev s t \<Longrightarrow> current_era (shared (rsys t)) =
     current_era (shared (rsys s)) + (if ev = KCheckpoint then 1 else 0)"
  by (induction rule: race_step.induct) (auto dest: conc_step_current)

lemma race_path_inv:
  "race_path N evs s t \<Longrightarrow> race_inv N s \<Longrightarrow>
     unat (current_era (shared (rsys s))) + count_list evs KCheckpoint < 2 ^ 32 \<Longrightarrow>
     race_inv N t \<and> unat (current_era (shared (rsys t))) = unat (current_era (shared (rsys s))) + count_list evs KCheckpoint"
proof (induction rule: race_path.induct)
  case (race_snoc evs s t ev u)
  then have ih: "race_inv N t"
      "unat (current_era (shared (rsys t))) = unat (current_era (shared (rsys s))) + count_list evs KCheckpoint"
    by (auto split: if_splits)
  with race_snoc.prems have b: "unat (current_era (shared (rsys t))) + 1 < 2 ^ 32 \<or> ev \<noteq> KCheckpoint" by auto
  from race_step_current [OF race_snoc.hyps(2)] ih(2) b race_step_inv [OF race_snoc.hyps(2) ih(1) b]
  show ?case by (auto simp: unat_add_no_overflow)
qed simp

section \<open>Properties\<close>

text \<open>
  C6. The concurrent test passes under every schedule: on a fresh map of \<open>N\<close> full chunks, however the
  atomics of the writer and of the checker interleave and however many checkpoints the checker takes
  before the era counter would wrap, when the checker ends every chunk is in one of its diffs.
\<close>

theorem concurrent_test_passes:
  assumes "era_new (Some rnd) (of_nat N * gr) gr = Inr s" and "N * unat gr < 2 ^ 64"
    and "race_path N evs (race_start s) t" and "checker t = KEnd" and "count_list evs KCheckpoint < 2 ^ 32 - 1"
  shows "race_passes N t"
proof -
  have s: "era_wf s" "granularity s = gr" "dev_size s = of_nat N * gr" "current_era s = 1"
    using era_new_ok [OF assms(1)] by auto
  have sz: "size_of s = N * gran s" unfolding s(2,3) using assms(2) by (intro unat_of_nat_mult) simp
  have g: "0 < gran s" using gran_pos [OF s(1)] by simp
  have "length (eras s) = N" using length_eras [OF s(1)] sz g
    by (metis add.commute add_diff_cancel_left' chunk_index_iff linorder_neqE_nat mult_less_cancel2 order_less_irrefl s(1))
  then have "race_inv N (race_start s)"
    using s sz by (simp add: race_inv_def race_start_def race_shape_def conc_inv_def race_writer_ok_def marked_def)
  then have "race_inv N t" using race_path_inv [OF assms(3)] assms(5) s(4) by (simp add: race_start_def)
  then show ?thesis using assms(4) by (auto simp: race_inv_def marked_def race_passes_def list_all_iff)
qed

text \<open>For the witness: one chunk, the writer before the first checkpoint.\<close>

definition ex_map :: "u32 \<Rightarrow> u32 \<Rightarrow> era_state" where
  "ex_map cur e = \<lparr>granularity = 4096, dev_size = 4096, generation = 0, current_era = cur, eras = [e]\<rparr>"

definition ex_race :: "u32 \<Rightarrow> u32 \<Rightarrow> pc \<Rightarrow> pc \<Rightarrow> nat \<Rightarrow> bool \<Rightarrow> checker \<Rightarrow> u32 \<Rightarrow> nat set \<Rightarrow> race" where
  "ex_race cur e p q k d ck pr seen =
     \<lparr>rsys = \<lparr>shared = ex_map cur e, threads = (\<lambda>_. Idle)(0 := p, 1 := q)\<rparr>, wnext = k, rdone = d, checker = ck,
      prev = pr, chunks_seen = seen\<rparr>"

lemma race_path_Cons:
  "race_path N evs t u \<Longrightarrow> race_step N ev s t \<Longrightarrow> race_path N (ev # evs) s u"
proof (induction rule: race_path.induct)
  case (race_nil t)
  then show ?case using race_path.race_snoc [OF race_path.race_nil] by fastforce
next
  case (race_snoc evs t u ev' v)
  then show ?case using race_path.race_snoc by fastforce
qed

lemma ex_writer:
  "race_step 1 WMark (ex_race 1 0 Idle Idle 0 False KLoop 0 {}) (ex_race 1 0 (Load 0 0) Idle 0 False KLoop 0 {})"
  "race_step 1 WAtomic (ex_race 1 0 (Load 0 0) Idle 0 False KLoop 0 {})
     (ex_race 1 0 (Stamping 0 0 1 0) Idle 0 False KLoop 0 {})"
  "race_step 1 WAtomic (ex_race 1 0 (Stamping 0 0 1 0) Idle 0 False KLoop 0 {})
     (ex_race 1 1 (Stamping 0 0 1 1) Idle 0 False KLoop 0 {})"
  "race_step 1 WAtomic (ex_race 1 1 (Stamping 0 0 1 1) Idle 0 False KLoop 0 {})
     (ex_race 1 1 (Returned 0 0) Idle 0 False KLoop 0 {})"
  "race_step 1 WNext (ex_race 1 1 (Returned 0 0) Idle 0 False KLoop 0 {}) (ex_race 1 1 Idle Idle 1 False KLoop 0 {})"
  "race_step 1 WDone (ex_race 1 1 Idle Idle 1 False KLoop 0 {}) (ex_race 1 1 Idle Idle 1 True KLoop 0 {})"
  by (auto simp: ex_race_def ex_map_def race_step.simps conc_step.simps mark_slice_def fetch_max_def fun_eq_iff
      intro!: exI)

lemma ex_checker:
  "race_step 1 KCheckpoint (ex_race 1 1 Idle Idle 1 True KLoop 0 X) (ex_race 2 1 Idle Idle 1 True (KCall 1) 0 X)"
  "race_step 1 KScan (ex_race 2 1 Idle Idle 1 True (KCall 1) 0 X) (ex_race 2 1 Idle (Scan 0 []) 1 True (KDiff 1) 0 X)"
  "race_step 1 KDiffed (ex_race 2 1 Idle (Scanned 0 [1]) 1 True (KDiff 1) 0 X)
     (ex_race 2 1 Idle Idle 1 True KCheck 1 (accumulate 4096 (scan_result (ex_map 2 1) 0 [1]) X))"
  "race_step 1 KLast (ex_race 2 1 Idle Idle 1 True KCheck 1 X) (ex_race 2 1 Idle (Scan 1 []) 1 True KSweep 1 X)"
  "race_step 1 KSwept (ex_race 2 1 Idle (Scanned 1 [1]) 1 True KSweep 1 X)
     (ex_race 2 1 Idle Idle 1 True KEnd 1 (accumulate 4096 (scan_result (ex_map 2 1) 1 [1]) X))"
  by (auto simp: ex_race_def ex_map_def race_step.simps conc_step.simps checkpoint_def fun_eq_iff intro!: exI)

lemma ex_scan:
  "race_step 1 KAtomic (ex_race 2 1 Idle (Scan pr []) 1 True k pr X) (ex_race 2 1 Idle (Scan pr [1]) 1 True k pr X)"
  "race_step 1 KAtomic (ex_race 2 1 Idle (Scan pr [1]) 1 True k pr X) (ex_race 2 1 Idle (Scanned pr [1]) 1 True k pr X)"
  by (auto simp: ex_race_def ex_map_def race_step.simps conc_step.simps fun_eq_iff intro!: exI)

definition ex_schedule :: "race_event list" where
  "ex_schedule = [WMark, WAtomic, WAtomic, WAtomic, WNext, WDone, KCheckpoint, KScan, KAtomic, KAtomic, KDiffed,
     KLast, KAtomic, KAtomic, KSwept]"

lemma ex_schedule_runs:
  "\<exists>t. race_path 1 ex_schedule (ex_race 1 0 Idle Idle 0 False KLoop 0 {}) t \<and> checker t = KEnd"
proof -
  have "race_path 1 ex_schedule (ex_race 1 0 Idle Idle 0 False KLoop 0 {})
      (ex_race 2 1 Idle Idle 1 True KEnd 1 (accumulate 4096 (scan_result (ex_map 2 1) 1 [1])
         (accumulate 4096 (scan_result (ex_map 2 1) 0 [1]) {})))"
    unfolding ex_schedule_def
    by (rule race_path_Cons race_nil ex_writer ex_checker ex_scan)+
  then show ?thesis by (auto simp: ex_race_def)
qed

theorem concurrent_test_passes_witness:
  "\<exists>t. race_path 1 ex_schedule (race_start (ex_map 1 0)) t \<and> checker t = KEnd \<and> 0 \<in> chunks_seen t"
proof -
  have "is_power_of_two 4096" using is_power_of_two_exp [of 12] by simp
  then have new: "era_new (Some [0, 0, 0, 0, 0, 0, 0, 0]) (of_nat 1 * 4096) 4096 = Inr (ex_map 1 0)"
    by (simp add: era_new_def div_ceil_def ex_map_def)
  have start: "race_start (ex_map 1 0) = ex_race 1 0 Idle Idle 0 False KLoop 0 {}"
    by (simp add: race_start_def ex_race_def fun_eq_iff)
  obtain t where t: "race_path 1 ex_schedule (race_start (ex_map 1 0)) t" "checker t = KEnd"
    using ex_schedule_runs start by auto
  have "race_passes 1 t"
    by (rule concurrent_test_passes [OF new _ t]) (simp_all add: ex_schedule_def)
  then show ?thesis using t by (auto simp: race_passes_def)
qed

end
