(* ===== verification/Crc32.thy ===== *)
theory Crc32
  imports Ublk_Prelude
begin

text \<open>
  The checksum of the metadata file (\<^verbatim>\<open>src/src/era.rs\<close>, \<open>crc32\<close>): the table-driven
  CRC32 (IEEE, reflected) over the concatenation of several parts. The lemmas show that the
  table lookup computes eight steps of the bit-serial register, that the register update is
  injective in the register and in the byte, and hence that two equally long inputs that
  differ only inside a window of four bytes never have the same checksum.
\<close>

section \<open>The code\<close>

definition crc_bit :: "u32 \<Rightarrow> u32" where
  "crc_bit c = (if c AND 1 \<noteq> 0 then 0xEDB88320 XOR drop_bit 1 c else drop_bit 1 c)"

definition crc_entry :: "nat \<Rightarrow> u32" where
  "crc_entry i = (crc_bit ^^ 8) (of_nat i)"

definition crc_table :: "u32 list" where
  "crc_table = map crc_entry [0..<256]"

definition crc_step :: "u8 \<Rightarrow> u32 \<Rightarrow> u32" where
  "crc_step b crc = crc_table ! unat ((crc XOR ucast b) AND 0xFF) XOR drop_bit 8 crc"

definition crc_part :: "u8 list \<Rightarrow> u32 \<Rightarrow> u32" where
  "crc_part part crc = fold crc_step part crc"

definition crc32 :: "u8 list list \<Rightarrow> u32" where
  "crc32 parts = NOT (fold crc_part parts 0xFFFFFFFF)"

text \<open>
  Reference: the shift register that consumes a byte bit by bit, with no table.
\<close>

definition crc_ref_step :: "u8 \<Rightarrow> u32 \<Rightarrow> u32" where
  "crc_ref_step b crc = (crc_bit ^^ 8) (crc XOR ucast b)"

definition crc_ref :: "u8 list \<Rightarrow> u32" where
  "crc_ref bs = NOT (fold crc_ref_step bs 0xFFFFFFFF)"

section \<open>The register update is linear and injective\<close>

lemma and_one_bit: "c AND 1 \<noteq> 0 \<longleftrightarrow> bit c 0" for c :: u32
  by (simp add: and_one_eq odd_iff_mod_2_eq_one bit_0)

lemma crc_bit_alt: "crc_bit c = (if bit c 0 then 0xEDB88320 XOR drop_bit 1 c else drop_bit 1 c)"
  by (simp only: crc_bit_def and_one_bit)

lemma crc_bit_xor: "crc_bit (x XOR y) = crc_bit x XOR crc_bit y"
  by (rule bit_word_eqI) (auto simp: crc_bit_alt bit_simps)

lemma crc_bits_xor: "(crc_bit ^^ n) (x XOR y) = (crc_bit ^^ n) x XOR (crc_bit ^^ n) y"
  by (induction n) (simp_all add: crc_bit_xor)

lemma bit_crc_poly_31: "bit (0xEDB88320 :: u32) 31"
  by simp

lemma bit31_crc_bit: "bit (crc_bit c) 31 \<longleftrightarrow> bit c 0"
  by (auto simp: crc_bit_alt bit_simps dest: bit_imp_le_length)

lemma crc_bit_inj: "crc_bit x = crc_bit y \<Longrightarrow> x = y"
proof -
  assume eq: "crc_bit x = crc_bit y"
  then have b0: "bit x 0 \<longleftrightarrow> bit y 0" by (metis bit31_crc_bit)
  with eq have "drop_bit 1 x = drop_bit 1 y"
    by (auto simp: crc_bit_alt split: if_splits)
  then have "bit x (Suc k) = bit y (Suc k)" for k
    by (metis bit_drop_bit_eq comp_apply plus_1_eq_Suc)
  with b0 show "x = y" by (metis bit_word_eqI not0_implies_Suc)
qed

lemma crc_bits_inj: "(crc_bit ^^ n) x = (crc_bit ^^ n) y \<Longrightarrow> x = y"
  by (induction n) (auto dest: crc_bit_inj)

lemma crc_bits_eq_iff [simp]: "(crc_bit ^^ n) x = (crc_bit ^^ n) y \<longleftrightarrow> x = y"
  by (auto dest: crc_bits_inj)

lemma crc_bits_shifted:
  "(\<And>k. k < n \<Longrightarrow> \<not> bit x k) \<Longrightarrow> (crc_bit ^^ n) x = drop_bit n x"
proof (induction n)
  case 0
  then show ?case by simp
next
  case (Suc n)
  then have "\<not> bit (drop_bit n x) 0" by (simp add: bit_drop_bit_eq)
  with Suc show ?case by (simp add: crc_bit_alt)
qed

section \<open>The table is the bit-serial register\<close>

lemma crc_table_lookup: "unat i < 256 \<Longrightarrow> crc_table ! unat i = (crc_bit ^^ 8) i" for i :: u32
  by (simp add: crc_table_def crc_entry_def)

lemma mask_low_byte: "unat (x AND 0xFF) < 256" for x :: u32
proof -
  have "x AND 0xFF \<le> 0xFF" by (rule word_and_le1)
  then show ?thesis by (simp add: word_le_nat_alt)
qed

lemma bit_mask8: "bit (0xFF :: u32) k \<longleftrightarrow> k < 8"
proof -
  have eq: "(0xFF :: u32) = mask 8" by (simp add: mask_eq_exp_minus_1)
  show ?thesis by (simp only: eq bit_mask_iff) auto
qed

lemma crc_step_ref: "crc_step b crc = crc_ref_step b crc"
proof -
  let ?x = "crc XOR ucast b :: u32"
  define m :: u32 where "m = 0xFF"
  have m: "bit m k \<longleftrightarrow> k < 8" for k by (simp only: m_def bit_mask8)
  have split: "?x = (?x AND m) XOR (?x AND NOT m)"
    by (rule bit_word_eqI) (auto simp: bit_simps)
  have "(crc_bit ^^ 8) (?x AND NOT m) = drop_bit 8 (?x AND NOT m)"
    by (rule crc_bits_shifted) (simp add: bit_simps m)
  also have "\<dots> = drop_bit 8 crc"
    by (rule bit_word_eqI) (auto simp: bit_simps m dest: bit_imp_le_length)
  finally have high: "(crc_bit ^^ 8) (?x AND NOT m) = drop_bit 8 crc" .
  have "crc_ref_step b crc = (crc_bit ^^ 8) (?x AND m) XOR (crc_bit ^^ 8) (?x AND NOT m)"
    unfolding crc_ref_step_def by (subst split) (rule crc_bits_xor)
  moreover have "crc_table ! unat (?x AND m) = (crc_bit ^^ 8) (?x AND m)"
    unfolding m_def by (rule crc_table_lookup) (rule mask_low_byte)
  ultimately show ?thesis
    by (simp only: crc_step_def m_def [symmetric] high)
qed

lemma crc_part_append: "crc_part (xs @ ys) crc = crc_part ys (crc_part xs crc)"
  by (simp add: crc_part_def)

lemma crc_parts_concat: "fold crc_part parts crc = crc_part (concat parts) crc"
  by (induction parts arbitrary: crc) (simp_all add: crc_part_def)

lemma crc32_concat: "crc32 parts = crc32 [concat parts]"
  by (simp add: crc32_def crc_parts_concat)

lemma crc32_is_ref: "crc32 parts = crc_ref (concat parts)"
proof -
  have "crc_step = crc_ref_step" by (intro ext) (rule crc_step_ref)
  then show ?thesis by (simp add: crc32_def crc_ref_def crc_parts_concat crc_part_def)
qed

section \<open>Error detection\<close>

lemma crc_step_reg_inj: "crc_step b x = crc_step b y \<longleftrightarrow> x = y"
  by (simp add: crc_step_ref crc_ref_step_def)

lemma crc_part_reg_inj: "crc_part bs x = crc_part bs y \<longleftrightarrow> x = y"
  by (induction bs arbitrary: x y) (simp_all add: crc_part_def crc_step_reg_inj)

text \<open>
  A run of at most four bytes acts on the register as one exclusive-or with the
  little-endian word they spell, followed by eight register steps per byte.
\<close>

lemma crc_part_short:
  "length bs \<le> 4 \<Longrightarrow> crc_part bs crc = (crc_bit ^^ (8 * length bs)) (crc XOR from_le_bytes bs)"
proof (induction bs arbitrary: crc)
  case Nil
  then show ?case by (simp add: crc_part_def)
next
  case (Cons b bs)
  let ?w = "from_le_bytes bs :: u32"
  have "(crc_bit ^^ 8) (push_bit 8 ?w) = drop_bit 8 (push_bit 8 ?w)"
    by (rule crc_bits_shifted) (simp add: bit_simps)
  also have "\<dots> = ?w"
  proof (rule bit_word_eqI)
    fix k assume "k < LENGTH(32)"
    show "bit (drop_bit 8 (push_bit 8 ?w)) k = bit ?w k"
      using Cons.prems by (auto simp: bit_simps bit_from_le_bytes)
  qed
  finally have shift: "(crc_bit ^^ 8) (push_bit 8 ?w) = ?w" .
  have disj: "(from_le_bytes (b # bs) :: u32) = ucast b XOR push_bit 8 ?w"
    by (rule bit_word_eqI) (auto simp: bit_simps dest: bit_imp_le_length)
  have "crc_part (b # bs) crc = crc_part bs (crc_ref_step b crc)"
    by (simp add: crc_part_def crc_step_ref)
  also have "\<dots> = (crc_bit ^^ (8 * length bs)) ((crc_bit ^^ 8) (crc XOR ucast b) XOR ?w)"
    using Cons by (simp add: crc_ref_step_def)
  also have "(crc_bit ^^ 8) (crc XOR ucast b) XOR ?w
      = (crc_bit ^^ 8) (crc XOR from_le_bytes (b # bs))"
    by (simp only: crc_bits_xor disj shift xor.assoc)
  also have "(crc_bit ^^ (8 * length bs)) ((crc_bit ^^ 8) (crc XOR from_le_bytes (b # bs)))
      = (crc_bit ^^ (8 * length bs + 8)) (crc XOR from_le_bytes (b # bs))"
    by (simp only: funpow_add comp_apply)
  also have "8 * length bs + 8 = 8 * length (b # bs)" by simp
  finally show ?case .
qed

lemma from_le_bytes_inj:
  assumes "length xs = length ys" and "8 * length xs \<le> LENGTH('a::len)"
    and "(from_le_bytes xs :: 'a word) = from_le_bytes ys"
  shows "xs = ys"
  using assms to_from_le_bytes [where 'a = 'a] by metis

lemma crc_part_window:
  assumes "length xs = length ys" and "length xs \<le> 4" and "xs \<noteq> ys"
  shows "crc_part xs crc \<noteq> crc_part ys crc"
proof
  assume "crc_part xs crc = crc_part ys crc"
  with assms have "crc XOR from_le_bytes xs = crc XOR (from_le_bytes ys :: u32)"
    by (simp add: crc_part_short del: xor_left_cancel)
  then have "(from_le_bytes xs :: u32) = from_le_bytes ys" by simp
  with assms show False using from_le_bytes_inj [where 'a = 32, of xs ys] by simp
qed

lemma crc32_burst:
  assumes "length xs = length ys" and "length xs \<le> 4" and "xs \<noteq> ys"
  shows "crc32 [pre @ xs @ post] \<noteq> crc32 [pre @ ys @ post]"
  using crc_part_window [OF assms]
  by (simp add: crc32_def crc_part_append crc_part_reg_inj)

lemma crc32_byte_change:
  assumes "i < length bs" and "bs ! i \<noteq> v"
  shows "crc32 [bs[i := v]] \<noteq> crc32 [bs]"
proof -
  let ?at = "\<lambda>b. take i bs @ [b] @ drop (Suc i) bs"
  have "?at (bs ! i) = bs" using assms(1) by (simp add: id_take_nth_drop [symmetric])
  moreover have "bs[i := v] = ?at v" using assms(1) by (simp add: upd_conv_take_nth_drop)
  moreover have "crc32 [?at v] \<noteq> crc32 [?at (bs ! i)]"
    using assms(2) by (intro crc32_burst) auto
  ultimately show ?thesis by simp
qed

end
