(* ===== verification/Meta.thy ===== *)
theory Meta
  imports Era Crc32
begin

text \<open>
  The metadata file (\<^verbatim>\<open>src/src/era.rs\<close>, \<open>save\<close> and \<open>load\<close>): the byte layout, the
  loader with every check it makes in the order it makes them, and the replacement of the
  file by a temporary and a rename, with the states an I/O error or a crash can leave behind.
\<close>

section \<open>The code\<close>

definition META_MAGIC :: "u8 list" where
  "META_MAGIC = [0x55, 0x42, 0x4C, 0x4B, 0x45, 0x52, 0x41, 0x31]"

definition META_VERSION :: u32 where
  "META_VERSION = 4"

definition HDR_LEN :: nat where
  "HDR_LEN = 56"

definition CRC_OFF :: nat where
  "CRC_OFF = 52"

text \<open>The buffer of \<open>save\<close> before and after the checksum is filled in.\<close>

definition meta_buf :: "bool \<Rightarrow> era_state \<Rightarrow> u8 list" where
  "meta_buf clean s =
     META_MAGIC @ le_u32 META_VERSION @ le_u64 (granularity s) @ le_u64 (dev_size s) @
     le_u32 (current_era s) @ le_u64 (nr_chunks s) @ le_u32 (if clean then 1 else 0) @
     le_u64 (generation s) @ le_u32 0 @ concat (map le_u32 (eras s))"

definition meta_bytes :: "bool \<Rightarrow> era_state \<Rightarrow> u8 list" where
  "meta_bytes clean s =
     (let buf = meta_buf clean s in write_at CRC_OFF (le_u32 (crc32 [buf])) buf)"

text \<open>\<open>raw[a..b]\<close>, read as a little-endian number.\<close>

definition field :: "nat \<Rightarrow> nat \<Rightarrow> u8 list \<Rightarrow> 'a::len word" where
  "field a b raw = from_le_bytes (take (b - a) (drop a raw))"

text \<open>
  \<open>load\<close>. \<open>file\<close> is what \<open>std::fs::read\<close> returned (\<open>None\<close>: an error), \<open>urandom\<close>
  what the nested \<open>EraState::new\<close> reads.
\<close>

definition load ::
    "u8 list option \<Rightarrow> u8 list option \<Rightarrow> u64 \<Rightarrow> u64 \<Rightarrow> era_error + (era_state \<times> bool)" where
  "load urandom file dsize gr =
     (case file of None \<Rightarrow> Inl MetaUnreadable
      | Some raw \<Rightarrow>
        if length raw < HDR_LEN then Inl MetaTruncated
        else if take 8 raw \<noteq> META_MAGIC then Inl NotMetadata
        else if field 8 12 raw \<noteq> META_VERSION then Inl (UnsupportedVersion (field 8 12 raw))
        else if field CRC_OFF (CRC_OFF + 4) raw \<noteq>
            crc32 [write_at CRC_OFF [0, 0, 0, 0] (take HDR_LEN raw), drop HDR_LEN raw]
          then Inl ChecksumMismatch
        else let m_gran = field 12 20 raw; m_size = field 20 28 raw; m_era = field 28 32 raw;
                 m_chunks = field 32 40 raw; m_clean = (field 40 44 raw :: u32) \<noteq> 0;
                 m_gen = field 44 52 raw in
          if m_gran \<noteq> gr then Inl (GranularityMismatch m_gran gr)
          else if m_size \<noteq> dsize then Inl (SizeMismatch m_size dsize)
          else and_then (era_new urandom dsize gr) (\<lambda>state.
            if m_chunks \<noteq> nr_chunks state then Inl ChunkCountMismatch
            else let body = drop HDR_LEN raw in
              if length body \<noteq> length (eras state) * 4 then Inl BodyLengthMismatch
              else Inr (state\<lparr>generation := m_gen, current_era := m_era,
                  eras := map (\<lambda>i. from_le_bytes (take 4 (drop (i * 4) body)))
                    [0..<length (eras state)]\<rparr>, m_clean)))"

text \<open>
  Paths: the directory and the file name. \<open>Path::with_extension\<close> replaces what follows
  the last dot of the file name, or appends where there is none (a leading dot does not
  count).
\<close>

type_synonym path = "string list \<times> string"

definition file_stem :: "string \<Rightarrow> string" where
  "file_stem name = (case dropWhile (\<lambda>c. c \<noteq> CHR ''.'') (rev name) of
      [] \<Rightarrow> name
    | _ # before \<Rightarrow> if before = [] then name else rev before)"

definition with_extension :: "string \<Rightarrow> path \<Rightarrow> path" where
  "with_extension ext p = (fst p, file_stem (snd p) @ ''.'' @ ext)"

definition tmp_of :: "path \<Rightarrow> path" where
  "tmp_of p = with_extension ''tmp'' p"

text \<open>A file system maps paths to contents; the operations \<open>save\<close> performs on it.\<close>

type_synonym fs = "path \<Rightarrow> u8 list option"

datatype fs_op = Create path | WriteAll path "u8 list" | SyncAll path | Rename path path

fun fs_do :: "fs_op \<Rightarrow> fs \<Rightarrow> fs" where
  "fs_do (Create p) fs = fs(p \<mapsto> [])"
| "fs_do (WriteAll p bs) fs = fs(p \<mapsto> (case fs p of None \<Rightarrow> [] | Some old \<Rightarrow> old) @ bs)"
| "fs_do (SyncAll p) fs = fs"
| "fs_do (Rename p q) fs = (fs(p := None))(q := fs p)"

definition save_ops :: "path \<Rightarrow> u8 list \<Rightarrow> fs_op list" where
  "save_ops p buf = [Create (tmp_of p), WriteAll (tmp_of p) buf, SyncAll (tmp_of p),
     Rename (tmp_of p) p]"

text \<open>
  An I/O error stops \<open>save\<close> at one of its operations (a failed \<open>write_all\<close> may have
  written some bytes); a crash stops it anywhere, also inside the write.
\<close>

datatype save_fault = CreateFails | WriteFails nat | SyncFails | RenameFails

definition save ::
    "save_fault option \<Rightarrow> path \<Rightarrow> bool \<Rightarrow> era_state \<Rightarrow> fs \<Rightarrow> fs \<times> (save_fault + unit)" where
  "save fault p clean s fs =
     (let buf = meta_bytes clean s; tmp = tmp_of p in
      case fault of
        None \<Rightarrow> (fold fs_do (save_ops p buf) fs, Inr ())
      | Some CreateFails \<Rightarrow> (fs, Inl CreateFails)
      | Some (WriteFails k) \<Rightarrow>
          (fold fs_do [Create tmp, WriteAll tmp (take k buf)] fs, Inl (WriteFails k))
      | Some SyncFails \<Rightarrow> (fold fs_do [Create tmp, WriteAll tmp buf] fs, Inl SyncFails)
      | Some RenameFails \<Rightarrow>
          (fold fs_do [Create tmp, WriteAll tmp buf, SyncAll tmp] fs, Inl RenameFails))"

fun crash_states :: "fs_op list \<Rightarrow> fs \<Rightarrow> fs list" where
  "crash_states [] fs = [fs]"
| "crash_states (WriteAll p bs # xs) fs =
     map (\<lambda>k. fs_do (WriteAll p (take k bs)) fs) [0..<length bs] @
     crash_states xs (fs_do (WriteAll p bs) fs)"
| "crash_states (x # xs) fs = fs # crash_states xs (fs_do x fs)"

section \<open>The layout\<close>

lemmas meta_consts = META_MAGIC_def META_VERSION_def HDR_LEN_def CRC_OFF_def

lemma length_META_MAGIC [simp]: "length META_MAGIC = 8"
  by (simp add: META_MAGIC_def)

lemma length_meta_buf: "length (meta_buf clean s) = HDR_LEN + length (eras s) * 4"
  by (simp add: meta_buf_def HDR_LEN_def u32_codec.length_concat_enc)

lemma length_meta_bytes: "length (meta_bytes clean s) = HDR_LEN + length (eras s) * 4"
  by (simp add: meta_bytes_def Let_def length_meta_buf meta_consts)

lemma drop_append_exact: "length xs = n \<Longrightarrow> drop n (xs @ ys) = ys"
  by simp

text \<open>Filling in the checksum changes only bytes 52 to 55.\<close>

definition meta_pre :: "bool \<Rightarrow> era_state \<Rightarrow> u8 list" where
  "meta_pre clean s =
     META_MAGIC @ le_u32 META_VERSION @ le_u64 (granularity s) @ le_u64 (dev_size s) @
     le_u32 (current_era s) @ le_u64 (nr_chunks s) @ le_u32 (if clean then 1 else 0) @
     le_u64 (generation s)"

lemma length_meta_pre [simp]: "length (meta_pre clean s) = 52"
  by (simp add: meta_pre_def)

lemma meta_buf_split: "meta_buf clean s = meta_pre clean s @ le_u32 0 @ concat (map le_u32 (eras s))"
  by (simp add: meta_buf_def meta_pre_def)

lemma meta_bytes_split:
  "meta_bytes clean s =
     meta_pre clean s @ le_u32 (crc32 [meta_buf clean s]) @ concat (map le_u32 (eras s))"
  by (simp add: meta_bytes_def meta_buf_split write_at_def CRC_OFF_def Let_def)

lemma le_u32_zero: "le_u32 0 = [0, 0, 0, 0]"
  by (simp add: le_u32_def to_le_bytes_def upt_rec)

text \<open>What the loader's checksum runs over, as one byte string.\<close>

definition zeroed :: "u8 list \<Rightarrow> u8 list" where
  "zeroed raw = write_at CRC_OFF [0, 0, 0, 0] raw"

lemma load_crc_parts:
  assumes "HDR_LEN \<le> length raw"
  shows "crc32 [write_at CRC_OFF [0, 0, 0, 0] (take HDR_LEN raw), drop HDR_LEN raw]
    = crc32 [zeroed raw]"
proof -
  have "write_at CRC_OFF [0, 0, 0, 0] (take HDR_LEN raw) @ drop HDR_LEN raw = zeroed raw"
    using assms by (simp add: zeroed_def write_at_def meta_consts min_def)
  then show ?thesis using crc32_concat
      [of "[write_at CRC_OFF [0, 0, 0, 0] (take HDR_LEN raw), drop HDR_LEN raw]"] by simp
qed

lemma zeroed_meta_bytes: "zeroed (meta_bytes clean s) = meta_buf clean s"
  by (simp add: zeroed_def meta_bytes_split meta_buf_split write_at_def CRC_OFF_def le_u32_zero)

text \<open>Every header field reads back.\<close>

lemma field_at:
  assumes "raw = xs @ ys @ zs" and "length xs = a" and "length ys = b - a"
  shows "field a b raw = from_le_bytes ys"
  using assms by (simp add: field_def)

lemma meta_fields:
  fixes clean :: bool and s :: era_state
  defines "raw \<equiv> meta_bytes clean s"
  shows "take 8 raw = META_MAGIC" "field 8 12 raw = META_VERSION"
    "field CRC_OFF (CRC_OFF + 4) raw = crc32 [meta_buf clean s]"
    "field 12 20 raw = granularity s" "field 20 28 raw = dev_size s"
    "field 28 32 raw = current_era s" "field 32 40 raw = nr_chunks s"
    "(field 40 44 raw :: u32) = (if clean then 1 else 0)" "field 44 52 raw = generation s"
    "drop HDR_LEN raw = concat (map le_u32 (eras s))"
  by (simp_all add: raw_def meta_bytes_split meta_pre_def field_def meta_consts
      u32_codec.dec_enc u64_codec.dec_enc)

section \<open>What the loader accepts\<close>

lemma load_okD:
  assumes "load urandom (Some raw) dsize gr = Inr (s, clean)"
  shows "HDR_LEN \<le> length raw"
    and "field CRC_OFF (CRC_OFF + 4) raw = crc32 [zeroed raw]"
    and "length raw = HDR_LEN + unat (div_ceil dsize gr) * 4"
    and "era_wf s" and "dev_size s = dsize" and "granularity s = gr"
    and "generation s = field 44 52 raw" and "current_era s = field 28 32 raw"
    and "clean \<longleftrightarrow> (field 40 44 raw :: u32) \<noteq> 0"
proof -
  from assms show len: "HDR_LEN \<le> length raw"
    by (simp add: load_def split: if_splits)
  from assms show "field CRC_OFF (CRC_OFF + 4) raw = crc32 [zeroed raw]"
    unfolding load_crc_parts [OF len, symmetric] by (simp add: load_def split: if_splits)
  from assms obtain t where t: "era_new urandom dsize gr = Inr t"
    and body: "length (drop HDR_LEN raw) = length (eras t) * 4"
    and s: "s = t\<lparr>generation := field 44 52 raw, current_era := field 28 32 raw,
      eras := map (\<lambda>i. from_le_bytes (take 4 (drop (i * 4) (drop HDR_LEN raw))))
        [0..<length (eras t)]\<rparr>"
    and clean: "clean \<longleftrightarrow> (field 40 44 raw :: u32) \<noteq> 0"
    by (auto simp: load_def Let_def and_then_ok split: if_splits)
  have shape: "same_shape (t\<lparr>generation := generation s\<rparr>) s" by (simp add: s same_shape_def)
  have wf: "era_wf (t\<lparr>generation := generation s\<rparr>)"
    using era_new_ok [OF t] by (auto simp: era_wf_def)
  show "era_wf s" by (rule same_shape_wf [OF shape wf])
  show "dev_size s = dsize" "granularity s = gr" using era_new_ok [OF t] by (simp_all add: s)
  have "length (eras t) = unat (div_ceil dsize gr)" using era_new_ok [OF t] by (auto simp: era_wf_def)
  then show "length raw = HDR_LEN + unat (div_ceil dsize gr) * 4" using body len by simp
  show "generation s = field 44 52 raw" "current_era s = field 28 32 raw"
    "clean \<longleftrightarrow> (field 40 44 raw :: u32) \<noteq> 0"
    using clean by (simp_all add: s)
qed

lemma load_meta_bytes:
  assumes "era_wf s"
  shows "load (Some rnd) (Some (meta_bytes clean s)) (dev_size s) (granularity s) = Inr (s, clean)"
proof -
  let ?raw = "meta_bytes clean s"
  let ?t = "\<lparr>granularity = granularity s, dev_size = dev_size s, generation = from_le_bytes rnd,
      current_era = 1, eras = replicate (unat (div_ceil (dev_size s) (granularity s))) 0\<rparr>"
  have "\<not> (\<not> is_power_of_two (granularity s) \<or> granularity s < 4096)"
    using assms by (auto simp: era_wf_def)
  then have new: "era_new (Some rnd) (dev_size s) (granularity s) = Inr ?t"
    by (simp add: era_new_def Let_def)
  have len: "unat (div_ceil (dev_size s) (granularity s)) = length (eras s)"
    using assms by (simp add: era_wf_def)
  have hdr: "HDR_LEN \<le> length ?raw" by (simp add: length_meta_bytes)
  have body: "length (concat (map le_u32 (eras s))) = length (eras s) * 4"
    by (rule u32_codec.length_concat_enc)
  have "nr_chunks ?t = nr_chunks s" by (simp add: nr_chunks_def len)
  moreover have "map (\<lambda>i. from_le_bytes (take 4 (drop (i * 4) (concat (map le_u32 (eras s))))))
      [0..<length (eras s)] = eras s"
    by (rule u32_codec.decode_concat_enc)
  moreover have "crc32 [write_at CRC_OFF [0, 0, 0, 0] (take HDR_LEN (meta_bytes c s)),
      concat (map le_u32 (eras s))] = crc32 [meta_buf c s]" for c
    using load_crc_parts [of "meta_bytes c s"]
    by (simp add: length_meta_bytes zeroed_meta_bytes meta_fields)
  ultimately show ?thesis
    using hdr body by (simp add: load_def meta_fields new len Let_def)
qed

text \<open>One changed byte of a loadable file breaks the checksum.\<close>

lemma field_update_outside:
  assumes "i < a \<or> b \<le> i" and "a \<le> b"
  shows "field a b (raw[i := v]) = field a b raw"
proof -
  have "take (b - a) (drop a (raw[i := v])) = take (b - a) (drop a raw)"
    using assms by (auto simp: drop_update_swap not_less)
  then show ?thesis by (simp add: field_def)
qed

lemma zeroed_update_inside:
  assumes "HDR_LEN \<le> length raw" and "CRC_OFF \<le> i" and "i < CRC_OFF + 4"
  shows "zeroed (raw[i := v]) = zeroed raw"
  using assms by (intro nth_equalityI) (auto simp: zeroed_def nth_write_at meta_consts)

lemma zeroed_update_outside:
  assumes "HDR_LEN \<le> length raw" and "i < CRC_OFF \<or> CRC_OFF + 4 \<le> i" and "i < length raw"
  shows "zeroed (raw[i := v]) = (zeroed raw)[i := v]"
  using assms
  by (intro nth_equalityI) (auto simp: zeroed_def nth_write_at nth_list_update meta_consts)

lemma field_crc_update:
  assumes "HDR_LEN \<le> length raw" and "CRC_OFF \<le> i" and "i < CRC_OFF + 4" and "raw ! i \<noteq> v"
  shows "(field CRC_OFF (CRC_OFF + 4) (raw[i := v]) :: u32) \<noteq> field CRC_OFF (CRC_OFF + 4) raw"
proof
  let ?f = "\<lambda>raw. take 4 (drop CRC_OFF raw) :: u8 list"
  assume "(field CRC_OFF (CRC_OFF + 4) (raw[i := v]) :: u32) = field CRC_OFF (CRC_OFF + 4) raw"
  then have "(from_le_bytes (?f (raw[i := v])) :: u32) = from_le_bytes (?f raw)"
    by (simp add: field_def)
  then have "?f (raw[i := v]) = ?f raw"
    by (rule from_le_bytes_inj [rotated 2]) (use assms(1) in \<open>simp_all add: meta_consts\<close>)
  then have "?f (raw[i := v]) ! (i - CRC_OFF) = ?f raw ! (i - CRC_OFF)" by simp
  with assms show False by (simp add: meta_consts)
qed

lemma crc_check_fails:
  assumes "HDR_LEN \<le> length raw" and "field CRC_OFF (CRC_OFF + 4) raw = crc32 [zeroed raw]"
    and "i < length raw" and "raw ! i \<noteq> v"
  shows "field CRC_OFF (CRC_OFF + 4) (raw[i := v]) \<noteq> crc32 [zeroed (raw[i := v])]"
proof (cases "CRC_OFF \<le> i \<and> i < CRC_OFF + 4")
  case True
  with field_crc_update [OF assms(1), of i v] assms show ?thesis
    by (simp add: zeroed_update_inside)
next
  case False
  then have out: "i < CRC_OFF \<or> CRC_OFF + 4 \<le> i" by linarith
  have "zeroed raw ! i = raw ! i" "i < length (zeroed raw)"
    using assms(1,3) out by (auto simp: zeroed_def nth_write_at meta_consts)
  then have "crc32 [(zeroed raw)[i := v]] \<noteq> crc32 [zeroed raw]"
    using assms(4) by (intro crc32_byte_change) simp_all
  then show ?thesis
    using assms(1-3) out by (simp add: field_update_outside zeroed_update_outside)
qed

section \<open>Replacing the file\<close>

lemma fold_save_ops:
  "fold fs_do (save_ops p buf) fs = (fs(tmp_of p := None))(p \<mapsto> buf)"
  by (simp add: save_ops_def fun_upd_def fun_eq_iff)

lemma save_ok: "save None p clean s fs = ((fs(tmp_of p := None))(p \<mapsto> meta_bytes clean s), Inr ())"
  by (simp add: save_def fold_save_ops)

lemma save_other_path:
  "q \<noteq> p \<Longrightarrow> q \<noteq> tmp_of p \<Longrightarrow> fst (save fault p clean s fs) q = fs q"
  by (simp add: save_def save_ops_def Let_def split: option.split save_fault.split)

lemma save_failed_keeps:
  "snd (save fault p clean s fs) = Inl e \<Longrightarrow> tmp_of p \<noteq> p \<Longrightarrow> fst (save fault p clean s fs) p = fs p"
  by (auto simp: save_def Let_def split: option.splits save_fault.splits)

lemma crash_states_save:
  assumes "f \<in> set (crash_states (save_ops p buf) fs)"
  shows "f = fs \<or> (\<exists>k. f = fs(tmp_of p \<mapsto> take k buf)) \<or> f = (fs(tmp_of p := None))(p \<mapsto> buf)"
proof -
  have "crash_states (save_ops p buf) fs =
      fs # map (\<lambda>k. fs(tmp_of p \<mapsto> take k buf)) [0..<length buf] @
      [fs(tmp_of p \<mapsto> buf), fs(tmp_of p \<mapsto> buf), (fs(tmp_of p := None))(p \<mapsto> buf)]"
    by (simp add: save_ops_def)
  moreover have "fs(tmp_of p \<mapsto> buf) = fs(tmp_of p \<mapsto> take (length buf) buf)" by simp
  ultimately show ?thesis using assms by (auto simp del: take_all)
qed

section \<open>Properties\<close>

text \<open>
  C12. Saving and loading is the identity: what \<open>save\<close> writes for a well-formed map,
  \<open>load\<close> with the same size and granularity reads back as the same map (generation, current
  era and every chunk era) with the same clean mark.
\<close>

theorem save_load_roundtrip:
  assumes "era_wf s"
  shows "fst (save None p clean s fs) p = Some (meta_bytes clean s) \<and>
    load (Some rnd) (fst (save None p clean s fs) p) (dev_size s) (granularity s) = Inr (s, clean)"
  using load_meta_bytes [OF assms] by (simp add: save_ok)

theorem save_load_roundtrip_witness:
  "load (Some []) (fst (save None ([], ''a.meta'') True ex_era Map.empty) ([], ''a.meta'')) 14336 4096
     = Inr (ex_era, True)"
  using save_load_roundtrip [OF ex_era_wf, of "([], ''a.meta'')" True Map.empty "[]"]
  unfolding ex_era_simps by (rule conjunct2)

lemma load_corrupted:
  assumes "load urandom (Some raw) dsize gr = Inr x" and "i < length raw" and "raw ! i \<noteq> v"
  shows "is_err (load urandom' (Some (raw[i := v])) dsize' gr')"
proof -
  obtain s clean where x: "x = (s, clean)" by (cases x)
  note ok = load_okD(1,2) [OF assms(1) [unfolded x]]
  have "field CRC_OFF (CRC_OFF + 4) (raw[i := v]) \<noteq> crc32 [zeroed (raw[i := v])]"
    by (rule crc_check_fails [OF ok assms(2,3)])
  then show ?thesis
    using ok(1) load_crc_parts [of "raw[i := v]"] by (simp add: load_def)
qed

text \<open>
  C13. No single corrupted byte is accepted: if a file loads, then the same file with any one
  byte changed to any other value, anywhere in the magic, the header, the checksum field or
  the era array, is an error for every size and granularity.
\<close>

theorem corrupted_byte_never_loads:
  assumes "load urandom (Some raw) dsize gr = Inr x" and "i < length raw" and "raw ! i \<noteq> v"
  shows "is_err (load urandom' (Some (raw[i := v])) dsize' gr')"
  by (rule load_corrupted [OF assms])

theorem corrupted_byte_never_loads_witness:
  "is_err (load (Some []) (Some ((meta_bytes True ex_era)[60 := 9])) 14336 4096)"
proof (rule corrupted_byte_never_loads)
  show "load (Some []) (Some (meta_bytes True ex_era)) 14336 4096 = Inr (ex_era, True)"
    using load_meta_bytes [OF ex_era_wf, of "[]" True] by (simp add: ex_era_def)
  show "60 < length (meta_bytes True ex_era)"
    by (simp add: length_meta_bytes HDR_LEN_def ex_era_def)
  have "meta_bytes True ex_era ! 60 = concat (map le_u32 (eras ex_era)) ! 4"
    by (simp add: meta_bytes_split nth_append)
  then show "meta_bytes True ex_era ! 60 \<noteq> 9"
    by (simp add: ex_era_def le_u32_zero)
qed

lemma load_wrong_length:
  assumes "length raw \<noteq> 56 + 4 * unat (div_ceil dsize gr)"
  shows "is_err (load urandom (Some raw) dsize gr)"
proof (cases "load urandom (Some raw) dsize gr")
  case (Inr x)
  obtain s clean where "x = (s, clean)" by (cases x)
  with load_okD(3) [of urandom raw dsize gr s clean] Inr assms show ?thesis
    by (simp add: HDR_LEN_def)
qed simp

text \<open>
  No file of another length is accepted: a truncated file and a file with trailing bytes
  are errors, whatever their contents.
\<close>

theorem wrong_length_never_loads:
  assumes "length raw \<noteq> 56 + 4 * unat (div_ceil dsize gr)"
  shows "is_err (load urandom (Some raw) dsize gr)"
  by (rule load_wrong_length [OF assms])

theorem wrong_length_never_loads_witness:
  "is_err (load (Some []) (Some (meta_bytes True ex_era @ [0])) 14336 4096)"
proof (rule wrong_length_never_loads)
  show "length (meta_bytes True ex_era @ [0]) \<noteq> 56 + 4 * unat (div_ceil 14336 4096)"
    by (simp add: length_meta_bytes HDR_LEN_def ex_era_def div_ceil_def)
qed

text \<open>
  C11. Crash safety of a save while the device is attached. Let the file hold an unclean save
  of a map of the same shape (the attach marker or an earlier checkpoint). In every state a
  crash can leave during the next unclean save, at any byte of the write and on either side
  of the rename, the file loads, is reported unclean, and after \<open>mark_all_dirty\<close> a query
  with any cursor of that history returns the whole device.
\<close>

theorem crash_during_save_degrades:
  assumes "era_wf s0" and "same_shape s0 s" and "0 < dev_size s0" and "tmp_of p \<noteq> p"
    and "fs p = Some (meta_bytes False s0)"
    and "f \<in> set (crash_states (save_ops p (meta_bytes False s)) fs)"
  shows "\<exists>x. load (Some rnd) (f p) (dev_size s0) (granularity s0) = Inr (x, False) \<and>
    x \<in> {s0, s} \<and>
    (\<forall>since < current_era x.
       ranges_since (mark_all_dirty x) since = [\<lparr>dr_offset = 0, dr_len = dev_size s0\<rparr>])"
proof -
  have wf: "era_wf s" by (rule same_shape_wf [OF assms(2,1)])
  have same: "dev_size s = dev_size s0" "granularity s = granularity s0"
    using assms(2) by (simp_all add: same_shape_def)
  have "f p = Some (meta_bytes False s0) \<or> f p = Some (meta_bytes False s)"
    using crash_states_save [OF assms(6)] assms(4,5) by auto
  then obtain x where x: "f p = Some (meta_bytes False x)" "x \<in> {s0, s}" by blast
  with wf assms(1) have "era_wf x" by blast
  moreover have dims: "dev_size x = dev_size s0" "granularity x = granularity s0"
    using x(2) same by auto
  ultimately have "load (Some rnd) (f p) (dev_size s0) (granularity s0) = Inr (x, False)"
    using load_meta_bytes [of x rnd False] x(1) by simp
  moreover have "ranges_since (mark_all_dirty x) since = [\<lparr>dr_offset = 0, dr_len = dev_size s0\<rparr>]"
    if "since < current_era x" for since
    using all_dirty_ranges [OF \<open>era_wf x\<close> _ that] assms(3) dims by simp
  ultimately show ?thesis using x(2) by blast
qed

theorem crash_during_save_degrades_witness:
  "\<exists>x. load (Some []) ([([], ''a.meta'') \<mapsto> meta_bytes False ex_era,
        ([], ''a.tmp'') \<mapsto> take 17 (meta_bytes False (ex_era\<lparr>current_era := 2\<rparr>))] ([], ''a.meta''))
      14336 4096 = Inr (x, False) \<and>
    ranges_since (mark_all_dirty x) 0 = [\<lparr>dr_offset = 0, dr_len = 14336\<rparr>]"
proof -
  let ?p = "([], ''a.meta'') :: path" and ?s = "ex_era\<lparr>current_era := 2\<rparr>"
  let ?fs = "[?p \<mapsto> meta_bytes False ex_era]" and ?buf = "meta_bytes False ?s"
  let ?f = "?fs(([], ''a.tmp'') \<mapsto> take 17 ?buf)"
  have tmp: "tmp_of ?p = ([], ''a.tmp'')"
    by (simp add: tmp_of_def with_extension_def file_stem_def)
  have "17 < length ?buf" by (simp add: length_meta_bytes HDR_LEN_def)
  then have "?f \<in> set (crash_states (save_ops ?p ?buf) ?fs)"
    by (auto simp: save_ops_def tmp)
  moreover have "same_shape ex_era ?s" by (simp add: same_shape_def)
  ultimately obtain x where x: "load (Some []) (?f ?p) (dev_size ex_era) (granularity ex_era)
      = Inr (x, False)" "x \<in> {ex_era, ?s}"
    and full: "\<forall>since < current_era x.
       ranges_since (mark_all_dirty x) since = [\<lparr>dr_offset = 0, dr_len = dev_size ex_era\<rparr>]"
    using crash_during_save_degrades [OF ex_era_wf, of ?s ?p ?fs ?f "[]"] tmp
    by (auto simp: ex_era_def)
  have "0 < current_era x" using x(2) by (auto simp: ex_era_def)
  with x(1) full show ?thesis by (auto simp: ex_era_def)
qed

text \<open>
  A failed \<open>save\<close> leaves the metadata file as it was, and no \<open>save\<close> touches a
  file other than the metadata file and its temporary.
\<close>

theorem save_failure_keeps_file:
  assumes "tmp_of p \<noteq> p"
  shows "(snd (save fault p clean s fs) \<noteq> Inr () \<longrightarrow> fst (save fault p clean s fs) p = fs p) \<and>
    (\<forall>q. q \<noteq> p \<and> q \<noteq> tmp_of p \<longrightarrow> fst (save fault p clean s fs) q = fs q)"
  using save_failed_keeps [of fault p clean s fs, OF _ assms] save_other_path
  by (cases "snd (save fault p clean s fs)") auto

theorem save_failure_keeps_file_witness:
  "fst (save (Some (WriteFails 3)) ([], ''a.meta'') False ex_era [([], ''a.meta'') \<mapsto> [1, 2]])
     ([], ''a.meta'') = Some [1, 2]"
proof -
  have "tmp_of ([], ''a.meta'') \<noteq> ([], ''a.meta'')"
    by (simp add: tmp_of_def with_extension_def file_stem_def)
  from save_failure_keeps_file [OF this, of "Some (WriteFails 3)" False ex_era
      "[([], ''a.meta'') \<mapsto> [1, 2]]"]
  show ?thesis by (simp add: save_def Let_def)
qed

text \<open>
  C16. The temporary's name does not depend on the extension of the metadata file, so two
  metadata files of one directory that differ only there share it. If the save of the second
  runs between the write and the rename of the first, the rename installs the second
  device's history under the first device's name.
\<close>

theorem shared_tmp_swaps_histories:
  assumes "stem \<noteq> []" and "CHR ''.'' \<notin> set e1" and "CHR ''.'' \<notin> set e2" and "e1 \<noteq> e2"
    and p1_def: "p1 = (dir, stem @ ''.'' @ e1)" and p2_def: "p2 = (dir, stem @ ''.'' @ e2)"
  shows "tmp_of p1 = tmp_of p2 \<and> p1 \<noteq> p2 \<and>
    fold fs_do (take 3 (save_ops p1 b1) @ take 3 (save_ops p2 b2) @ drop 3 (save_ops p1 b1)) fs p1
      = Some b2"
proof -
  have stem: "file_stem (stem @ ''.'' @ e) = stem" if "CHR ''.'' \<notin> set e" for e
  proof -
    have "dropWhile (\<lambda>c. c \<noteq> CHR ''.'') (rev e @ CHR ''.'' # rev stem) = CHR ''.'' # rev stem"
      using that by (subst dropWhile_append2) auto
    then show ?thesis using assms(1) by (simp add: file_stem_def)
  qed
  then have "tmp_of p1 = tmp_of p2"
    using assms(2,3) by (simp add: p1_def p2_def tmp_of_def with_extension_def)
  then show ?thesis
    using assms(4) by (simp add: save_ops_def) (simp add: p1_def p2_def)
qed

theorem shared_tmp_swaps_histories_witness:
  "fold fs_do (take 3 (save_ops ([], ''d.m1'') [1]) @ take 3 (save_ops ([], ''d.m2'') [2]) @
      drop 3 (save_ops ([], ''d.m1'') [1])) Map.empty ([], ''d.m1'') = Some [2]"
  using shared_tmp_swaps_histories [of "''d''" "''m1''" "''m2''" "([], ''d.m1'')" "[]" "([], ''d.m2'')"
      "[1]" "[2]" Map.empty]
  by simp

end
