(* ===== verification/Era_Tests.thy ===== *)
theory Era_Tests
  imports Meta "HOL-Library.Monad_Syntax"
begin

text \<open>
  The unit tests of \<^verbatim>\<open>src/src/era.rs\<close>, translated: a test is a computation that ends with
  \<open>Some ()\<close>, a failed assertion or \<open>unwrap\<close> is \<open>None\<close>. Each is proved to pass on the model, for
  every random generation and whatever the temporary directory holds.
\<close>

section \<open>The tests\<close>

definition assert_that :: "bool \<Rightarrow> unit option" where
  "assert_that b = (if b then Some () else None)"

definition unwrap :: "'e + 'a \<Rightarrow> 'a option" where
  "unwrap r = case_sum (\<lambda>_. None) Some r"

lemma assert_that_simps [simp]: "assert_that True = Some ()" "assert_that False = None"
  by (simp_all add: assert_that_def)

lemma assert_passes [simp]: "assert_that b = Some u \<longleftrightarrow> b"
  by (simp add: assert_that_def)

lemma unwrap_simps [simp]: "unwrap (Inr x) = Some x" "unwrap (Inl e) = None"
  by (simp_all add: unwrap_def)

abbreviation KiB64 :: u64 where
  "KiB64 \<equiv> 65536"

text \<open>The files of a test in its temporary directory.\<close>

abbreviation meta_bin :: "string list \<Rightarrow> path" where
  "meta_bin dir \<equiv> (dir, ''meta.bin'')"

abbreviation scratch_bin :: "string list \<Rightarrow> path" where
  "scratch_bin dir \<equiv> (dir, ''scratch.bin'')"

definition test_mark_and_query :: "u8 list \<Rightarrow> unit option" where
  "test_mark_and_query rnd = do {
     s \<leftarrow> unwrap (era_new (Some rnd) (2 ^ 20) KiB64);
     assert_that (nr_chunks s = 16);
     s \<leftarrow> mark_write 0 100 s;
     s \<leftarrow> mark_write (KiB64 * 2 + 10) KiB64 s;
     let r = ranges_since s 0;
     assert_that (length r = 2);
     assert_that (dr_offset (r ! 0) = 0 \<and> dr_len (r ! 0) = KiB64);
     assert_that (dr_offset (r ! 1) = KiB64 * 2 \<and> dr_len (r ! 1) = KiB64 * 2);
     let (s, (closed, now)) = checkpoint s;
     assert_that (closed = 1 \<and> now = 2);
     assert_that (ranges_since s closed = []);
     s \<leftarrow> mark_write (KiB64 * 5) 1 s;
     let r = ranges_since s closed;
     assert_that (length r = 1);
     assert_that (dr_offset (r ! 0) = KiB64 * 5)
   }"

definition test_save_load_roundtrip :: "u8 list \<Rightarrow> u8 list \<Rightarrow> string list \<Rightarrow> fs \<Rightarrow> unit option" where
  "test_save_load_roundtrip rnd rnd' dir fs = do {
     s \<leftarrow> unwrap (era_new (Some rnd) (2 ^ 20) KiB64);
     s \<leftarrow> mark_write (KiB64 * 7) 4096 s;
     let s = fst (checkpoint s);
     let (fs, r) = save None (meta_bin dir) True s fs;
     unwrap r;
     (l, clean) \<leftarrow> unwrap (load (Some rnd') (fs (meta_bin dir)) (2 ^ 20) KiB64);
     assert_that clean;
     assert_that (current_era l = 2);
     let r = ranges_since l 0;
     assert_that (length r = 1);
     assert_that (dr_offset (r ! 0) = KiB64 * 7);
     assert_that (is_err (load (Some rnd') (fs (meta_bin dir)) (2 ^ 21) KiB64))
   }"

definition dirty_bytes :: "dirty_range list \<Rightarrow> u64" where
  "dirty_bytes rs = sum_list (map dr_len rs)"

definition test_unclean_load_falls_back :: "u8 list \<Rightarrow> u8 list \<Rightarrow> string list \<Rightarrow> fs \<Rightarrow> unit option" where
  "test_unclean_load_falls_back rnd rnd' dir fs = do {
     s \<leftarrow> unwrap (era_new (Some rnd) (2 ^ 20) KiB64);
     s \<leftarrow> mark_write 0 1 s;
     let s = fst (checkpoint s);
     let (fs, r) = save None (meta_bin dir) False s fs;
     unwrap r;
     (l, clean) \<leftarrow> unwrap (load (Some rnd') (fs (meta_bin dir)) (2 ^ 20) KiB64);
     assert_that (\<not> clean);
     let l = mark_all_dirty l;
     assert_that (dirty_bytes (ranges_since l 1) = 2 ^ 20)
   }"

text \<open>The loops over the cuts and the bytes; each iteration starts from the files the last one left.\<close>

fun crash_cuts :: "u8 list \<Rightarrow> path \<Rightarrow> u8 list \<Rightarrow> u8 list \<Rightarrow> nat list \<Rightarrow> fs \<Rightarrow> unit option" where
  "crash_cuts rnd p marker newer [] fs = Some ()"
| "crash_cuts rnd p marker newer (k # ks) fs = do {
     let fs = fs(p \<mapsto> marker, tmp_of p \<mapsto> take k newer);
     (l, clean) \<leftarrow> unwrap (load (Some rnd) (fs p) (2 ^ 20) KiB64);
     assert_that (\<not> clean);
     let l = mark_all_dirty l;
     assert_that (dirty_bytes (ranges_since l 0) = 2 ^ 20);
     let (fs, r) = save None p False l fs;
     unwrap r;
     crash_cuts rnd p marker newer ks fs
   }"

definition test_crash_at_every_byte :: "u8 list \<Rightarrow> u8 list \<Rightarrow> string list \<Rightarrow> fs \<Rightarrow> unit option" where
  "test_crash_at_every_byte rnd rnd' dir fs = do {
     s \<leftarrow> unwrap (era_new (Some rnd) (2 ^ 20) KiB64);
     s \<leftarrow> mark_write 0 1 s;
     let (fs, r) = save None (meta_bin dir) False s fs;
     unwrap r;
     marker \<leftarrow> fs (meta_bin dir);
     let s = fst (checkpoint s);
     s \<leftarrow> mark_write (KiB64 * 3) 1 s;
     let (fs, r) = save None (scratch_bin dir) False s fs;
     unwrap r;
     newer \<leftarrow> fs (scratch_bin dir);
     crash_cuts rnd' (meta_bin dir) marker newer [0..<Suc (length newer)] fs
   }"

fun truncations :: "u8 list \<Rightarrow> path \<Rightarrow> u8 list \<Rightarrow> nat list \<Rightarrow> fs \<Rightarrow> unit option" where
  "truncations rnd p full [] fs = Some ()"
| "truncations rnd p full (k # ks) fs = do {
     let fs = fs(p \<mapsto> take k full);
     assert_that (is_err (load (Some rnd) (fs p) (2 ^ 20) KiB64));
     truncations rnd p full ks fs
   }"

definition test_truncated_metadata :: "u8 list \<Rightarrow> u8 list \<Rightarrow> string list \<Rightarrow> fs \<Rightarrow> unit option" where
  "test_truncated_metadata rnd rnd' dir fs = do {
     s \<leftarrow> unwrap (era_new (Some rnd) (2 ^ 20) KiB64);
     s \<leftarrow> mark_write 0 1 s;
     let (fs, r) = save None (meta_bin dir) True s fs;
     unwrap r;
     full \<leftarrow> fs (meta_bin dir);
     truncations rnd' (meta_bin dir) full [0..<length full] fs
   }"

fun flips :: "u8 list \<Rightarrow> path \<Rightarrow> u8 list \<Rightarrow> nat list \<Rightarrow> fs \<Rightarrow> fs option" where
  "flips rnd p full [] fs = Some fs"
| "flips rnd p full (i # is) fs = do {
     let fs = fs(p \<mapsto> full[i := (full ! i) XOR 0xFF]);
     assert_that (is_err (load (Some rnd) (fs p) (2 ^ 20) KiB64));
     flips rnd p full is fs
   }"

definition test_corrupted_metadata :: "u8 list \<Rightarrow> u8 list \<Rightarrow> string list \<Rightarrow> fs \<Rightarrow> unit option" where
  "test_corrupted_metadata rnd rnd' dir fs = do {
     s \<leftarrow> unwrap (era_new (Some rnd) (2 ^ 20) KiB64);
     s \<leftarrow> mark_write (KiB64 * 3) 1 s;
     let s = fst (checkpoint s);
     let (fs, r) = save None (meta_bin dir) True s fs;
     unwrap r;
     full \<leftarrow> fs (meta_bin dir);
     fs \<leftarrow> flips rnd' (meta_bin dir) full [0..<length full] fs;
     let fs = fs(meta_bin dir \<mapsto> full @ [0]);
     assert_that (is_err (load (Some rnd') (fs (meta_bin dir)) (2 ^ 20) KiB64))
   }"

definition test_tail_chunk_clamped :: "u8 list \<Rightarrow> unit option" where
  "test_tail_chunk_clamped rnd = do {
     s \<leftarrow> unwrap (era_new (Some rnd) (2 ^ 20 + 4096) KiB64);
     assert_that (nr_chunks s = 17);
     s \<leftarrow> mark_write (2 ^ 20) 4096 s;
     let r = ranges_since s 0;
     assert_that (dr_len (r ! 0) = 4096)
   }"

section \<open>They pass\<close>

text \<open>The map of a fresh device of 1 MiB in 16 chunks, after some chunks were stamped.\<close>

definition map16 :: "u8 list \<Rightarrow> u32 \<Rightarrow> u32 list \<Rightarrow> era_state" where
  "map16 rnd cur es = \<lparr>granularity = 65536, dev_size = 1048576, generation = from_le_bytes rnd,
     current_era = cur, eras = es\<rparr>"

lemma two64K: "is_power_of_two 65536"
  using is_power_of_two_exp [of 16] by simp

lemma zeros:
  "replicate 16 0 = [0, 0, 0, 0, 0, 0, 0, 0, 0, 0, 0, 0, 0, 0, 0, 0 :: u32]"
  "replicate 17 0 = [0, 0, 0, 0, 0, 0, 0, 0, 0, 0, 0, 0, 0, 0, 0, 0, 0 :: u32]"
  by (simp_all add: numeral_eq_Suc)

lemma new16: "era_new (Some rnd) 1048576 65536 = Inr (map16 rnd 1 [0, 0, 0, 0, 0, 0, 0, 0, 0, 0, 0, 0, 0, 0, 0, 0])"
  using two64K by (simp add: era_new_def map16_def div_ceil_def Let_def zeros)

lemma map16_wf: "length es = 16 \<Longrightarrow> era_wf (map16 rnd cur es)"
  using two64K by (simp add: era_wf_def map16_def div_ceil_def Let_def)

lemma map16_simps [simp]:
  "granularity (map16 rnd cur es) = 65536" "dev_size (map16 rnd cur es) = 1048576"
  "current_era (map16 rnd cur es) = cur" "eras (map16 rnd cur es) = es"
  "checkpoint (map16 rnd cur es) = (map16 rnd (cur + 1) es, (cur, cur + 1))"
  by (simp_all add: map16_def checkpoint_def Let_def)

lemma mark16:
  assumes "length es = 16" and "unat off + unat len \<le> 1048576" and "len \<noteq> 0"
  shows "mark_write off len (map16 rnd cur es) =
    Some (map16 rnd cur (stamp (unat off div 65536) ((unat off + unat len - 1) div 65536) cur es))"
proof -
  have "in_device (map16 rnd cur es) off len" using assms(2) by (simp add: in_device_def)
  from mark_slice_in_range [OF map16_wf [OF assms(1)] assms(3) this]
  show ?thesis by (simp add: mark_write_def map16_def)
qed

lemma load16:
  assumes "length es = 16"
  shows "load (Some rnd') (Some (meta_bytes clean (map16 rnd cur es))) 1048576 65536 = Inr (map16 rnd cur es, clean)"
  using load_meta_bytes [OF map16_wf [OF assms], of rnd' clean rnd cur] by simp

lemmas compute16 = new16 mark16 ranges_since_def range_step_def stamp_def fetch_max_def Let_def
  word_le_nat_alt

lemma mark_and_query_passes: "test_mark_and_query rnd = Some ()"
  by (simp add: test_mark_and_query_def compute16 nr_chunks_def)

lemma tail_chunk_clamped_passes: "test_tail_chunk_clamped rnd = Some ()"
proof -
  have "era_new (Some rnd) 1052672 65536 = Inr \<lparr>granularity = 65536, dev_size = 1052672,
      generation = from_le_bytes rnd, current_era = 1, eras = replicate 17 0\<rparr>"
    using two64K by (simp add: era_new_def div_ceil_def Let_def)
  then show ?thesis
    by (simp add: test_tail_chunk_clamped_def compute16 nr_chunks_def mark_write_def mark_slice_def zeros)
qed

lemma save_load_roundtrip_passes: "test_save_load_roundtrip rnd rnd' dir fs = Some ()"
proof -
  have "is_err (load (Some rnd') (Some (meta_bytes True (map16 rnd cur es))) 2097152 65536)"
    if "length es = 16" for cur es
    by (rule load_wrong_length) (simp add: length_meta_bytes HDR_LEN_def that div_ceil_def)
  then show ?thesis
    by (simp add: test_save_load_roundtrip_def compute16 save_ok load16)
qed

lemma all_dirty16:
  assumes "length es = 16" and "since < cur"
  shows "dirty_bytes (ranges_since (mark_all_dirty (map16 rnd cur es)) since) = 1048576"
  using all_dirty_ranges [OF map16_wf [OF assms(1)], of rnd cur since] assms(2) by (simp add: dirty_bytes_def)

lemma unclean_load_falls_back_passes: "test_unclean_load_falls_back rnd rnd' dir fs = Some ()"
  by (simp add: test_unclean_load_falls_back_def new16 mark16 save_ok load16 all_dirty16 stamp_def fetch_max_def)

lemma meta_tmp: "tmp_of (meta_bin dir) = (dir, ''meta.tmp'')" "tmp_of (scratch_bin dir) = (dir, ''scratch.tmp'')"
  by (simp_all add: tmp_of_def with_extension_def file_stem_def)

lemma crash_cuts_pass:
  assumes "length es = 16" and "0 < cur" and "tmp_of p \<noteq> p"
  shows "crash_cuts rnd' p (meta_bytes False (map16 rnd cur es)) newer ks fs = Some ()"
proof (induction ks arbitrary: fs)
  case (Cons k ks)
  then show ?case
    using assms by (simp add: load16 all_dirty16 save_ok)
qed simp

lemma crash_at_every_byte_passes: "test_crash_at_every_byte rnd rnd' dir fs = Some ()"
  by (simp add: test_crash_at_every_byte_def new16 mark16 save_ok stamp_def fetch_max_def crash_cuts_pass meta_tmp)

lemma truncations_pass:
  assumes "length full = 120" and "\<forall>k\<in>set ks. k < 120"
  shows "truncations rnd p full ks fs = Some ()"
  using assms(2)
proof (induction ks arbitrary: fs)
  case (Cons k ks)
  have "is_err (load (Some rnd) (Some (take k full)) 1048576 65536)"
    by (rule load_wrong_length) (use Cons.prems assms(1) in \<open>simp add: div_ceil_def\<close>)
  then show ?case using Cons by simp
qed simp

lemma truncated_metadata_passes: "test_truncated_metadata rnd rnd' dir fs = Some ()"
proof -
  have "length (meta_bytes True (map16 rnd cur es)) = 120" if "length es = 16" for cur es
    by (simp add: length_meta_bytes HDR_LEN_def that)
  then show ?thesis
    by (simp add: test_truncated_metadata_def new16 mark16 save_ok stamp_def fetch_max_def truncations_pass)
qed

lemma flips_pass:
  assumes "load urandom (Some full) dsize gr = Inr x" and "\<forall>i\<in>set is. i < length full"
  shows "\<exists>fs'. flips rnd p full is fs = Some fs'"
  using assms(2)
proof (induction "is" arbitrary: fs)
  case (Cons i "is")
  have "full ! i XOR 0 \<noteq> full ! i XOR 0xFF" unfolding xor_left_cancel by simp
  then have "is_err (load (Some rnd) (Some (full[i := full ! i XOR 0xFF])) 1048576 65536)"
    using Cons.prems by (intro load_corrupted [OF assms(1)]) simp_all
  then show ?case using Cons by simp
qed simp

lemma corrupted_metadata_passes: "test_corrupted_metadata rnd rnd' dir fs = Some ()"
proof -
  have ok: "Option.bind (flips rnd' p (meta_bytes True (map16 rnd cur es))
      [0..<length (meta_bytes True (map16 rnd cur es))] fs) (\<lambda>_. Some ()) = Some ()"
    if "length es = 16" for p cur es fs
    using flips_pass [OF load16 [OF that, of rnd' True rnd cur],
      of "[0..<length (meta_bytes True (map16 rnd cur es))]" rnd' p fs] by auto
  have "is_err (load (Some rnd') (Some (meta_bytes True (map16 rnd cur es) @ [0])) 1048576 65536)"
    if "length es = 16" for cur es
    by (rule load_wrong_length) (simp add: length_meta_bytes HDR_LEN_def that div_ceil_def)
  then show ?thesis
    using ok
    by (simp add: test_corrupted_metadata_def new16 mark16 save_ok stamp_def fetch_max_def Let_def)
qed

section \<open>Properties\<close>

text \<open>
  The unit tests of the era map pass on the model, whatever the random generations are and
  whatever the temporary directory holds: marking and querying, the metadata round trip, the
  fall-back to a full copy after an unclean shutdown, the simulated crash at every byte of a save,
  the rejection of every truncation and of every flipped byte, and the clamped last chunk.
\<close>

theorem era_tests_pass:
  "test_mark_and_query rnd = Some () \<and>
   test_save_load_roundtrip rnd rnd' dir fs = Some () \<and>
   test_unclean_load_falls_back rnd rnd' dir fs = Some () \<and>
   test_crash_at_every_byte rnd rnd' dir fs = Some () \<and>
   test_truncated_metadata rnd rnd' dir fs = Some () \<and>
   test_corrupted_metadata rnd rnd' dir fs = Some () \<and>
   test_tail_chunk_clamped rnd = Some ()"
  by (simp add: mark_and_query_passes save_load_roundtrip_passes unclean_load_falls_back_passes
      crash_at_every_byte_passes truncated_metadata_passes corrupted_metadata_passes tail_chunk_clamped_passes)

end
