(* ===== verification/Rust_Str.thy ===== *)
theory Rust_Str
  imports Ublk_Prelude
begin

text \<open>
  The string operations of the Rust standard library that the sources use, on ASCII text:
  \<open>str::trim\<close>, \<open>split_once\<close>, \<open>split_whitespace\<close>, \<open>parse::<u64>\<close>,
  \<open>u64::from_str_radix\<close>, the format \<open>{:016x}\<close> and \<open>to_string\<close> of a number, and the
  size arguments with a K, M or G suffix that the two command lines and the scenario files
  share (\<open>parse_size\<close>).
\<close>

section \<open>The code\<close>

definition is_whitespace :: "char \<Rightarrow> bool" where
  "is_whitespace c \<longleftrightarrow> of_char c \<in> {9, 10, 11, 12, 13, 32 :: nat}"

definition trim_start :: "string \<Rightarrow> string" where
  "trim_start s = dropWhile is_whitespace s"

definition trim :: "string \<Rightarrow> string" where
  "trim s = rev (trim_start (rev (trim_start s)))"

text \<open>\<open>split_once\<close> at the first character that satisfies \<open>p\<close>, which is dropped.\<close>

definition split_once :: "(char \<Rightarrow> bool) \<Rightarrow> string \<Rightarrow> (string \<times> string) option" where
  "split_once p s = (case dropWhile (\<lambda>c. \<not> p c) s of
      [] \<Rightarrow> None
    | _ # rest \<Rightarrow> Some (takeWhile (\<lambda>c. \<not> p c) s, rest))"

function split_whitespace :: "string \<Rightarrow> string list" where
  "split_whitespace s =
     (let t = trim_start s in
      if t = [] then []
      else takeWhile (\<lambda>c. \<not> is_whitespace c) t #
           split_whitespace (dropWhile (\<lambda>c. \<not> is_whitespace c) t))"
  by pat_completeness auto
termination
proof (relation "measure length", simp)
  fix s t :: string
  assume t: "t = trim_start s" and ne: "t \<noteq> []"
  have "length t \<le> length s" by (simp add: t trim_start_def length_dropWhile_le)
  moreover have "\<not> is_whitespace (hd t)" using ne unfolding t trim_start_def by (rule hd_dropWhile)
  then have "length (dropWhile (\<lambda>c. \<not> is_whitespace c) t) < length t"
    using ne by (cases t) (simp_all add: le_imp_less_Suc length_dropWhile_le)
  ultimately show "(dropWhile (\<lambda>c. \<not> is_whitespace c) t, s) \<in> measure length" by simp
qed

declare split_whitespace.simps [simp del]

text \<open>\<open>char::to_digit\<close>, and the digit loop of \<open>from_str_radix\<close> with its overflow checks.\<close>

definition to_digit :: "nat \<Rightarrow> char \<Rightarrow> nat option" where
  "to_digit radix c =
     (let n = of_char c :: nat;
          d = (if 48 \<le> n \<and> n \<le> 57 then n - 48
               else if 97 \<le> n \<and> n \<le> 122 then n - 87
               else if 65 \<le> n \<and> n \<le> 90 then n - 55 else radix)
      in if d < radix then Some d else None)"

fun parse_digits :: "nat \<Rightarrow> nat \<Rightarrow> string \<Rightarrow> nat option" where
  "parse_digits radix acc [] = Some acc"
| "parse_digits radix acc (c # cs) = (case to_digit radix c of
      None \<Rightarrow> None
    | Some d \<Rightarrow> if acc * radix + d < 2 ^ 64 then parse_digits radix (acc * radix + d) cs else None)"

definition from_str_radix :: "nat \<Rightarrow> string \<Rightarrow> u64 option" where
  "from_str_radix radix s =
     (if s = [] \<or> s = ''+'' \<or> s = ''-'' then None
      else map_option of_nat (parse_digits radix 0 (if hd s = CHR ''+'' then tl s else s)))"

definition parse_u64 :: "string \<Rightarrow> u64 option" where
  "parse_u64 s = from_str_radix 10 s"

text \<open>Numbers as text: \<open>decimal\<close> is \<open>to_string\<close>, \<open>hex16\<close> is \<open>{:016x}\<close>.\<close>

definition digit_char :: "nat \<Rightarrow> char" where
  "digit_char d = char_of (if d < 10 then 48 + d else 87 + d)"

fun digits_rev :: "nat \<Rightarrow> nat \<Rightarrow> nat \<Rightarrow> string" where
  "digits_rev radix 0 n = []"
| "digits_rev radix (Suc k) n = digit_char (n mod radix) # digits_rev radix k (n div radix)"

definition hex16 :: "u64 \<Rightarrow> string" where
  "hex16 w = rev (digits_rev 16 16 (unat w))"

fun decimal :: "nat \<Rightarrow> string" where
  "decimal n = (if n < 10 then [digit_char n] else decimal (n div 10) @ [digit_char (n mod 10)])"

declare decimal.simps [simp del]

text \<open>
  \<open>parse_size\<close>: the number before the suffix, times the suffix. The product is a plain
  \<open>*\<close>, which wraps in a release build.
\<close>

definition size_suffix :: "string \<Rightarrow> string \<times> u64" where
  "size_suffix s =
     (if s = [] then (s, 1)
      else if last s \<in> {CHR ''K'', CHR ''k''} then (butlast s, 2 ^ 10)
      else if last s \<in> {CHR ''M'', CHR ''m''} then (butlast s, 2 ^ 20)
      else if last s \<in> {CHR ''G'', CHR ''g''} then (butlast s, 2 ^ 30)
      else (s, 1))"

definition parse_size_raw :: "string \<Rightarrow> u64 option" where
  "parse_size_raw s = (case size_suffix s of (num, mult) \<Rightarrow>
     map_option (\<lambda>n. n * mult) (parse_u64 num))"

definition parse_size :: "string \<Rightarrow> u64 option" where
  "parse_size s = parse_size_raw (trim s)"

section \<open>Digits\<close>

lemma to_digit_digit_char:
  assumes "d < radix" and "radix \<le> 36"
  shows "to_digit radix (digit_char d) = Some d"
proof -
  have "of_char (digit_char d) = (if d < 10 then 48 + d else 87 + d)"
    using assms by (simp add: digit_char_def of_char_of)
  with assms show ?thesis by (auto simp: to_digit_def Let_def)
qed

fun digits_value :: "nat \<Rightarrow> nat \<Rightarrow> nat list \<Rightarrow> nat" where
  "digits_value radix acc [] = acc"
| "digits_value radix acc (d # ds) = digits_value radix (acc * radix + d) ds"

lemma digits_value_ge: "0 < radix \<Longrightarrow> acc \<le> digits_value radix acc ds"
proof (induction ds arbitrary: acc)
  case (Cons d ds)
  have "acc \<le> acc * radix + d" using Cons.prems by (simp add: trans_le_add1)
  also have "\<dots> \<le> digits_value radix (acc * radix + d) ds" by (rule Cons.IH [OF Cons.prems])
  finally show ?case by simp
qed simp

text \<open>The loop accepts exactly the digit strings whose value fits in 64 bits.\<close>

lemma parse_digits_value:
  assumes "map (to_digit radix) cs = map Some ds" and "0 < radix" and "acc < 2 ^ 64"
  shows "parse_digits radix acc cs =
    (if digits_value radix acc ds < 2 ^ 64 then Some (digits_value radix acc ds) else None)"
  using assms
proof (induction cs arbitrary: acc ds)
  case Nil
  then show ?case by simp
next
  case (Cons c cs)
  then obtain d ds' where ds: "ds = d # ds'" "to_digit radix c = Some d"
      "map (to_digit radix) cs = map Some ds'"
    by (cases ds) auto
  show ?case
  proof (cases "acc * radix + d < 2 ^ 64")
    case True
    with Cons.IH [OF ds(3) Cons.prems(2) True] show ?thesis by (simp add: ds)
  next
    case False
    moreover have "acc * radix + d \<le> digits_value radix (acc * radix + d) ds'"
      using Cons.prems(2) by (rule digits_value_ge)
    ultimately show ?thesis by (simp add: ds)
  qed
qed

lemma digits_value_append:
  "digits_value radix acc (xs @ [d]) = digits_value radix acc xs * radix + d"
  by (induction xs arbitrary: acc) simp_all

fun digit_list :: "nat \<Rightarrow> nat \<Rightarrow> nat \<Rightarrow> nat list" where
  "digit_list radix 0 n = []"
| "digit_list radix (Suc k) n = n mod radix # digit_list radix k (n div radix)"

lemma digits_rev_list: "digits_rev radix k n = map digit_char (digit_list radix k n)"
  by (induction k arbitrary: n) simp_all

lemma digit_list_bound: "0 < radix \<Longrightarrow> \<forall>d\<in>set (digit_list radix k n). d < radix"
  by (induction k arbitrary: n) simp_all

lemma digit_list_value: "digits_value radix 0 (rev (digit_list radix k n)) = n mod radix ^ k"
proof (induction k arbitrary: n)
  case (Suc k)
  have "n mod (radix * radix ^ k) = radix * (n div radix mod radix ^ k) + n mod radix"
    by (rule mod_mult2_eq)
  then show ?case using Suc by (simp add: digits_value_append mult.commute)
qed simp

lemma length_digits_rev [simp]: "length (digits_rev radix k n) = k"
  by (induction k arbitrary: n) simp_all

lemma parse_hex16: "from_str_radix 16 (hex16 w) = Some w"
proof -
  let ?ds = "rev (digit_list 16 16 (unat w))"
  have h: "hex16 w = map digit_char ?ds" by (simp add: hex16_def digits_rev_list rev_map)
  have "to_digit 16 (digit_char d) = Some d" if "d \<in> set ?ds" for d
    using that digit_list_bound [of 16 16 "unat w"] by (intro to_digit_digit_char) auto
  then have ds: "map (to_digit 16) (hex16 w) = map Some ?ds" unfolding h by simp
  have val: "digits_value 16 0 ?ds = unat w"
    using unat_u64_less [of w] by (simp only: digit_list_value) simp
  have len: "length (hex16 w) = 16" by (simp add: hex16_def)
  then obtain c cs where c: "hex16 w = c # cs" by (cases "hex16 w") auto
  have "to_digit 16 c \<noteq> None" using ds c by (cases ?ds) auto
  then have "c \<noteq> CHR ''+''" by (auto simp: to_digit_def)
  then have "hd (hex16 w) \<noteq> CHR ''+''" by (simp add: c)
  moreover have "parse_digits 16 0 (hex16 w) = Some (unat w)"
    using parse_digits_value [OF ds] val unat_u64_less [of w] by simp
  ultimately show ?thesis
    using len by (auto simp: from_str_radix_def)
qed

lemma digit_not_sign: "to_digit 10 c = Some d \<Longrightarrow> c \<noteq> CHR ''+'' \<and> c \<noteq> CHR ''-''"
  by (auto simp: to_digit_def)

lemma digit_not_space: "to_digit 10 c = Some d \<Longrightarrow> \<not> is_whitespace c"
  by (auto simp: to_digit_def is_whitespace_def Let_def split: if_splits)

lemma parse_u64_digits:
  assumes "map (to_digit 10) cs = map Some ds" and "cs \<noteq> []" and "digits_value 10 0 ds < 2 ^ 64"
  shows "parse_u64 cs = Some (of_nat (digits_value 10 0 ds))"
proof -
  obtain c cs' where c: "cs = c # cs'" using assms(2) by (cases cs) auto
  then obtain d where "to_digit 10 c = Some d" using assms(1) by (cases ds) auto
  then have "c \<noteq> CHR ''+''" "c \<noteq> CHR ''-''" by (simp_all add: digit_not_sign)
  with c have "cs \<noteq> ''+''" "cs \<noteq> ''-''" "hd cs \<noteq> CHR ''+''" by auto
  then show ?thesis
    using assms parse_digits_value [OF assms(1)] by (simp add: parse_u64_def from_str_radix_def)
qed

fun decimal_digits :: "nat \<Rightarrow> nat list" where
  "decimal_digits n = (if n < 10 then [n] else decimal_digits (n div 10) @ [n mod 10])"

declare decimal_digits.simps [simp del]

lemma decimal_as_digits: "decimal n = map digit_char (decimal_digits n)"
proof (induction n rule: decimal.induct)
  case (1 n)
  then show ?case by (simp add: decimal.simps [of n] decimal_digits.simps [of n])
qed

lemma decimal_digits_bound: "\<forall>d\<in>set (decimal_digits n). d < 10"
proof (induction n rule: decimal_digits.induct)
  case (1 n)
  then show ?case by (simp add: decimal_digits.simps [of n])
qed

lemma decimal_digits_value: "digits_value 10 0 (decimal_digits n) = n"
proof (induction n rule: decimal_digits.induct)
  case (1 n)
  then show ?case by (simp add: decimal_digits.simps [of n] digits_value_append)
qed

lemma decimal_nonempty [simp]: "decimal n \<noteq> []"
  by (simp add: decimal.simps [of n])

lemma decimal_to_digit: "map (to_digit 10) (decimal n) = map Some (decimal_digits n)"
  using decimal_digits_bound [of n] by (simp add: decimal_as_digits to_digit_digit_char)

lemma parse_decimal: "n < 2 ^ 64 \<Longrightarrow> parse_u64 (decimal n) = Some (of_nat n)"
  using parse_u64_digits [OF decimal_to_digit] by (simp add: decimal_digits_value)

lemma trim_around:
  assumes "\<forall>c\<in>set u. is_whitespace c" and "\<forall>c\<in>set v. is_whitespace c"
    and "t \<noteq> []" and "\<not> is_whitespace (hd t)" and "\<not> is_whitespace (last t)"
  shows "trim (u @ t @ v) = t"
proof -
  obtain a x where a: "t = a # x" using assms(3) by (cases t) auto
  obtain y z where z: "t = y @ [z]" using assms(3) by (cases t rule: rev_cases) auto
  have "trim_start (u @ t @ v) = t @ v"
    using assms(1,4) by (simp add: trim_start_def a)
  moreover have "dropWhile is_whitespace (rev v @ rev t) = dropWhile is_whitespace (rev t)"
    using assms(2) by (intro dropWhile_append2) simp
  then have "trim_start (rev v @ rev t) = rev t"
    using assms(5) by (simp add: trim_start_def z)
  ultimately show ?thesis by (simp add: trim_def)
qed

text \<open>A number with no suffix and no space around it is itself.\<close>

lemma decimal_ends:
  "c \<in> set (decimal n) \<Longrightarrow> \<not> is_whitespace c \<and> c \<notin> {CHR ''K'', CHR ''k'', CHR ''M'', CHR ''m'', CHR ''G'', CHR ''g''}"
proof -
  assume "c \<in> set (decimal n)"
  then obtain d where "to_digit 10 c = Some d"
    using decimal_to_digit [of n] by (metis in_set_conv_nth length_map nth_map)
  then show ?thesis
    by (auto simp: digit_not_space) (simp_all add: to_digit_def)
qed

lemma parse_size_decimal: "n < 2 ^ 64 \<Longrightarrow> parse_size (decimal n) = Some (of_nat n)"
proof -
  assume n: "n < 2 ^ 64"
  have "trim ([] @ decimal n @ []) = decimal n"
    by (rule trim_around) (use decimal_ends [OF hd_in_set] decimal_ends [OF last_in_set] in simp_all)
  moreover have "last (decimal n) \<notin> {CHR ''K'', CHR ''k'', CHR ''M'', CHR ''m'', CHR ''G'', CHR ''g''}"
    using decimal_ends [of "last (decimal n)" n] by simp
  then have "size_suffix (decimal n) = (decimal n, 1)" by (simp add: size_suffix_def)
  ultimately show ?thesis
    using parse_decimal [OF n] by (simp add: parse_size_def parse_size_raw_def)
qed

section \<open>Properties\<close>

text \<open>
  Size arguments: a decimal number that fits in 64 bits, followed by K, M or G in either
  case and surrounded by white space, is read as the number times \<open>2 ^ 10\<close>, \<open>2 ^ 20\<close> or
  \<open>2 ^ 30\<close>, reduced modulo \<open>2 ^ 64\<close>.
\<close>

theorem parse_size_value:
  assumes "map (to_digit 10) cs = map Some ds" and "cs \<noteq> []" and "digits_value 10 0 ds < 2 ^ 64"
    and "(c, e) \<in> {(CHR ''K'', 10), (CHR ''k'', 10), (CHR ''M'', 20), (CHR ''m'', 20),
      (CHR ''G'', 30), (CHR ''g'', 30)}"
    and "\<forall>x\<in>set u. is_whitespace x" and "\<forall>x\<in>set v. is_whitespace x"
  shows "\<exists>n. parse_size (u @ (cs @ [c]) @ v) = Some n \<and>
    unat n = digits_value 10 0 ds * 2 ^ e mod 2 ^ 64"
proof -
  obtain b cs' where b: "cs = b # cs'" using assms(2) by (cases cs) auto
  then obtain d where "to_digit 10 b = Some d" using assms(1) by (cases ds) auto
  then have "\<not> is_whitespace (hd (cs @ [c]))" by (simp add: b digit_not_space)
  moreover have "\<not> is_whitespace c" using assms(4) by (auto simp: is_whitespace_def)
  ultimately have "trim (u @ (cs @ [c]) @ v) = cs @ [c]"
    by (intro trim_around [OF assms(5,6)]) simp_all
  moreover have "size_suffix (cs @ [c]) = (cs, 2 ^ e)"
    using assms(4) by (auto simp: size_suffix_def)
  ultimately have "parse_size (u @ (cs @ [c]) @ v) = Some (of_nat (digits_value 10 0 ds) * 2 ^ e)"
    by (simp add: parse_size_def parse_size_raw_def parse_u64_digits [OF assms(1-3)])
  moreover have "unat (of_nat (digits_value 10 0 ds) * 2 ^ e :: u64) = digits_value 10 0 ds * 2 ^ e mod 2 ^ 64"
    using assms(3,4) by (auto simp: unat_word_ariths unat_of_nat)
  ultimately show ?thesis by blast
qed

theorem parse_size_value_witness:
  "\<exists>n. parse_size '' 17179869184G'' = Some n \<and> unat n = 17179869184 * 2 ^ 30 mod 2 ^ 64"
proof -
  let ?cs = "''17179869184''" and ?ds = "[1, 7, 1, 7, 9, 8, 6, 9, 1, 8, 4]"
  have "map (to_digit 10) ?cs = map Some ?ds" by (simp add: to_digit_def)
  from parse_size_value [OF this, of "CHR ''G''" 30 "'' ''" "[]"]
  show ?thesis by (simp add: is_whitespace_def)
qed

text \<open>
  The tracking-history id survives its text form: the sixteen hex digits that \<open>add\<close>,
  \<open>status\<close> and \<open>dump\<close> print are read back by \<open>dump --generation\<close> as the same number.
\<close>

theorem generation_text_roundtrip: "from_str_radix 16 (hex16 g) = Some g \<and> length (hex16 g) = 16"
  using parse_hex16 by (simp add: hex16_def)

end
