(* ===== verification/Io_Queue.thy ===== *)
theory Io_Queue
  imports Ublk_Prelude "HOL-Library.Multiset"
begin

text \<open>
  What \<open>wait_and_handle_io\<close> makes of a queue handler, for both programs: a list of events, each
  handled by one step that returns the completions it issued and the new state, or panics
  (\<open>None\<close>). The locale \<open>io_queue\<close> is the contract between a handler and the loop that drives
  it: an allowed event never panics, and what is completed or still pending afterwards is what
  was pending before and what arrived. It is interpreted for the queues of ublkera
  (\<open>Target_Queue\<close>) and of the fault server (\<open>Fault_Server\<close>).
\<close>

section \<open>Runs of a handler\<close>

fun run_events :: "('e \<Rightarrow> 's \<Rightarrow> ('c list \<times> 's) option) \<Rightarrow> 'e list \<Rightarrow> 's \<Rightarrow> ('c list \<times> 's) option" where
  "run_events step [] s = Some ([], s)"
| "run_events step (e # es) s = (case step e s of
      None \<Rightarrow> None
    | Some (cs, s') \<Rightarrow> map_option (\<lambda>(cs', s''). (cs @ cs', s'')) (run_events step es s'))"

text \<open>The events that the other side may send, each in the state it meets.\<close>

fun valid_events :: "('e \<Rightarrow> 's \<Rightarrow> ('c list \<times> 's) option) \<Rightarrow> ('e \<Rightarrow> 's \<Rightarrow> bool) \<Rightarrow> 'e list \<Rightarrow> 's \<Rightarrow> bool" where
  "valid_events step allowed [] s = True"
| "valid_events step allowed (e # es) s \<longleftrightarrow> allowed e s \<and>
     (case step e s of None \<Rightarrow> True | Some (_, s') \<Rightarrow> valid_events step allowed es s')"

lemma run_events_append:
  "run_events step (es @ es') s = (case run_events step es s of None \<Rightarrow> None
     | Some (cs, s') \<Rightarrow> map_option (\<lambda>(cs', s''). (cs @ cs', s'')) (run_events step es' s'))"
proof (induction es arbitrary: s)
  case Nil
  then show ?case by (simp add: option.map_ident_strong split: prod.split)
next
  case (Cons e es)
  then show ?case by (auto split: option.split simp: option.map_comp o_def split_beta)
qed

lemma run_events_ConsI:
  "step e s = Some (cs, s1) \<Longrightarrow> run_events step es s1 = Some (cs', s2) \<Longrightarrow>
     run_events step (e # es) s = Some (cs @ cs', s2)"
  by simp

lemma run_events_snoc:
  "run_events step es s = Some (cs, s1) \<Longrightarrow> step e s1 = Some (cs', s2) \<Longrightarrow>
     run_events step (es @ [e]) s = Some (cs @ cs', s2)"
  by (simp add: run_events_append)

lemma mset_chain:
  fixes a :: "'a multiset"
  assumes "a + p1 = p0 + e" and "b + p2 = p1 + f"
  shows "(a + b) + p2 = p0 + (e + f)"
proof -
  have "(a + b) + p2 = a + (p1 + f)" using assms(2) by (simp add: add.assoc)
  also have "\<dots> = p0 + e + f" using assms(1) by (simp flip: add.assoc)
  finally show ?thesis by (simp add: add.assoc)
qed

section \<open>The contract\<close>

locale io_queue =
  fixes step :: "'e \<Rightarrow> 's \<Rightarrow> ('c list \<times> 's) option"
    and allowed :: "'e \<Rightarrow> 's \<Rightarrow> bool"
    and inv :: "'s \<Rightarrow> bool"
    and arrives :: "'e \<Rightarrow> 'k list"
    and pending :: "'s \<Rightarrow> 'k multiset"
    and key :: "'c \<Rightarrow> 'k"
  assumes handled: "inv s \<Longrightarrow> allowed e s \<Longrightarrow>
    \<exists>cs s'. step e s = Some (cs, s') \<and> inv s' \<and>
      mset (map key cs) + pending s' = pending s + mset (arrives e)"
begin

lemma run_handled:
  "inv s \<Longrightarrow> valid_events step allowed es s \<Longrightarrow>
     \<exists>cs s'. run_events step es s = Some (cs, s') \<and> inv s' \<and>
       mset (map key cs) + pending s' = pending s + mset (concat (map arrives es))"
proof (induction es arbitrary: s)
  case (Cons e es)
  obtain cs s1 where s1: "step e s = Some (cs, s1)" "inv s1"
      "mset (map key cs) + pending s1 = pending s + mset (arrives e)"
    using handled [of s e] Cons.prems by (metis valid_events.simps(2))
  have "valid_events step allowed es s1" using Cons.prems(2) s1(1) by simp
  from Cons.IH [OF s1(2) this] obtain cs' s2 where s2: "run_events step es s1 = Some (cs', s2)"
      "inv s2" "mset (map key cs') + pending s2 = pending s1 + mset (concat (map arrives es))"
    by blast
  show ?case
    using run_events_ConsI [of step, OF s1(1) s2(1)] s2(2) mset_chain [OF s1(3) s2(3)] by auto
qed simp

lemma run_no_panic: "inv s \<Longrightarrow> valid_events step allowed es s \<Longrightarrow> run_events step es s \<noteq> None"
  using run_handled by fastforce

text \<open>Once nothing is pending, every arrival has been completed as often as it arrived.\<close>

lemma drained:
  assumes "inv s" and "pending s = {#}" and "valid_events step allowed es s"
    and "run_events step es s = Some (cs, s')" and "pending s' = {#}"
  shows "mset (map key cs) = mset (concat (map arrives es))"
  using run_handled [OF assms(1,3)] assms by auto

end

end
