(* ===== verification/Target.thy ===== *)
theory Target
  imports Era Rust_Str
begin

text \<open>
  The ublk target (\<^verbatim>\<open>src/src/target.rs\<close>): the device parameters it announces, the
  backing-store request it builds for an operation, and \<open>handle_io_cmd\<close>, one turn of the
  per-tag state machine, with the action it takes on the queue. libublk, io_uring and the
  kernel are outside: the numbers they define come in the record \<open>abi\<close>, what they report
  as arguments, what they are asked to do as a result.
\<close>

section \<open>The code\<close>

text \<open>
  Constants of \<open>libublk::sys\<close> and \<open>libc\<close> the code compares with or passes on.
\<close>

record abi =
  IO_OP_READ :: u32
  IO_OP_WRITE :: u32
  IO_OP_FLUSH :: u32
  IO_OP_DISCARD :: u32
  EAGAIN :: i32
  EINVAL :: i32
  EIO :: i32
  PARAM_TYPE_BASIC :: u32
  PARAM_TYPE_DISCARD :: u32
  FALLOC_FL_PUNCH_HOLE :: u32
  FALLOC_FL_KEEP_SIZE :: u32

text \<open>
  What the code relies on: the four operations have different codes, which fit in the low
  byte that \<open>op_flags & 0xff\<close> keeps.
\<close>

definition abi_ok :: "abi \<Rightarrow> bool" where
  "abi_ok K \<longleftrightarrow> distinct [IO_OP_READ K, IO_OP_WRITE K, IO_OP_FLUSH K, IO_OP_DISCARD K] \<and>
     IO_OP_READ K \<le> 0xFF \<and> IO_OP_WRITE K \<le> 0xFF \<and> IO_OP_FLUSH K \<le> 0xFF \<and>
     IO_OP_DISCARD K \<le> 0xFF"

definition CDEV_FIXED_FD :: u32 where
  "CDEV_FIXED_FD = 0"

definition BACKING_FIXED_FD :: u32 where
  "BACKING_FIXED_FD = CDEV_FIXED_FD + 1"

definition UBLK_ATTR_VOLATILE_CACHE :: u32 where
  "UBLK_ATTR_VOLATILE_CACHE = push_bit 2 1"

datatype file_type = RegularFile | BlockDevice | OtherFile

text \<open>
  \<open>backing_supports_discard\<close>. The arguments are what \<open>metadata()\<close> returned, whether
  the sysfs directory could be canonicalized, and the two \<^verbatim>\<open>write_zeroes_max_bytes\<close> files
  (the whole disk's and its parent's), \<open>None\<close> where the read failed.
\<close>

definition backing_supports_discard ::
    "file_type option \<Rightarrow> bool \<Rightarrow> string option \<Rightarrow> string option \<Rightarrow> bool" where
  "backing_supports_discard meta canon own parent = (case meta of
      None \<Rightarrow> False
    | Some RegularFile \<Rightarrow> True
    | Some OtherFile \<Rightarrow> False
    | Some BlockDevice \<Rightarrow>
        if \<not> canon then False
        else let value = (\<lambda>s. case parse_u64 (trim s) of None \<Rightarrow> False | Some v \<Rightarrow> 0 < v) in
          (case own of Some s \<Rightarrow> value s
           | None \<Rightarrow> (case parent of Some s \<Rightarrow> value s | None \<Rightarrow> False)))"

text \<open>
  \<open>backing_size\<close>. For a block device the three ioctls give the size and the two block
  sizes (\<open>None\<close>: an error); \<open>log2\<close> is \<open>ilog::IntLog::log2\<close>.
\<close>

datatype size_error = MetadataFailed | IoctlFailed | NotAFileOrDevice

definition backing_size ::
    "(nat \<Rightarrow> nat) \<Rightarrow> (file_type \<times> u64) option \<Rightarrow> (u64 \<times> nat \<times> nat) option \<Rightarrow>
     size_error + (u64 \<times> u8 \<times> u8)" where
  "backing_size log2 meta ioctls = (case meta of
      None \<Rightarrow> Inl MetadataFailed
    | Some (BlockDevice, _) \<Rightarrow> (case ioctls of
          None \<Rightarrow> Inl IoctlFailed
        | Some (cap, ssz, pbsz) \<Rightarrow> Inr (cap, of_nat (log2 ssz), of_nat (log2 pbsz)))
    | Some (RegularFile, len) \<Rightarrow> Inr (len, 9, 12)
    | Some (OtherFile, _) \<Rightarrow> Inl NotAFileOrDevice)"

record era_tgt =
  back_file_path :: string
  back_file :: nat
  direct_io :: bool
  discard :: bool

text \<open>The parameters of \<open>init_tgt\<close>; fields it leaves at their default are 0.\<close>

record ublk_params =
  types :: u32
  attrs :: u32
  logical_bs_shift :: u8
  physical_bs_shift :: u8
  io_opt_shift :: u8
  io_min_shift :: u8
  max_sectors :: u32
  dev_sectors :: u64
  discard_granularity :: u32
  max_discard_sectors :: u32
  max_write_zeroes_sectors :: u32
  max_discard_segments :: u16

record ublk_tgt =
  fds :: "nat list"
  nr_fds :: nat
  tgt_dev_size :: u64
  params :: ublk_params
  o_direct :: "nat list"
  target_json :: "string \<times> bool"

text \<open>\<open>None\<close>: the write to the fixed-size array of file descriptors is out of range.\<close>

definition init_tgt :: "abi \<Rightarrow> u32 \<Rightarrow> era_tgt \<Rightarrow> u64 \<Rightarrow> u8 \<times> u8 \<Rightarrow> ublk_tgt \<Rightarrow> ublk_tgt option" where
  "init_tgt K max_io_buf_bytes tgt dsize shifts t =
     (if length (fds t) \<le> nr_fds t then None
      else Some \<lparr>
        fds = (fds t)[nr_fds t := back_file tgt],
        nr_fds = nr_fds t + 1,
        tgt_dev_size = dsize,
        params = \<lparr>
          types = (if discard tgt then PARAM_TYPE_BASIC K OR PARAM_TYPE_DISCARD K
                   else PARAM_TYPE_BASIC K),
          attrs = UBLK_ATTR_VOLATILE_CACHE,
          logical_bs_shift = fst shifts,
          physical_bs_shift = snd shifts,
          io_opt_shift = 12,
          io_min_shift = 9,
          max_sectors = drop_bit 9 max_io_buf_bytes,
          dev_sectors = drop_bit 9 dsize,
          discard_granularity = (if discard tgt then push_bit (unat (fst shifts) mod 32) 1 else 0),
          max_discard_sectors = (if discard tgt then push_bit 22 1 else 0),
          max_write_zeroes_sectors = 0,
          max_discard_segments = (if discard tgt then 1 else 0)\<rparr>,
        o_direct = (if direct_io tgt then back_file tgt # o_direct t else o_direct t),
        target_json = (back_file_path tgt, direct_io tgt)\<rparr>)"

text \<open>The request sent to the backing store; buffers are named by their tag.\<close>

datatype sqe =
    Fsync u32
  | ReadSqe u32 u16 u32 u64
  | WriteSqe u32 u16 u32 u64
  | Fallocate u32 u64 u64 u32

definition make_sqe :: "abi \<Rightarrow> u32 \<Rightarrow> u64 \<Rightarrow> u64 \<Rightarrow> u16 \<Rightarrow> sqe option" where
  "make_sqe K op off len buf =
     (if op = IO_OP_FLUSH K then Some (Fsync BACKING_FIXED_FD)
      else if op = IO_OP_READ K then Some (ReadSqe BACKING_FIXED_FD buf (ucast len) off)
      else if op = IO_OP_WRITE K then Some (WriteSqe BACKING_FIXED_FD buf (ucast len) off)
      else if op = IO_OP_DISCARD K then
        Some (Fallocate BACKING_FIXED_FD off len (FALLOC_FL_PUNCH_HOLE K OR FALLOC_FL_KEEP_SIZE K))
      else None)"

text \<open>
  The descriptor of a request, and what the handler does with the queue: submit a
  backing-store request marked as a target IO, or complete the command with a result.
\<close>

record iod =
  op_flags :: u32
  start_sector :: u64
  nr_sectors :: u32

datatype io_action = Submit u16 u32 sqe | Complete u16 i32

definition iod_op :: "iod \<Rightarrow> u32" where
  "iod_op d = op_flags d AND 0xFF"

definition iod_off :: "iod \<Rightarrow> u64" where
  "iod_off d = push_bit 9 (start_sector d)"

definition iod_bytes :: "iod \<Rightarrow> u64" where
  "iod_bytes d = push_bit 9 (ucast (nr_sectors d))"

text \<open>The part below the BACKEND phase: start (or retry) the backing IO, or reject it.\<close>

definition start_io :: "abi \<Rightarrow> u16 \<Rightarrow> iod \<Rightarrow> io_action" where
  "start_io K tag d = (case make_sqe K (iod_op d) (iod_off d) (iod_bytes d) tag of
      Some sqe \<Rightarrow> Submit tag (iod_op d) sqe
    | None \<Rightarrow> Complete tag (- EINVAL K))"

text \<open>
  \<open>handle_io_cmd\<close>. \<open>cqe\<close> is \<open>None\<close> for a fresh command of the driver and
  \<open>Some res\<close> for the completion of our backing IO with result \<open>res\<close>. \<open>None\<close>
  as a result is a panic.
\<close>

definition handle_io_cmd ::
    "abi \<Rightarrow> u16 \<Rightarrow> iod \<Rightarrow> i32 option \<Rightarrow> era_state \<Rightarrow> (era_state \<times> io_action) option" where
  "handle_io_cmd K tag d cqe era = (case cqe of
      Some res \<Rightarrow>
        if res \<noteq> - EAGAIN K then
          (case (if iod_op d = IO_OP_WRITE K \<or> iod_op d = IO_OP_DISCARD K
                 then mark_write (iod_off d) (iod_bytes d) era else Some era) of
             None \<Rightarrow> None
           | Some era' \<Rightarrow> Some (era', Complete tag res))
        else Some (era, start_io K tag d)
    | None \<Rightarrow> Some (era, start_io K tag d))"

section \<open>The handler, phase by phase\<close>

definition changes_data :: "abi \<Rightarrow> iod \<Rightarrow> bool" where
  "changes_data K d \<longleftrightarrow> iod_op d = IO_OP_WRITE K \<or> iod_op d = IO_OP_DISCARD K"

definition supported :: "abi \<Rightarrow> iod \<Rightarrow> bool" where
  "supported K d \<longleftrightarrow>
     iod_op d \<in> {IO_OP_READ K, IO_OP_WRITE K, IO_OP_FLUSH K, IO_OP_DISCARD K}"

abbreviation iod_range :: "iod \<Rightarrow> nat set" where
  "iod_range d \<equiv> req_bytes (iod_off d) (iod_bytes d)"

definition iod_in_device :: "era_state \<Rightarrow> iod \<Rightarrow> bool" where
  "iod_in_device s d \<longleftrightarrow> in_device s (iod_off d) (iod_bytes d)"

lemma make_sqe_supported: "make_sqe K (iod_op d) off len buf = None \<longleftrightarrow> \<not> supported K d"
  by (auto simp: make_sqe_def supported_def)

lemma start_io_cases:
  "start_io K tag d = (if supported K d
     then Submit tag (iod_op d) (the (make_sqe K (iod_op d) (iod_off d) (iod_bytes d) tag))
     else Complete tag (- EINVAL K))"
  using make_sqe_supported [of K d "iod_off d" "iod_bytes d" tag]
  by (auto simp: start_io_def split: option.splits)

lemma changes_data_supported: "changes_data K d \<Longrightarrow> supported K d"
  by (auto simp: changes_data_def supported_def)

lemma handle_fresh [simp]: "handle_io_cmd K tag d None era = Some (era, start_io K tag d)"
  by (simp add: handle_io_cmd_def)

lemma handle_again [simp]:
  "handle_io_cmd K tag d (Some (- EAGAIN K)) era = Some (era, start_io K tag d)"
  by (simp add: handle_io_cmd_def)

lemma handle_done:
  "res \<noteq> - EAGAIN K \<Longrightarrow> handle_io_cmd K tag d (Some res) era =
     (case (if changes_data K d then mark_write (iod_off d) (iod_bytes d) era else Some era) of
        None \<Rightarrow> None | Some era' \<Rightarrow> Some (era', Complete tag res))"
  by (simp add: handle_io_cmd_def changes_data_def)

lemma handle_shape:
  "handle_io_cmd K tag d cqe era = Some (era', act) \<Longrightarrow>
     same_shape era era' \<and> current_era era' = current_era era"
  by (auto simp: handle_io_cmd_def dest: mark_write_shape split: option.splits if_splits)

lemma handle_increases:
  "handle_io_cmd K tag d cqe era = Some (era', act) \<Longrightarrow> k < length (eras era) \<Longrightarrow>
     eras era ! k \<le> eras era' ! k"
  by (auto simp: handle_io_cmd_def dest: mark_write_increases split: option.splits if_splits)

lemma handle_no_panic:
  assumes "era_wf era" and "iod_in_device era d"
  shows "handle_io_cmd K tag d cqe era \<noteq> None"
proof -
  have "mark_write (iod_off d) (iod_bytes d) era \<noteq> None"
    using mark_write_effect [OF assms(1)] assms(2) unfolding iod_in_device_def
    by (metis option.distinct(1))
  then show ?thesis by (auto simp: handle_io_cmd_def split: option.splits)
qed

text \<open>
  A completion that goes to the driver finds its data already in the map.
\<close>

lemma handle_complete_stamped:
  assumes "era_wf era" and "iod_in_device era d" and "changes_data K d"
    and "handle_io_cmd K tag d (Some res) era = Some (era', Complete tag' res')"
    and "b \<in> iod_range d"
  shows "current_era era \<le> chunk_era era' b"
proof -
  have "res \<noteq> - EAGAIN K"
    using assms(3,4) changes_data_supported by (auto simp: start_io_cases)
  then have "mark_write (iod_off d) (iod_bytes d) era = Some era'"
    using assms(3,4) by (auto simp: handle_done split: option.splits)
  then show ?thesis using mark_write_reaches assms(1,2,5) by (auto simp: iod_in_device_def)
qed

lemma handle_complete_effect:
  assumes "era_wf era" and "iod_in_device era d" and "changes_data K d" and "res \<noteq> - EAGAIN K"
  obtains era' where "handle_io_cmd K tag d (Some res) era = Some (era', Complete tag res)"
    and "\<And>k. k < length (eras era) \<Longrightarrow> eras era' ! k =
      (if \<exists>b\<in>iod_range d. b div gran era = k
       then max (eras era ! k) (current_era era) else eras era ! k)"
proof -
  have inr: "in_device era (iod_off d) (iod_bytes d)" using assms(2) by (simp add: iod_in_device_def)
  from mark_write_effect [OF assms(1) inr] obtain era'
    where "mark_write (iod_off d) (iod_bytes d) era = Some era'"
      and "\<And>k. k < length (eras era) \<Longrightarrow> eras era' ! k =
        (if \<exists>b\<in>iod_range d. b div gran era = k
         then max (eras era ! k) (current_era era) else eras era ! k)"
    by blast
  then show ?thesis using that [of era'] assms(3,4) by (simp add: handle_done)
qed

lemma unat_push_bit9:
  assumes "unat w < 2 ^ 55"
  shows "unat (push_bit 9 w :: u64) = unat w * 512"
  using assms by (simp add: push_bit_eq_mult unat_word_ariths)

section \<open>Properties\<close>

text \<open>The numbers of Linux, for the witnesses.\<close>

definition linux_abi :: abi where
  "linux_abi = \<lparr>IO_OP_READ = 0, IO_OP_WRITE = 1, IO_OP_FLUSH = 2, IO_OP_DISCARD = 3,
     EAGAIN = 11, EINVAL = 22, EIO = 5, PARAM_TYPE_BASIC = 1, PARAM_TYPE_DISCARD = 2,
     FALLOC_FL_PUNCH_HOLE = 2, FALLOC_FL_KEEP_SIZE = 1\<rparr>"

lemma linux_abi_ok: "abi_ok linux_abi"
  by (simp add: abi_ok_def linux_abi_def)

definition ex_iod :: iod where
  "ex_iod = \<lparr>op_flags = 1, start_sector = 8, nr_sectors = 9\<rparr>"

lemma ex_iod_simps: "iod_op ex_iod = 1" "iod_off ex_iod = 4096" "iod_bytes ex_iod = 4608"
  by (simp_all add: ex_iod_def iod_op_def iod_off_def iod_bytes_def)

text \<open>
  C18. The map is updated before the driver is told: when the backing store finishes a WRITE or
  DISCARD of the device with any result but EAGAIN, success or error, the handler completes
  the command with that result, and in the map it leaves behind every chunk of the whole
  requested range carries at least the current era while every other chunk is untouched.
\<close>

theorem completion_recorded_first:
  assumes "era_wf era" and "iod_in_device era d"
    and "iod_op d = IO_OP_WRITE K \<or> iod_op d = IO_OP_DISCARD K" and "res \<noteq> - EAGAIN K"
  shows "\<exists>era'. handle_io_cmd K tag d (Some res) era = Some (era', Complete tag res) \<and>
    current_era era' = current_era era \<and>
    (\<forall>k<length (eras era). eras era' ! k =
      (if \<exists>b\<in>iod_range d. b div unat (granularity era) = k
       then max (eras era ! k) (current_era era) else eras era ! k))"
proof -
  have "changes_data K d" using assms(3) by (simp add: changes_data_def)
  from handle_complete_effect [OF assms(1,2) this assms(4), of tag] obtain era'
    where h: "handle_io_cmd K tag d (Some res) era = Some (era', Complete tag res)"
      and e: "\<And>k. k < length (eras era) \<Longrightarrow> eras era' ! k =
        (if \<exists>b\<in>iod_range d. b div gran era = k
         then max (eras era ! k) (current_era era) else eras era ! k)"
    by blast
  with handle_shape [OF h] show ?thesis by blast
qed

theorem completion_recorded_first_witness:
  "\<exists>era'. handle_io_cmd linux_abi 3 ex_iod (Some (- 5)) ex_era = Some (era', Complete 3 (- 5)) \<and>
     eras era' ! 2 = 1 \<and> eras era' ! 3 = 0"
proof -
  have "\<exists>b\<in>iod_range ex_iod. b div unat (granularity ex_era) = 2"
    by (rule bexI [of _ 8192]) (simp_all add: ex_iod_simps ex_era_simps req_bytes_def)
  moreover have "\<not> (\<exists>b\<in>iod_range ex_iod. b div unat (granularity ex_era) = 3)"
    by (simp add: ex_iod_simps ex_era_simps req_bytes_def) (auto simp: div_eq_dividend_iff)
  moreover have "iod_in_device ex_era ex_iod"
    by (simp add: iod_in_device_def in_device_def ex_iod_simps ex_era_simps)
  then obtain era' where h: "handle_io_cmd linux_abi 3 ex_iod (Some (- 5)) ex_era
      = Some (era', Complete 3 (- 5))"
    and e: "\<forall>k<length (eras ex_era). eras era' ! k =
      (if \<exists>b\<in>iod_range ex_iod. b div unat (granularity ex_era) = k
       then max (eras ex_era ! k) (current_era ex_era) else eras ex_era ! k)"
    using completion_recorded_first [OF ex_era_wf, of ex_iod linux_abi "- 5" 3]
    by (auto simp: ex_iod_simps linux_abi_def)
  ultimately have "eras era' ! 2 = 1" "eras era' ! 3 = 0"
    using e [rule_format, of 2] e [rule_format, of 3] by (simp_all add: ex_era_simps)
  with h show ?thesis by blast
qed

text \<open>
  The state machine of a tag: a fresh command and an EAGAIN completion do the same, they
  leave the map alone and submit the backing IO of a supported operation or complete an
  unsupported one with \<open>-EINVAL\<close>; a finished READ or FLUSH completes with its result and
  leaves the map alone.
\<close>

theorem io_state_machine:
  "handle_io_cmd K tag d None era = handle_io_cmd K tag d (Some (- EAGAIN K)) era \<and>
   (\<exists>act. handle_io_cmd K tag d None era = Some (era, act) \<and>
      (if iod_op d \<in> {IO_OP_READ K, IO_OP_WRITE K, IO_OP_FLUSH K, IO_OP_DISCARD K}
       then (\<exists>sqe. make_sqe K (iod_op d) (iod_off d) (iod_bytes d) tag = Some sqe \<and>
              act = Submit tag (iod_op d) sqe)
       else act = Complete tag (- EINVAL K))) \<and>
   (if res = - EAGAIN K \<or> iod_op d = IO_OP_WRITE K \<or> iod_op d = IO_OP_DISCARD K then True
    else handle_io_cmd K tag d (Some res) era = Some (era, Complete tag res))"
proof -
  have sup: "iod_op d \<in> {IO_OP_READ K, IO_OP_WRITE K, IO_OP_FLUSH K, IO_OP_DISCARD K} \<longleftrightarrow>
      supported K d"
    by (simp add: supported_def)
  have "supported K d \<Longrightarrow>
      \<exists>sqe. make_sqe K (iod_op d) (iod_off d) (iod_bytes d) tag = Some sqe"
    using make_sqe_supported by blast
  then have "if supported K d
      then \<exists>sqe. make_sqe K (iod_op d) (iod_off d) (iod_bytes d) tag = Some sqe \<and>
        start_io K tag d = Submit tag (iod_op d) sqe
      else start_io K tag d = Complete tag (- EINVAL K)"
    by (auto simp: start_io_cases)
  moreover have "if res = - EAGAIN K \<or> iod_op d = IO_OP_WRITE K \<or> iod_op d = IO_OP_DISCARD K
      then True else handle_io_cmd K tag d (Some res) era = Some (era, Complete tag res)"
    by (simp add: handle_done changes_data_def)
  ultimately show ?thesis unfolding sup handle_fresh handle_again by blast
qed



end
