(* ===== verification/Target_Queue.thy ===== *)
theory Target_Queue
  imports Target Io_Queue
begin

text \<open>
  A queue thread of the ublk target (\<open>queue_fn\<close> of \<^verbatim>\<open>src/src/target.rs\<close>): the buffers and the
  descriptors of its tags, the requests it has handed to the backing store, and the loop over
  completions that drives \<open>handle_io_cmd\<close>. Here \<open>mark_write\<close> and the control thread's
  \<open>checkpoint\<close> are single steps; \<open>Target_Conc\<close> interleaves them.
\<close>

section \<open>The code\<close>

text \<open>
  The state of a queue thread: how many buffers were allocated, the descriptors the driver
  has mapped, the tags whose backing IO is in flight, and the shared map.
\<close>

record tgt_queue =
  tq_nbufs :: nat
  tq_iod :: "u16 \<Rightarrow> iod"
  tq_inflight :: "u16 list"
  tq_era :: era_state

text \<open>
  The closure passed to \<open>wait_and_handle_io\<close>: take the buffer of the tag (an index that may
  panic) and run the state machine; what it does to the queue is recorded in the state.
\<close>

fun tq_action :: "io_action \<Rightarrow> tgt_queue \<Rightarrow> (u16 \<times> i32) list \<times> tgt_queue" where
  "tq_action (Submit tag op sqe) q = ([], q\<lparr>tq_inflight := tag # tq_inflight q\<rparr>)"
| "tq_action (Complete tag res) q = ([(tag, res)], q)"

definition tq_handler :: "abi \<Rightarrow> u16 \<Rightarrow> i32 option \<Rightarrow> tgt_queue \<Rightarrow> ((u16 \<times> i32) list \<times> tgt_queue) option" where
  "tq_handler K tag cqe q =
     (if tq_nbufs q \<le> unat tag then None
      else case handle_io_cmd K tag (tq_iod q tag) cqe (tq_era q) of
          None \<Rightarrow> None
        | Some (era, act) \<Rightarrow> Some (tq_action act (q\<lparr>tq_era := era\<rparr>)))"

text \<open>
  What happens on a queue: the driver fills in a descriptor and completes a fetch, the backing
  store finishes the IO of a tag, or the control thread takes a checkpoint.
\<close>

datatype tq_event = TFetched u16 iod | TBackend u16 i32 | TCheckpoint

fun tq_step :: "abi \<Rightarrow> tq_event \<Rightarrow> tgt_queue \<Rightarrow> ((u16 \<times> i32) list \<times> tgt_queue) option" where
  "tq_step K (TFetched t d) q = tq_handler K t None (q\<lparr>tq_iod := (tq_iod q)(t := d)\<rparr>)"
| "tq_step K (TBackend t res) q =
     tq_handler K t (Some res) (q\<lparr>tq_inflight := remove1 t (tq_inflight q)\<rparr>)"
| "tq_step K TCheckpoint q = Some ([], q\<lparr>tq_era := fst (checkpoint (tq_era q))\<rparr>)"

text \<open>
  \<open>queue_fn\<close>: one buffer per slot, the fetch commands are submitted or the thread ends, then
  completions are handled until the queue goes down.
\<close>

definition tgt_queue_init :: "nat \<Rightarrow> (u16 \<Rightarrow> iod) \<Rightarrow> era_state \<Rightarrow> tgt_queue" where
  "tgt_queue_init depth iods era =
     \<lparr>tq_nbufs = depth, tq_iod = iods, tq_inflight = [], tq_era = era\<rparr>"

definition queue_fn :: "abi \<Rightarrow> nat \<Rightarrow> (u16 \<Rightarrow> iod) \<Rightarrow> bool \<Rightarrow> tq_event list \<Rightarrow> era_state \<Rightarrow>
    ((u16 \<times> i32) list \<times> tgt_queue) option" where
  "queue_fn K depth iods setup_ok es era =
     (if \<not> setup_ok then Some ([], tgt_queue_init depth iods era)
      else run_events (tq_step K) es (tgt_queue_init depth iods era))"

section \<open>The contract of the queue\<close>

text \<open>
  What the driver and io_uring may send: requests inside the device on idle tags of the queue,
  completions of backing IOs in flight.
\<close>

fun tq_allowed :: "tq_event \<Rightarrow> tgt_queue \<Rightarrow> bool" where
  "tq_allowed (TFetched t d) q \<longleftrightarrow> unat t < tq_nbufs q \<and> t \<notin> set (tq_inflight q) \<and>
     iod_in_device (tq_era q) d"
| "tq_allowed (TBackend t res) q \<longleftrightarrow> t \<in> set (tq_inflight q)"
| "tq_allowed TCheckpoint q \<longleftrightarrow> True"

fun tq_arrives :: "tq_event \<Rightarrow> u16 list" where
  "tq_arrives (TFetched t d) = [t]"
| "tq_arrives _ = []"

definition tq_wf :: "abi \<Rightarrow> tgt_queue \<Rightarrow> bool" where
  "tq_wf K q \<longleftrightarrow> era_wf (tq_era q) \<and> distinct (tq_inflight q) \<and>
     (\<forall>t\<in>set (tq_inflight q). unat t < tq_nbufs q \<and> supported K (tq_iod q t) \<and>
        iod_in_device (tq_era q) (tq_iod q t))"

lemma iod_in_device_shape: "same_shape s s' \<Longrightarrow> iod_in_device s' d = iod_in_device s d"
  by (simp add: iod_in_device_def in_device_def same_shape_def)

lemma tq_action_era [simp]: "tq_era (snd (tq_action act q)) = tq_era q"
  by (cases act) simp_all

text \<open>
  One call of the handler on an in-device request: the map keeps its shape, and the tag is
  completed or in flight afterwards.
\<close>

lemma handle_action:
  assumes "handle_io_cmd K t d cqe era = Some (era', act)"
  obtains (submit) sqe where "act = Submit t (iod_op d) sqe" "supported K d"
    | (complete) res where "act = Complete t res"
  using assms by (auto simp: handle_io_cmd_def start_io_cases split: option.splits if_splits)

lemma tq_wf_era:
  assumes "tq_wf K q" and "same_shape (tq_era q) era"
  shows "tq_wf K (q\<lparr>tq_era := era\<rparr>)"
  using assms same_shape_wf [OF assms(2)] iod_in_device_shape [OF assms(2)]
  by (simp add: tq_wf_def)

lemma tq_handler_ok:
  assumes "tq_wf K q" and "unat t < tq_nbufs q" and "t \<notin> set (tq_inflight q)"
    and "iod_in_device (tq_era q) (tq_iod q t)"
  shows "\<exists>cs q'. tq_handler K t cqe q = Some (cs, q') \<and> tq_wf K q' \<and>
    mset (map fst cs) + mset (tq_inflight q') = mset (tq_inflight q) + {#t#}"
proof -
  have wf: "era_wf (tq_era q)" using assms(1) by (simp add: tq_wf_def)
  obtain era act where h: "handle_io_cmd K t (tq_iod q t) cqe (tq_era q) = Some (era, act)"
    using handle_no_panic [OF wf assms(4), of K t cqe] by fastforce
  have shape: "same_shape (tq_era q) era" using handle_shape [OF h] by blast
  have q': "tq_wf K (q\<lparr>tq_era := era\<rparr>)" by (rule tq_wf_era [OF assms(1) shape])
  from h show ?thesis
  proof (cases rule: handle_action)
    case (submit sqe)
    then show ?thesis
      using h q' assms(2-4) iod_in_device_shape [OF shape] by (simp add: tq_handler_def tq_wf_def)
  next
    case (complete res)
    then show ?thesis using h q' assms(2) by (simp add: tq_handler_def)
  qed
qed

interpretation tq: io_queue "tq_step K" tq_allowed "tq_wf K" tq_arrives "\<lambda>q. mset (tq_inflight q)" fst for K
proof
  fix q e
  assume wf: "tq_wf K q" and ok: "tq_allowed e q"
  show "\<exists>cs q'. tq_step K e q = Some (cs, q') \<and> tq_wf K q' \<and>
      mset (map fst cs) + mset (tq_inflight q') = mset (tq_inflight q) + mset (tq_arrives e)"
  proof (cases e)
    case (TFetched t d)
    have "tq_wf K (q\<lparr>tq_iod := (tq_iod q)(t := d)\<rparr>)" using wf ok TFetched by (auto simp: tq_wf_def)
    from tq_handler_ok [OF this, of t None] show ?thesis using ok TFetched by simp
  next
    case (TBackend t res)
    then have t: "t \<in> set (tq_inflight q)" using ok by simp
    have "tq_wf K (q\<lparr>tq_inflight := remove1 t (tq_inflight q)\<rparr>)"
      using wf by (auto simp: tq_wf_def dest: notin_set_remove1)
    from tq_handler_ok [OF this, of t "Some res"] show ?thesis
      using wf t TBackend by (auto simp: tq_wf_def)
  next
    case TCheckpoint
    then show ?thesis
      using tq_wf_era [OF wf, of "fst (checkpoint (tq_era q))"]
      by (simp add: checkpoint_def same_shape_def Let_def)
  qed
qed

section \<open>The map follows the queue\<close>

text \<open>
  The history of the map that a run makes: a write or discard enters it when its backing IO is
  finished for good, whatever the result.
\<close>

fun tq_ops :: "abi \<Rightarrow> tq_event \<Rightarrow> tgt_queue \<Rightarrow> era_op list" where
  "tq_ops K (TFetched t d) q = []"
| "tq_ops K (TBackend t res) q =
     (if res \<noteq> - EAGAIN K \<and> changes_data K (tq_iod q t)
      then [MarkWrite (iod_off (tq_iod q t)) (iod_bytes (tq_iod q t))] else [])"
| "tq_ops K TCheckpoint q = [Checkpoint]"

fun tq_history :: "abi \<Rightarrow> tq_event list \<Rightarrow> tgt_queue \<Rightarrow> era_op list" where
  "tq_history K [] q = []"
| "tq_history K (e # es) q = tq_ops K e q @
     (case tq_step K e q of None \<Rightarrow> [] | Some (_, q') \<Rightarrow> tq_history K es q')"

lemma era_run_append:
  "era_run (xs @ ys) s = (case era_run xs s of None \<Rightarrow> None | Some t \<Rightarrow> era_run ys t)"
  by (induction xs arbitrary: s) (simp_all split: option.split)

lemma tq_step_era:
  assumes "tq_step K e q = Some (cs, q')"
  shows "era_run (tq_ops K e q) (tq_era q) = Some (tq_era q') \<and> same_shape (tq_era q) (tq_era q')"
proof (cases e)
  case (TFetched t d)
  then have "tq_action (start_io K t d) (q\<lparr>tq_iod := (tq_iod q)(t := d)\<rparr>) = (cs, q')"
    using assms by (simp add: tq_handler_def split: if_splits)
  from arg_cong [OF this, of "\<lambda>x. tq_era (snd x)"] TFetched show ?thesis by simp
next
  case (TBackend t res)
  let ?q = "q\<lparr>tq_inflight := remove1 t (tq_inflight q)\<rparr>"
  obtain era act where h: "handle_io_cmd K t (tq_iod q t) (Some res) (tq_era q) = Some (era, act)"
      and q': "tq_action act (?q\<lparr>tq_era := era\<rparr>) = (cs, q')"
    using assms TBackend by (auto simp: tq_handler_def split: if_splits option.splits)
  have era: "tq_era q' = era" using arg_cong [OF q', of "\<lambda>x. tq_era (snd x)"] by simp
  have "era_run (tq_ops K e q) (tq_era q) = Some era"
    using h TBackend
    by (cases "res = - EAGAIN K") (auto simp: handle_done split: option.splits if_splits)
  then show ?thesis using handle_shape [OF h] era by simp
next
  case TCheckpoint
  then show ?thesis using assms by (auto simp: checkpoint_def same_shape_def Let_def)
qed

lemma tq_history_era:
  "run_events (tq_step K) es q = Some (cs, q') \<Longrightarrow>
     era_run (tq_history K es q) (tq_era q) = Some (tq_era q')"
proof (induction es arbitrary: q cs)
  case (Cons e es)
  then obtain cs1 q1 cs2 where "tq_step K e q = Some (cs1, q1)" "run_events (tq_step K) es q1 = Some (cs2, q')"
    by (auto split: option.splits)
  with Cons.IH show ?case by (simp add: era_run_append tq_step_era)
qed simp

lemma tq_ops_in_device:
  assumes "tq_wf K q" and "tq_allowed e q"
  shows "ops_in_device (tq_era q) (tq_ops K e q)"
  using assms by (cases e) (auto simp: ops_in_device_def tq_wf_def iod_in_device_def)

lemma ops_in_device_append:
  "ops_in_device s (xs @ ys) \<longleftrightarrow> ops_in_device s xs \<and> ops_in_device s ys"
  by (auto simp: ops_in_device_def)

lemma ops_in_device_shape: "same_shape s t \<Longrightarrow> ops_in_device t ops = ops_in_device s ops"
  by (simp add: ops_in_device_def in_device_def same_shape_def)

lemma tq_history_in_device:
  "tq_wf K q \<Longrightarrow> valid_events (tq_step K) tq_allowed es q \<Longrightarrow>
     ops_in_device (tq_era q) (tq_history K es q)"
proof (induction es arbitrary: q)
  case (Cons e es)
  obtain cs q1 where s: "tq_step K e q = Some (cs, q1)" "tq_wf K q1"
    using tq.handled [OF Cons.prems(1), of e] Cons.prems(2) by auto
  have "ops_in_device (tq_era q1) (tq_history K es q1)"
    using Cons.IH [OF s(2)] Cons.prems(2) s(1) by simp
  moreover have "same_shape (tq_era q) (tq_era q1)" using tq_step_era [OF s(1)] by blast
  ultimately show ?case
    using tq_ops_in_device [OF Cons.prems(1), of e] Cons.prems(2) s(1)
    by (simp add: ops_in_device_append ops_in_device_shape)
qed (simp add: ops_in_device_def)

lemma tq_history_checkpoints: "count_list (tq_history K es q) Checkpoint \<le> count_list es TCheckpoint"
proof (induction es arbitrary: q)
  case (Cons e es)
  have "count_list (tq_ops K e q) Checkpoint = (if e = TCheckpoint then 1 else 0)" by (cases e) simp_all
  with Cons.IH show ?case by (auto split: option.split simp: add.commute add_le_mono1 trans_le_add1 le_SucI)
qed simp

section \<open>Properties\<close>

text \<open>
  C5. A queue of the device as a whole. Start from a fresh map and let the driver, the backing
  store and the control thread act in any order: in-device requests on idle tags, backing IOs
  that finish with any result, are retried after EAGAIN any number of times or never finish, and
  fewer than \<open>2 ^ 32 - 1\<close> checkpoints. The queue thread does not panic, every request is either
  completed exactly once or still in flight, and a diff since the \<open>n\<close>-th checkpoint covers exactly
  the chunks of the writes and discards whose backing IO finished after that checkpoint.
\<close>

theorem queue_reports_exactly:
  assumes "era_new urandom dsize gr = Inr s"
    and "valid_events (tq_step K) tq_allowed es (tgt_queue_init depth iods s)"
    and "count_list es TCheckpoint < 2 ^ 32 - 1"
  shows "\<exists>cs q. queue_fn K depth iods True es s = Some (cs, q) \<and>
    mset (map fst cs) + mset (tq_inflight q) = mset (concat (map tq_arrives es)) \<and>
    covered (ranges_since (tq_era q) since) =
      {b. b < unat dsize \<and> written_after (unat gr) (tq_history K es (tgt_queue_init depth iods s))
        (unat since) (b div unat gr)}"
proof -
  let ?q = "tgt_queue_init depth iods s" and ?h = "tq_history K es (tgt_queue_init depth iods s)"
  have wf: "tq_wf K ?q"
    using era_new_ok [OF assms(1)] by (simp add: tq_wf_def tgt_queue_init_def)
  from tq.run_handled [OF wf assms(2)] obtain cs q
    where r: "run_events (tq_step K) es ?q = Some (cs, q)"
      and m: "mset (map fst cs) + mset (tq_inflight q) = mset (concat (map tq_arrives es))"
    by (auto simp: tgt_queue_init_def)
  have "count_list ?h Checkpoint < 2 ^ 32 - 1"
    using tq_history_checkpoints [of K es ?q] assms(3) by linarith
  moreover have "ops_in_device s ?h"
    using tq_history_in_device [OF wf assms(2)] by (simp add: tgt_queue_init_def)
  ultimately obtain t where "era_run ?h s = Some t" "covered (ranges_since t since) =
      {b. b < unat dsize \<and> written_after (unat gr) ?h (unat since) (b div unat gr)}"
    using era_run_covered [OF assms(1)] by blast
  moreover have "era_run ?h s = Some (tq_era q)"
    using tq_history_era [OF r] by (simp add: tgt_queue_init_def)
  ultimately show ?thesis using r m by (auto simp: queue_fn_def)
qed

definition ex_fresh :: era_state where
  "ex_fresh = \<lparr>granularity = 4096, dev_size = 14336, generation = 7, current_era = 1, eras = replicate 4 0\<rparr>"

lemma ex_fresh_new: "era_new (Some [7, 0, 0, 0, 0, 0, 0, 0]) 14336 4096 = Inr ex_fresh"
proof -
  have "is_power_of_two 4096" using is_power_of_two_exp [of 12] by simp
  then show ?thesis by (simp add: era_new_def div_ceil_def Let_def ex_fresh_def)
qed

theorem queue_reports_exactly_witness:
  "\<exists>cs q. queue_fn linux_abi 8 (\<lambda>_. ex_iod) True
     [TCheckpoint, TFetched 3 ex_iod, TBackend 3 (- 11), TBackend 3 4608] ex_fresh = Some (cs, q) \<and>
     mset (map fst cs) + mset (tq_inflight q) = {#3#} \<and>
     5000 \<in> covered (ranges_since (tq_era q) 1)"
proof -
  let ?es = "[TCheckpoint, TFetched 3 ex_iod, TBackend 3 (- 11), TBackend 3 4608]"
  let ?q = "tgt_queue_init 8 (\<lambda>_. ex_iod) ex_fresh"
  note defs = tgt_queue_init_def ex_fresh_def tq_handler_def checkpoint_def start_io_def make_sqe_def
    ex_iod_simps linux_abi_def iod_in_device_def in_device_def handle_io_cmd_def Let_def
  have v: "valid_events (tq_step linux_abi) tq_allowed ?es ?q"
    by (simp add: defs split: option.split)
  have h: "tq_history linux_abi ?es ?q = [Checkpoint, MarkWrite 4096 4608]"
    by (simp add: defs changes_data_def split: option.split)
  have "written_after 4096 [Checkpoint, MarkWrite 4096 4608] 1 (5000 div 4096)"
    unfolding written_after_def
    by (rule exI [of _ 1]) (simp add: writes_chunk_def checkpoints_before_def req_bytes_def,
      rule bexI [of _ 5000], simp_all)
  then show ?thesis
    using queue_reports_exactly [OF ex_fresh_new v, of 1] unfolding h by fastforce
qed

end
