(* ===== verification/Target_Conc.thy ===== *)
theory Target_Conc
  imports Target Era_Conc
begin

text \<open>
  The whole data plane (\<^verbatim>\<open>src/src/target.rs\<close> over \<^verbatim>\<open>src/src/era.rs\<close>, the window that section 2
  of \<^verbatim>\<open>docs/concurrency.md\<close> describes): any number of queue threads run \<open>handle_io_cmd\<close> on their
  tags, the backing store changes bytes at any time between the submission of a request and its
  completion, \<open>mark_write\<close> is interleaved atomic by atomic with the other queues, with checkpoints
  and with scans, and only then is the request committed to the driver. Each step is a step of
  \<open>Era_Conc\<close> on the map or leaves the map alone, so its invariants carry over.
\<close>

section \<open>The code\<close>

text \<open>
  A tag of a queue: idle, with its IO at the backing store, or finished there with a result and
  in \<open>mark_write\<close> of its queue thread. \<open>content\<close> are the bytes of the backing store. Thread
  \<open>q\<close> of the map is the thread of queue \<open>q\<close> for \<open>q < nq\<close>, a control thread otherwise.
\<close>

datatype slot = Free | Backing iod | Marking iod i32

record dev =
  dmap :: conc
  content :: "nat \<Rightarrow> u8"
  slots :: "nat \<Rightarrow> u16 \<Rightarrow> slot"

definition set_slot :: "nat \<Rightarrow> u16 \<Rightarrow> slot \<Rightarrow> dev \<Rightarrow> dev" where
  "set_slot q tag x s = s\<lparr>slots := (slots s)(q := (slots s q)(tag := x))\<rparr>"

text \<open>A queue thread that is inside a call of the handler does not look at its ring.\<close>

definition at_ring :: "dev \<Rightarrow> nat \<Rightarrow> bool" where
  "at_ring s q \<longleftrightarrow> threads (dmap s) q = Idle \<and> (\<forall>tag d res. slots s q tag \<noteq> Marking d res)"

datatype dev_event =
    Fetched nat u16 iod
  | Transfer nat u16
  | Backend nat u16 i32
  | Atomic nat
  | Commit nat u16
  | TakeCheckpoint
  | StartScan nat u32
  | EndScan nat

inductive dev_step :: "abi \<Rightarrow> nat \<Rightarrow> dev_event \<Rightarrow> dev \<Rightarrow> dev \<Rightarrow> bool" for K nq where
  submitted: "q < nq \<Longrightarrow> at_ring s q \<Longrightarrow> slots s q tag = Free \<Longrightarrow> iod_in_device (shared (dmap s)) d \<Longrightarrow>
    start_io K tag d = Submit tag op sqe \<Longrightarrow>
    dev_step K nq (Fetched q tag d) s (set_slot q tag (Backing d) s)"
| rejected: "q < nq \<Longrightarrow> at_ring s q \<Longrightarrow> slots s q tag = Free \<Longrightarrow>
    start_io K tag d = Complete tag res \<Longrightarrow> dev_step K nq (Fetched q tag d) s s"
| transfer: "slots s q tag = Backing d \<Longrightarrow> changes_data K d \<Longrightarrow>
    (\<And>b. b \<notin> iod_range d \<Longrightarrow> c b = content s b) \<Longrightarrow>
    dev_step K nq (Transfer q tag) s (s\<lparr>content := c\<rparr>)"
| again: "at_ring s q \<Longrightarrow> slots s q tag = Backing d \<Longrightarrow> res = - EAGAIN K \<Longrightarrow>
    start_io K tag d = Submit tag op sqe \<Longrightarrow> dev_step K nq (Backend q tag res) s s"
| passed: "at_ring s q \<Longrightarrow> slots s q tag = Backing d \<Longrightarrow> res \<noteq> - EAGAIN K \<Longrightarrow> \<not> changes_data K d \<Longrightarrow>
    dev_step K nq (Backend q tag res) s (set_slot q tag Free s)"
| mark: "at_ring s q \<Longrightarrow> slots s q tag = Backing d \<Longrightarrow> res \<noteq> - EAGAIN K \<Longrightarrow> changes_data K d \<Longrightarrow>
    conc_step (CallMark q (iod_off d) (iod_bytes d)) (dmap s) c \<Longrightarrow>
    dev_step K nq (Backend q tag res) s (set_slot q tag (Marking d res) (s\<lparr>dmap := c\<rparr>))"
| atomic: "conc_step (Step t) (dmap s) c \<Longrightarrow> dev_step K nq (Atomic t) s (s\<lparr>dmap := c\<rparr>)"
| commit: "slots s q tag = Marking d res \<Longrightarrow> conc_step (Finish q) (dmap s) c \<Longrightarrow>
    dev_step K nq (Commit q tag) s (set_slot q tag Free (s\<lparr>dmap := c\<rparr>))"
| take_checkpoint: "conc_step Chk (dmap s) c \<Longrightarrow> dev_step K nq TakeCheckpoint s (s\<lparr>dmap := c\<rparr>)"
| start_scan: "nq \<le> t \<Longrightarrow> conc_step (CallScan t since) (dmap s) c \<Longrightarrow>
    dev_step K nq (StartScan t since) s (s\<lparr>dmap := c\<rparr>)"
| end_scan: "nq \<le> t \<Longrightarrow> conc_step (Finish t) (dmap s) c \<Longrightarrow>
    dev_step K nq (EndScan t) s (s\<lparr>dmap := c\<rparr>)"

inductive dev_path :: "abi \<Rightarrow> nat \<Rightarrow> dev_event list \<Rightarrow> dev \<Rightarrow> dev \<Rightarrow> bool" for K nq where
  dev_nil: "dev_path K nq [] s s"
| dev_snoc: "dev_path K nq evs s t \<Longrightarrow> dev_step K nq ev t u \<Longrightarrow> dev_path K nq (evs @ [ev]) s u"

inductive_cases take_checkpointE: "dev_step K nq TakeCheckpoint s t"

inductive_simps dev_path_Nil [simp]: "dev_path K nq [] s t"

definition dev_init :: "dev \<Rightarrow> bool" where
  "dev_init s \<longleftrightarrow> conc_init (dmap s) \<and> slots s = (\<lambda>_ _. Free)"

definition n_checkpoints :: "dev_event list \<Rightarrow> nat" where
  "n_checkpoints evs = count_list evs TakeCheckpoint"

text \<open>
  The bytes that a request may be changing, or has changed without the map knowing: its IO is at
  the backing store, or \<open>mark_write\<close> has not returned.
\<close>

definition unsettled :: "abi \<Rightarrow> dev \<Rightarrow> nat \<Rightarrow> bool" where
  "unsettled K s b \<longleftrightarrow> (\<exists>q tag d. changes_data K d \<and> b \<in> iod_range d \<and>
     (slots s q tag = Backing d \<or>
      (\<exists>res. slots s q tag = Marking d res) \<and> running (threads (dmap s) q)))"

section \<open>The map underneath\<close>

lemma set_slot_simps [simp]:
  "dmap (set_slot q tag x s) = dmap s" "content (set_slot q tag x s) = content s"
  "slots (set_slot q tag x s) = (slots s)(q := (slots s q)(tag := x))"
  by (simp_all add: set_slot_def)

text \<open>The mediator: what a step does to the map is a step of \<open>Era_Conc\<close> or nothing.\<close>

lemma dev_step_conc:
  "dev_step K nq ev s t \<Longrightarrow> dmap t = dmap s \<and> ev \<noteq> TakeCheckpoint \<or>
     (\<exists>cev. conc_step cev (dmap s) (dmap t) \<and> (cev = Chk \<longleftrightarrow> ev = TakeCheckpoint))"
  by (induction rule: dev_step.induct) auto

lemma dev_path_conc:
  "dev_path K nq evs s t \<Longrightarrow> \<exists>es. conc_path es (dmap s) (dmap t) \<and> n_chk es = n_checkpoints evs"
proof (induction rule: dev_path.induct)
  case (dev_nil s)
  then show ?case by (intro exI [of _ "[]"]) (simp add: n_chk_def n_checkpoints_def)
next
  case (dev_snoc evs s t ev u)
  then obtain es where es: "conc_path es (dmap s) (dmap t)" "n_chk es = n_checkpoints evs" by blast
  from dev_step_conc [OF dev_snoc.hyps(2)] show ?case
  proof (elim disjE exE conjE)
    assume "dmap u = dmap t" "ev \<noteq> TakeCheckpoint"
    then show ?thesis using es by (intro exI [of _ es]) (simp add: n_checkpoints_def)
  next
    fix cev assume "conc_step cev (dmap t) (dmap u)" "cev = Chk \<longleftrightarrow> ev = TakeCheckpoint"
    then show ?thesis
      using path_snoc [OF es(1)] es(2) by (intro exI [of _ "es @ [cev]"]) (auto simp: n_chk_def n_checkpoints_def)
  qed
qed

lemma dev_path_append:
  "dev_path K nq evs' t u \<Longrightarrow> dev_path K nq evs s t \<Longrightarrow> dev_path K nq (evs @ evs') s u"
  by (induction rule: dev_path.induct) (auto intro: dev_snoc simp flip: append_assoc)

section \<open>The invariant\<close>

text \<open>Where a queue thread can be while it marks the range of a request.\<close>

definition marking_pc :: "era_state \<Rightarrow> iod \<Rightarrow> pc \<Rightarrow> bool" where
  "marking_pc s d p \<longleftrightarrow> (case mark_slice s (iod_off d) (iod_bytes d) of
      NoChunks \<Rightarrow> p = Idle
    | SlicePanic \<Rightarrow> False
    | Chunks lo hi \<Rightarrow> p = Load lo hi \<or> (\<exists>e i. p = Stamping lo hi e i) \<or> p = Returned lo hi)"

fun slot_ok :: "nat \<Rightarrow> conc \<Rightarrow> nat \<Rightarrow> slot \<Rightarrow> bool" where
  "slot_ok nq c q Free = True"
| "slot_ok nq c q (Backing d) \<longleftrightarrow> q < nq \<and> iod_in_device (shared c) d"
| "slot_ok nq c q (Marking d res) \<longleftrightarrow>
     q < nq \<and> iod_in_device (shared c) d \<and> marking_pc (shared c) d (threads c q)"

fun is_marking :: "slot \<Rightarrow> bool" where
  "is_marking (Marking d res) = True"
| "is_marking _ = False"

definition dev_inv :: "nat \<Rightarrow> dev \<Rightarrow> bool" where
  "dev_inv nq s \<longleftrightarrow> conc_inv (dmap s) \<and> (\<forall>q tag. slot_ok nq (dmap s) q (slots s q tag)) \<and>
     (\<forall>q tag tag'. is_marking (slots s q tag) \<longrightarrow> is_marking (slots s q tag') \<longrightarrow> tag = tag')"

lemma dev_init_inv: "dev_init s \<Longrightarrow> dev_inv nq s"
  by (simp add: dev_init_def dev_inv_def conc_init_inv)

lemma not_marking: "at_ring s q \<Longrightarrow> \<not> is_marking (slots s q tag)"
  by (cases "slots s q tag") (auto simp: at_ring_def)

lemma marking_pc_shape: "same_shape s t \<Longrightarrow> marking_pc t d p = marking_pc s d p"
  by (simp add: marking_pc_def mark_slice_shape)

lemma iod_in_device_same: "same_shape s t \<Longrightarrow> iod_in_device t d = iod_in_device s d"
  by (simp add: iod_in_device_def in_device_def same_shape_def)

lemma marking_pc_op:
  "marking_pc s d p \<Longrightarrow> running p \<Longrightarrow> thread_op s' p = (s'', p') \<Longrightarrow> marking_pc s d p'"
  by (auto simp: marking_pc_def split: chunk_slice.splits if_splits)

text \<open>Which thread a step of the map moves.\<close>

fun moves :: "event \<Rightarrow> nat option" where
  "moves (CallMark t offset len) = Some t"
| "moves (CallScan t since) = Some t"
| "moves (Step t) = Some t"
| "moves (Finish t) = Some t"
| "moves Chk = None"

lemma conc_step_others: "conc_step ev c d \<Longrightarrow> moves ev \<noteq> Some t \<Longrightarrow> threads d t = threads c t"
  by (induction rule: conc_step.induct) auto

text \<open>
  The invariant survives a step of the map that leaves marking threads where a marking thread
  can be, and a new value of a slot that is in order.
\<close>

lemma dev_inv_dmap:
  assumes "dev_inv nq s" and "conc_step cev (dmap s) c"
    and "\<And>q tag d. q < nq \<Longrightarrow> moves cev = Some q \<Longrightarrow> is_marking (slots s q tag) \<Longrightarrow>
      marking_pc (shared (dmap s)) d (threads (dmap s) q) \<Longrightarrow> marking_pc (shared (dmap s)) d (threads c q)"
  shows "dev_inv nq (s\<lparr>dmap := c\<rparr>)"
proof -
  note shape = conc_step_shape [OF assms(2)]
  have "slot_ok nq c q (slots s q tag)" for q tag
  proof -
    have "slot_ok nq (dmap s) q (slots s q tag)" using assms(1) by (simp add: dev_inv_def)
    moreover have "marking_pc (shared (dmap s)) d (threads c q)"
      if "q < nq" "is_marking (slots s q tag)" "marking_pc (shared (dmap s)) d (threads (dmap s) q)" for d
      using assms(3) [OF that(1) _ that(2,3)] conc_step_others [OF assms(2), of q] that(3)
      by (cases "moves cev = Some q") simp_all
    ultimately show ?thesis
      by (cases "slots s q tag") (simp_all add: iod_in_device_same [OF shape] marking_pc_shape [OF shape])
  qed
  moreover have "conc_inv c" using assms(1,2) conc_step_inv by (simp add: dev_inv_def)
  ultimately show ?thesis using assms(1) by (simp add: dev_inv_def)
qed

lemma dev_inv_slot:
  assumes "dev_inv nq s" and "slot_ok nq (dmap s) q x"
    and "is_marking x \<Longrightarrow> at_ring (s\<lparr>dmap := c\<rparr>) q"
  shows "dev_inv nq (set_slot q tag x s)"
proof -
  have "\<not> is_marking (slots s q tag')" if "is_marking x" for tag'
    using not_marking [OF assms(3) [OF that], of tag'] by simp
  then show ?thesis using assms(1,2) by (auto simp: dev_inv_def)
qed

lemma call_mark_marks:
  assumes "conc_step (CallMark q (iod_off d) (iod_bytes d)) c c'"
    and "era_wf (shared c)" and "iod_in_device (shared c) d"
  shows "marking_pc (shared c') d (threads c' q)"
proof -
  have "mark_slice (shared c) (iod_off d) (iod_bytes d) \<noteq> SlicePanic"
    using mark_slice_in_range [OF assms(2), of "iod_bytes d" "iod_off d"] assms(3)
    by (cases "iod_bytes d = 0") (simp_all add: iod_in_device_def mark_slice_def)
  then have "marking_pc (shared c) d (threads c' q)"
    using assms(1) by (auto simp: marking_pc_def elim!: conc_step.cases)
  then show ?thesis using marking_pc_shape [OF conc_step_shape [OF assms(1)]] by simp
qed

lemma mark_inv:
  assumes "dev_inv nq s" and "at_ring s q" and "slots s q tag = Backing d"
    and "conc_step (CallMark q (iod_off d) (iod_bytes d)) (dmap s) c"
  shows "dev_inv nq (set_slot q tag (Marking d res) (s\<lparr>dmap := c\<rparr>))"
proof (rule dev_inv_slot)
  have wf: "era_wf (shared (dmap s))" using assms(1) by (simp add: dev_inv_def conc_inv_def)
  have "slot_ok nq (dmap s) q (slots s q tag)" using assms(1) by (simp add: dev_inv_def)
  then have d: "q < nq" "iod_in_device (shared (dmap s)) d" using assms(3) by simp_all
  show "dev_inv nq (s\<lparr>dmap := c\<rparr>)"
    by (rule dev_inv_dmap [OF assms(1,4)]) (use not_marking [OF assms(2)] in auto)
  show "slot_ok nq (dmap (s\<lparr>dmap := c\<rparr>)) q (Marking d res)"
    using call_mark_marks [OF assms(4) wf d(2)] d iod_in_device_same [OF conc_step_shape [OF assms(4)]]
    by simp
  show "at_ring (s\<lparr>dmap := c, dmap := dmap s\<rparr>) q" using assms(2) by simp
qed

lemma commit_inv:
  assumes "dev_inv nq s" and "slots s q tag = Marking d res" and "conc_step (Finish q) (dmap s) c"
  shows "dev_inv nq (set_slot q tag Free (s\<lparr>dmap := c\<rparr>))"
proof -
  have "dev_inv nq (set_slot q tag Free s)" by (rule dev_inv_slot [OF assms(1)]) simp_all
  moreover have "\<not> is_marking (slots (set_slot q tag Free s) q tag')" for tag'
    using assms(1,2) by (auto simp: dev_inv_def)
  ultimately have "dev_inv nq ((set_slot q tag Free s)\<lparr>dmap := c\<rparr>)"
    using assms(3) by (intro dev_inv_dmap [where cev = "Finish q"]) auto
  moreover have "(set_slot q tag Free s)\<lparr>dmap := c\<rparr> = set_slot q tag Free (s\<lparr>dmap := c\<rparr>)"
    by (cases s) (simp add: set_slot_def)
  ultimately show ?thesis by simp
qed

lemma atomic_inv:
  assumes "dev_inv nq s" and "conc_step (Step th) (dmap s) c"
  shows "dev_inv nq (s\<lparr>dmap := c\<rparr>)"
proof (rule dev_inv_dmap [OF assms])
  fix q d
  assume "moves (Step th) = Some q" and m: "marking_pc (shared (dmap s)) d (threads (dmap s) q)"
  then have "th = q" by simp
  with assms(2) obtain s' p where "running (threads (dmap s) q)"
      "thread_op (shared (dmap s)) (threads (dmap s) q) = (s', p)" "threads c q = p"
    by (auto elim: stepE)
  with m show "marking_pc (shared (dmap s)) d (threads c q)" using marking_pc_op by blast
qed

lemma dev_step_inv: "dev_step K nq ev s t \<Longrightarrow> dev_inv nq s \<Longrightarrow> dev_inv nq t"
proof (induction rule: dev_step.induct)
  case (submitted q s tag d op sqe)
  then show ?case by (intro dev_inv_slot) simp_all
next
  case (transfer s q tag d c)
  then show ?case by (simp add: dev_inv_def)
next
  case (passed s q tag d res)
  then show ?case by (intro dev_inv_slot) simp_all
next
  case (take_checkpoint s c)
  then show ?case by (intro dev_inv_dmap [where cev = Chk]) simp_all
next
  case (start_scan th since s c)
  then show ?case by (intro dev_inv_dmap [where cev = "CallScan th since"]) simp_all
next
  case (end_scan th s c)
  then show ?case by (intro dev_inv_dmap [where cev = "Finish th"]) simp_all
qed (simp_all add: mark_inv atomic_inv commit_inv)

lemma dev_path_inv: "dev_path K nq evs s t \<Longrightarrow> dev_inv nq s \<Longrightarrow> dev_inv nq t"
  by (induction rule: dev_path.induct) (auto intro: dev_step_inv)

section \<open>A change is unsettled until it is stamped\<close>

lemma content_step:
  "dev_step K nq ev s t \<Longrightarrow> content t b \<noteq> content s b \<Longrightarrow> unsettled K t b"
  by (induction rule: dev_step.induct) (auto simp: unsettled_def)

text \<open>
  A request leaves the unsettled ones only by the step in which \<open>mark_write\<close> returns, and at
  that step its chunks carry the current era.
\<close>

lemma unsettled_other:
  assumes "unsettled K s b" and "slots t = slots s"
    and "\<And>q tag. is_marking (slots s q tag) \<Longrightarrow> running (threads (dmap s) q) \<Longrightarrow> running (threads (dmap t) q)"
  shows "unsettled K t b"
  using assms unfolding unsettled_def by (metis is_marking.simps(1))

lemma unsettled_dmap:
  assumes "unsettled K s b" and "conc_step cev (dmap s) c"
    and "\<And>t. moves cev = Some t \<Longrightarrow> running (threads (dmap s) t) \<Longrightarrow> running (threads c t)"
  shows "unsettled K (s\<lparr>dmap := c\<rparr>) b"
proof (rule unsettled_other [OF assms(1)])
  fix q tag assume "running (threads (dmap s) q)"
  then show "running (threads (dmap (s\<lparr>dmap := c\<rparr>)) q)"
    using assms(3) [of q] conc_step_others [OF assms(2), of q] by (cases "moves cev = Some q") simp_all
qed simp

lemma starts_idle:
  "conc_step (CallScan t since) c d \<Longrightarrow> \<not> running (threads c t)"
  "conc_step (Finish t) c d \<Longrightarrow> \<not> running (threads c t)"
  by (auto elim: conc_step.cases)

lemma unsettled_slot:
  assumes "unsettled K s b" and "\<not> running (threads (dmap s) q)"
    and "\<And>d. slots s q tag = Backing d \<Longrightarrow> changes_data K d \<Longrightarrow> b \<in> iod_range d \<Longrightarrow>
      \<exists>res. x = Marking d res \<and> running (threads c q)"
    and "\<And>q'. q' \<noteq> q \<Longrightarrow> threads c q' = threads (dmap s) q'"
  shows "unsettled K (set_slot q tag x (s\<lparr>dmap := c\<rparr>)) b"
proof -
  obtain q' tag' d' where d': "changes_data K d'" "b \<in> iod_range d'"
    and sl: "slots s q' tag' = Backing d' \<or>
      (\<exists>res. slots s q' tag' = Marking d' res) \<and> running (threads (dmap s) q')"
    using assms(1) unfolding unsettled_def by blast
  show ?thesis
  proof (cases "q' = q \<and> tag' = tag")
    case True
    then show ?thesis using sl assms(2,3) d' unfolding unsettled_def by fastforce
  next
    case False
    then have "slots (set_slot q tag x (s\<lparr>dmap := c\<rparr>)) q' tag' = slots s q' tag'" by auto
    then show ?thesis using sl assms(2,4) d' unfolding unsettled_def
      by (metis dev.select_convs(1) dev.surjective dev.update_convs(1) set_slot_simps(1))
  qed
qed

lemma call_mark_running:
  assumes "conc_step (CallMark q off len) c c'" and "era_wf (shared c)"
    and "in_device (shared c) off len" and "b \<in> req_bytes off len"
  shows "running (threads c' q)"
proof -
  have "len \<noteq> 0" using assms(4) by (auto simp: req_bytes_def)
  from mark_slice_in_range [OF assms(2) this assms(3)] assms(1) show ?thesis
    by (auto elim!: conc_step.cases)
qed

lemma returned_stamped:
  assumes "dev_inv nq s" and "conc_step (Step th) (dmap s) c"
    and "slots s th tag = Marking d res" and "\<not> running (threads c th)" and "b \<in> iod_range d"
  shows "current_era (shared (dmap s)) \<le> eras (shared c) ! (b div gran (shared c))"
proof -
  have inv: "conc_inv (dmap s)" "slot_ok nq (dmap s) th (slots s th tag)"
    using assms(1) by (simp_all add: dev_inv_def)
  then have wf: "era_wf (shared (dmap s))" and dev: "in_device (shared (dmap s)) (iod_off d) (iod_bytes d)"
    and pc: "marking_pc (shared (dmap s)) d (threads (dmap s) th)"
    using assms(3) by (simp_all add: conc_inv_def iod_in_device_def)
  have "iod_bytes d \<noteq> 0" using assms(5) by (auto simp: req_bytes_def)
  from mark_slice_in_range [OF wf this dev] obtain lo hi
    where sl: "mark_slice (shared (dmap s)) (iod_off d) (iod_bytes d) = Chunks lo hi" by blast
  obtain s' p where op: "running (threads (dmap s) th)"
      "thread_op (shared (dmap s)) (threads (dmap s) th) = (s', p)" "threads c th = p"
    using assms(2) by (auto elim: stepE)
  have "marking_pc (shared (dmap s)) d p" by (rule marking_pc_op [OF pc op(1,2)])
  then have "threads c th = Returned lo hi" using assms(4) op(3) sl by (auto simp: marking_pc_def)
  from return_stamped [OF inv(1) assms(2) this] slice_of_byte [OF wf dev sl assms(5)]
  show ?thesis using conc_step_shape [OF assms(2)] by (simp add: same_shape_def)
qed

lemma atomic_settles:
  assumes "dev_inv nq s" and "conc_step (Step th) (dmap s) c" and "unsettled K s b"
  shows "unsettled K (s\<lparr>dmap := c\<rparr>) b \<or>
    current_era (shared (dmap s)) \<le> eras (shared c) ! (b div gran (shared c))"
proof (cases "running (threads c th)")
  case True
  then have "unsettled K (s\<lparr>dmap := c\<rparr>) b" by (intro unsettled_dmap [OF assms(3,2)]) simp
  then show ?thesis ..
next
  case False
  obtain q tag d where d: "changes_data K d" "b \<in> iod_range d"
    and sl: "slots s q tag = Backing d \<or>
      (\<exists>res. slots s q tag = Marking d res) \<and> running (threads (dmap s) q)"
    using assms(3) unfolding unsettled_def by blast
  then consider "slots s q tag = Backing d"
    | res where "slots s q tag = Marking d res" "q \<noteq> th" "running (threads c q)"
    | res where "slots s th tag = Marking d res"
    using conc_step_others [OF assms(2), of q] by fastforce
  then show ?thesis
  proof cases
    case 3
    then show ?thesis using returned_stamped [OF assms(1,2) 3 False d(2)] by simp
  qed (use d in \<open>auto simp: unsettled_def\<close>)
qed

lemma mark_unsettled:
  assumes "dev_inv nq s" and "unsettled K s b" and "at_ring s q" and "slots s q tag = Backing d"
    and call: "conc_step (CallMark q (iod_off d) (iod_bytes d)) (dmap s) c"
  shows "unsettled K (set_slot q tag (Marking d res) (s\<lparr>dmap := c\<rparr>)) b"
proof (rule unsettled_slot [OF assms(2)])
  have wf: "era_wf (shared (dmap s))" and "slot_ok nq (dmap s) q (slots s q tag)"
    using assms(1) by (simp_all add: dev_inv_def conc_inv_def)
  then have dev: "in_device (shared (dmap s)) (iod_off d) (iod_bytes d)"
    using assms(4) by (simp add: iod_in_device_def)
  show "\<not> running (threads (dmap s) q)" using assms(3) by (simp add: at_ring_def)
  show "threads c q' = threads (dmap s) q'" if "q' \<noteq> q" for q'
    using conc_step_others [OF call] that by simp
  show "\<exists>res'. Marking d res = Marking d' res' \<and> running (threads c q)"
    if "slots s q tag = Backing d'" "b \<in> iod_range d'" for d'
    using call_mark_running [OF call wf dev, of b] assms(4) that by simp
qed

lemma unsettled_step:
  "dev_step K nq ev s t \<Longrightarrow> dev_inv nq s \<Longrightarrow> unsettled K s b \<Longrightarrow> unsettled K t b \<or>
     current_era (shared (dmap s)) \<le> eras (shared (dmap t)) ! (b div gran (shared (dmap t)))"
proof (induction rule: dev_step.induct)
  case (submitted q s tag d op sqe)
  then have "unsettled K (set_slot q tag (Backing d) s) b"
    using unsettled_slot [of K s b q tag "Backing d" "dmap s"] by (simp add: at_ring_def)
  then show ?case by simp
next
  case (transfer s q tag d c)
  have "unsettled K (s\<lparr>content := c\<rparr>) b" by (rule unsettled_other [OF transfer.prems(2)]) simp_all
  then show ?case by simp
next
  case (passed s q tag d res)
  then have "unsettled K (set_slot q tag Free s) b"
    using unsettled_slot [of K s b q tag Free "dmap s"] by (auto simp: at_ring_def)
  then show ?case by simp
next
  case (mark s q tag d res c)
  then show ?case by (simp add: mark_unsettled)
next
  case (atomic th s c)
  then show ?case using atomic_settles by simp
next
  case (commit s q tag d res c)
  then have nr: "\<not> running (threads (dmap s) q)" using starts_idle(2) by blast
  have "unsettled K (set_slot q tag Free (s\<lparr>dmap := c\<rparr>)) b"
    using unsettled_slot [OF commit.prems(2) nr, of tag Free c] conc_step_others [OF commit.hyps(2)] commit.hyps(1)
    by simp
  then show ?case by simp
next
  case (take_checkpoint s c)
  from unsettled_dmap [OF take_checkpoint.prems(2) take_checkpoint.hyps] show ?case by simp
next
  case (start_scan th since s c)
  from unsettled_dmap [OF start_scan.prems(2) start_scan.hyps(2)] starts_idle(1) [OF start_scan.hyps(2)]
  show ?case by simp
next
  case (end_scan th s c)
  from unsettled_dmap [OF end_scan.prems(2) end_scan.hyps(2)] starts_idle(2) [OF end_scan.hyps(2)]
  show ?case by simp
qed simp_all

lemma dev_path_map:
  assumes "dev_path K nq evs s t"
  shows "same_shape (shared (dmap s)) (shared (dmap t))"
    and "\<And>k. k < length (eras (shared (dmap s))) \<Longrightarrow>
      eras (shared (dmap s)) ! k \<le> eras (shared (dmap t)) ! k"
  using dev_path_conc [OF assms] conc_path_shape conc_path_increases by blast+

lemma dev_path_current:
  assumes "dev_path K nq evs s t" and "unat (current_era (shared (dmap s))) + n_checkpoints evs < 2 ^ 32"
  shows "unat (current_era (shared (dmap t))) = unat (current_era (shared (dmap s))) + n_checkpoints evs"
  using dev_path_conc [OF assms(1)] conc_path_current assms(2) by metis

lemma dev_path_era:
  assumes "dev_path K nq evs s t" and "unat (current_era (shared (dmap s))) + n_checkpoints evs < 2 ^ 32"
  shows "current_era (shared (dmap s)) \<le> current_era (shared (dmap t))"
  using dev_path_current [OF assms] by (simp add: word_le_nat_alt)

text \<open>
  From any moment on: a byte that changes is unsettled, or its chunk carries an era at least
  as new as the one current at that moment.
\<close>

lemma change_is_stamped:
  assumes "dev_path K nq evs m r" and "dev_inv nq m" and "b < size_of (shared (dmap m))"
    and "unat (current_era (shared (dmap m))) + n_checkpoints evs < 2 ^ 32"
  shows "content r b = content m b \<or> unsettled K r b \<or>
    current_era (shared (dmap m)) \<le> eras (shared (dmap r)) ! (b div gran (shared (dmap r)))"
  using assms
proof (induction rule: dev_path.induct)
  case (dev_snoc evs m r ev u)
  let ?e = "current_era (shared (dmap m))" and ?k = "b div gran (shared (dmap m))"
  have few: "unat ?e + n_checkpoints evs < 2 ^ 32"
    using dev_snoc.prems(3) by (simp add: n_checkpoints_def split: if_splits)
  have inv: "dev_inv nq r" by (rule dev_path_inv [OF dev_snoc.hyps(1) dev_snoc.prems(1)])
  have r: "?e \<le> current_era (shared (dmap r))" by (rule dev_path_era [OF dev_snoc.hyps(1) few])
  have one: "dev_path K nq [ev] r u" using dev_path.dev_snoc [OF dev_nil dev_snoc.hyps(2)] by simp
  have g: "gran (shared (dmap r)) = gran (shared (dmap m))" "gran (shared (dmap u)) = gran (shared (dmap r))"
    using dev_path_map(1) [OF dev_snoc.hyps(1)] dev_path_map(1) [OF one] by (simp_all add: same_shape_def)
  have wf: "era_wf (shared (dmap m))" using dev_snoc.prems(1) by (simp add: dev_inv_def conc_inv_def)
  have "?k < length (eras (shared (dmap r)))"
    using byte_chunk_in_range [OF wf dev_snoc.prems(2)] dev_path_map(1) [OF dev_snoc.hyps(1)]
    by (simp add: same_shape_def)
  then have mono: "eras (shared (dmap r)) ! ?k \<le> eras (shared (dmap u)) ! ?k" by (rule dev_path_map(2) [OF one])
  from dev_snoc.IH [OF dev_snoc.prems(1,2) few] show ?case
  proof (elim disjE)
    assume "content r b = content m b"
    then show ?thesis using content_step [OF dev_snoc.hyps(2), of b] by auto
  next
    assume "unsettled K r b"
    then show ?thesis using unsettled_step [OF dev_snoc.hyps(2) inv] r by fastforce
  next
    assume "?e \<le> eras (shared (dmap r)) ! (b div gran (shared (dmap r)))"
    then show ?thesis using mono unfolding g by fastforce
  qed
qed simp

section \<open>The handler is one of the interleavings\<close>

text \<open>
  When nothing else moves, the steps of a queue thread compute what \<open>handle_io_cmd\<close> computes in
  one piece: the same map, the same answer to the driver, the same request at the backing store.
\<close>

lemma dev_path_Cons: "dev_step K nq ev s t \<Longrightarrow> dev_path K nq evs t u \<Longrightarrow> dev_path K nq (ev # evs) s u"
  using dev_path_append [of K nq evs t u "[ev]" s] dev_snoc [OF dev_nil] by fastforce

lemma set_slot_dmap: "set_slot q tag x (s\<lparr>dmap := c\<rparr>) = (set_slot q tag x s)\<lparr>dmap := c\<rparr>"
  by (cases s) (simp add: set_slot_def)

lemma not_running_op: "\<not> running p \<Longrightarrow> thread_op s p = (s, p)"
  by (cases p) simp_all

definition at_op :: "nat \<Rightarrow> dev \<Rightarrow> era_state \<times> pc \<Rightarrow> dev" where
  "at_op q s x = s\<lparr>dmap := (dmap s)\<lparr>shared := fst x, threads := (threads (dmap s))(q := snd x)\<rparr>\<rparr>"

lemma atomics_alone: "\<exists>evs. dev_path K nq evs (at_op q s x) (at_op q s ((op_step ^^ n) x))"
proof (induction n)
  case 0
  then show ?case by (auto intro: dev_nil)
next
  case (Suc n)
  obtain e p where ep: "(op_step ^^ n) x = (e, p)" by fastforce
  show ?case
  proof (cases "running p")
    case True
    obtain e' p' where op: "thread_op e p = (e', p')" by fastforce
    have "conc_step (Step q) (dmap (at_op q s (e, p))) (dmap (at_op q s (e', p')))"
      using conc_step.step [of "dmap (at_op q s (e, p))" q e' p'] True op by (simp add: at_op_def)
    from dev_step.atomic [OF this, of K nq] have "dev_step K nq (Atomic q) (at_op q s (e, p)) (at_op q s (e', p'))"
      by (simp add: at_op_def)
    then show ?thesis using Suc dev_snoc ep op by fastforce
  next
    case False
    then show ?thesis using Suc ep not_running_op [OF False] by simp
  qed
qed

lemma mark_in_steps:
  assumes "at_ring s q" and "slots s q tag = Backing d" and "res \<noteq> - EAGAIN K" and "changes_data K d"
    and "mark_write (iod_off d) (iod_bytes d) (shared (dmap s)) = Some era"
  shows "\<exists>evs. dev_path K nq evs s (set_slot q tag Free (s\<lparr>dmap := (dmap s)\<lparr>shared := era\<rparr>\<rparr>))"
proof -
  let ?m = "set_slot q tag (Marking d res) s"
  have idle: "threads (dmap s) q = Idle" using assms(1) by (simp add: at_ring_def)
  have fin: "\<exists>evs. dev_path K nq evs (at_op q ?m (era, p)) (set_slot q tag Free (s\<lparr>dmap := (dmap s)\<lparr>shared := era\<rparr>\<rparr>))"
    if "\<not> running p" "p \<noteq> Panicked" for p
  proof -
    have "(threads (dmap s))(q := Idle) = threads (dmap s)" using idle by (simp add: fun_upd_idem)
    then have "conc_step (Finish q) (dmap (at_op q ?m (era, p))) ((dmap s)\<lparr>shared := era\<rparr>)"
      using finish [of "dmap (at_op q ?m (era, p))" q] that by (simp add: at_op_def)
    from dev_step.commit [OF _ this, of tag d res K nq] show ?thesis
      using dev_path_Cons [OF _ dev_nil] by (force simp: at_op_def set_slot_def)
  qed
  show ?thesis
  proof (cases "mark_slice (shared (dmap s)) (iod_off d) (iod_bytes d)")
    case (Chunks lo hi)
    have st: "dev_step K nq (Backend q tag res) s (at_op q ?m (shared (dmap s), Load lo hi))"
      using dev_step.mark [OF assms(1-4) call_mark [OF idle Chunks], of nq] by (simp add: at_op_def set_slot_dmap)
    have "lo \<le> Suc hi" using Chunks by (auto simp: mark_slice_def Let_def split: if_splits)
    from alone_returns [OF this, of "shared (dmap s)"] Chunks assms(5)
    have "(op_step ^^ (Suc hi - lo + 2)) (shared (dmap s), Load lo hi) = (era, Returned lo hi)"
      by (simp add: mark_write_def)
    with atomics_alone [of K nq q ?m "(shared (dmap s), Load lo hi)" "Suc hi - lo + 2"]
    obtain evs where "dev_path K nq evs (at_op q ?m (shared (dmap s), Load lo hi)) (at_op q ?m (era, Returned lo hi))"
      by auto
    moreover obtain evs' where "dev_path K nq evs' (at_op q ?m (era, Returned lo hi))
        (set_slot q tag Free (s\<lparr>dmap := (dmap s)\<lparr>shared := era\<rparr>\<rparr>))"
      using fin [of "Returned lo hi"] by auto
    ultimately have "dev_path K nq (Backend q tag res # evs @ evs') s
        (set_slot q tag Free (s\<lparr>dmap := (dmap s)\<lparr>shared := era\<rparr>\<rparr>))"
      by (intro dev_path_Cons [OF st] dev_path_append)
    then show ?thesis by blast
  next
    case NoChunks
    then have "era = shared (dmap s)" using assms(5) by (simp add: mark_write_def)
    moreover have "at_op q ?m (shared (dmap s), Idle) = ?m" using idle by (simp add: at_op_def fun_upd_idem)
    ultimately show ?thesis
      using fin [of Idle] dev_path_Cons [OF dev_step.mark [OF assms(1-4) call_none [OF idle NoChunks], of nq]] by auto
  next
    case SlicePanic
    then show ?thesis using assms(5) by (simp add: mark_write_def)
  qed
qed

text \<open>Where a tag is after the handler has answered.\<close>

fun slot_after :: "iod \<Rightarrow> io_action \<Rightarrow> slot" where
  "slot_after d (Submit tag op sqe) = Backing d"
| "slot_after d (Complete tag res) = Free"

lemma dev_path_one: "dev_step K nq ev s t \<Longrightarrow> \<exists>evs. dev_path K nq evs s t"
  using dev_path_Cons [OF _ dev_nil] by blast

lemma set_slot_same: "slots s q tag = x \<Longrightarrow> set_slot q tag x s = s"
  by (auto simp: set_slot_def)

lemma fetched_in_steps:
  assumes "q < nq" and "at_ring s q" and "slots s q tag = Free" and "iod_in_device (shared (dmap s)) d"
  shows "\<exists>evs. dev_path K nq evs s (set_slot q tag (slot_after d (start_io K tag d)) s)"
proof (cases "supported K d")
  case True
  then obtain sqe where "start_io K tag d = Submit tag (iod_op d) sqe" by (simp add: start_io_cases)
  then show ?thesis using dev_path_one [OF submitted [OF assms]] by simp
next
  case False
  then have "start_io K tag d = Complete tag (- EINVAL K)" by (simp add: start_io_cases)
  then show ?thesis using dev_path_one [OF rejected [OF assms(1-3)]] set_slot_same [OF assms(3)] by simp
qed

lemma completed_in_steps:
  assumes "at_ring s q" and sl: "slots s q tag = Backing d" and sup: "supported K d"
    and "handle_io_cmd K tag d (Some res) (shared (dmap s)) = Some (era, act)"
  shows "\<exists>evs. dev_path K nq evs s (set_slot q tag (slot_after d act) (s\<lparr>dmap := (dmap s)\<lparr>shared := era\<rparr>\<rparr>))"
proof -
  consider "res = - EAGAIN K" | "res \<noteq> - EAGAIN K" "changes_data K d" | "res \<noteq> - EAGAIN K" "\<not> changes_data K d"
    by blast
  then show ?thesis
  proof cases
    case 1
    then have eq: "era = shared (dmap s)" "act = start_io K tag d" using assms(4) by simp_all
    then obtain sqe where act: "act = Submit tag (iod_op d) sqe" using sup by (simp add: start_io_cases)
    from dev_path_one [OF again [OF assms(1) sl 1 trans [OF eq(2) [symmetric] act]]] show ?thesis
      using eq(1) act set_slot_same [OF sl] by simp
  next
    case 2
    then have "mark_write (iod_off d) (iod_bytes d) (shared (dmap s)) = Some era" "act = Complete tag res"
      using assms(4) by (simp_all add: handle_done split: option.splits)
    then show ?thesis using mark_in_steps [OF assms(1) sl 2] by simp
  next
    case 3
    then have "era = shared (dmap s)" "act = Complete tag res" using assms(4) by (simp_all add: handle_done)
    then show ?thesis using dev_path_one [OF passed [OF assms(1) sl 3]] by simp
  qed
qed

lemma handler_in_steps:
  assumes "q < nq" and "at_ring s q" and "handle_io_cmd K tag d cqe (shared (dmap s)) = Some (era, act)"
    and "cqe = None \<Longrightarrow> slots s q tag = Free \<and> iod_in_device (shared (dmap s)) d"
    and "\<And>res. cqe = Some res \<Longrightarrow> slots s q tag = Backing d \<and> supported K d"
  shows "\<exists>evs. dev_path K nq evs s (set_slot q tag (slot_after d act) (s\<lparr>dmap := (dmap s)\<lparr>shared := era\<rparr>\<rparr>))"
proof (cases cqe)
  case None
  then show ?thesis using fetched_in_steps [OF assms(1,2)] assms(3,4) by auto
next
  case (Some res)
  then show ?thesis using completed_in_steps [OF assms(2)] assms(3,5) by blast
qed

section \<open>Properties\<close>

text \<open>
  C1. An incremental backup under load misses nothing. A checkpoint closes era \<open>N\<close>; after it, at
  a moment \<open>m\<close>, a consumer reads a byte; later a \<open>ranges_since\<close> scan with a cursor \<open>since \<le> N\<close>
  starts at \<open>r\<close> and ends at \<open>f\<close>. All the while any number of queue threads serve requests,
  with backing IOs that change bytes at any time before they finish, fail, are retried or are torn,
  and with further checkpoints and scans in between. If the byte at \<open>r\<close> is not the one that was
  read, the scan reports it, unless a request that covers it is still unfinished or inside
  \<open>mark_write\<close>; no request whose completion the driver has seen is of that kind.
\<close>

theorem backup_misses_nothing:
  assumes "dev_init s0" and "dev_path K nq evs0 s0 s" and "dev_step K nq TakeCheckpoint s s'"
    and "dev_path K nq evs1 s' m" and "dev_path K nq evs2 m r"
    and "threads (dmap r) t = Scan since []" and "dev_path K nq evs3 r f"
    and "threads (dmap f) t = Scanned since' vs"
    and "since \<le> current_era (shared (dmap s))"
    and "unat (current_era (shared (dmap s))) + 1 + n_checkpoints evs1 + n_checkpoints evs2 < 2 ^ 32"
    and "b < size_of (shared (dmap s0))" and "content r b \<noteq> content m b" and "\<not> unsettled K r b"
  shows "b \<in> covered (scan_result (shared (dmap f)) since vs)"
proof -
  have inv: "dev_inv nq m"
    by (intro dev_path_inv [OF assms(4)] dev_step_inv [OF assms(3)] dev_path_inv [OF assms(2)]
        dev_init_inv [OF assms(1)])
  then have "dev_inv nq r" by (rule dev_path_inv [OF assms(5)])
  then have inv_r: "conc_inv (dmap r)" by (simp add: dev_inv_def)
  have chk: "conc_step Chk (dmap s) (dmap s')" using assms(3) by (auto elim: take_checkpointE)
  have cur: "unat (current_era (shared (dmap s'))) = unat (current_era (shared (dmap s))) + 1"
    using conc_step_current [OF chk] assms(10) by (simp add: unat_add_no_overflow)
  have "current_era (shared (dmap s')) \<le> current_era (shared (dmap m))"
    by (rule dev_path_era [OF assms(4)]) (use cur assms(10) in simp)
  moreover have "since < current_era (shared (dmap s'))"
    by (rule checkpoint_newer [OF chk _ assms(9)]) (use assms(10) in simp)
  ultimately have newer: "since < current_era (shared (dmap m))" by simp
  have "unat (current_era (shared (dmap m))) = unat (current_era (shared (dmap s'))) + n_checkpoints evs1"
    by (rule dev_path_current [OF assms(4)]) (use cur assms(10) in simp)
  then have few: "unat (current_era (shared (dmap m))) + n_checkpoints evs2 < 2 ^ 32"
    using cur assms(10) by simp
  have "same_shape (shared (dmap s0)) (shared (dmap m))"
    using same_shape_trans [OF same_shape_trans [OF dev_path_map(1) [OF assms(2)] conc_step_shape [OF chk]]
      dev_path_map(1) [OF assms(4)]] .
  then have bm: "b < size_of (shared (dmap m))" using assms(11) by (simp add: same_shape_def)
  then have br: "b < size_of (shared (dmap r))"
    using dev_path_map(1) [OF assms(5)] by (simp add: same_shape_def)
  from change_is_stamped [OF assms(5) inv bm few] newer assms(12,13)
  have "since < eras (shared (dmap r)) ! (b div gran (shared (dmap r)))" by auto
  with dev_path_conc [OF assms(7)] show ?thesis
    using scan_covers [OF inv_r assms(6) _ assms(8) br] by blast
qed

text \<open>For the witness: one queue, one chunk, a write of the first sector, thread 1 scanning.\<close>

definition ex_write :: iod where
  "ex_write = \<lparr>op_flags = 1, start_sector = 0, nr_sectors = 1\<rparr>"

definition ex_dev :: "conc \<Rightarrow> u8 \<Rightarrow> slot \<Rightarrow> dev" where
  "ex_dev c x sl = \<lparr>dmap = c, content = (\<lambda>b. if b < 512 then x else 0),
     slots = (\<lambda>_ _. Free)(0 := (\<lambda>_. Free)(0 := sl))\<rparr>"

lemma ex_write_simps:
  "iod_op ex_write = 1" "iod_off ex_write = 0" "iod_bytes ex_write = 512" "changes_data linux_abi ex_write"
  by (simp_all add: ex_write_def iod_op_def iod_off_def iod_bytes_def changes_data_def linux_abi_def)

lemma ex_dev_slot: "set_slot 0 0 sl (ex_dev c x sl') = ex_dev c x sl"
  by (simp add: ex_dev_def set_slot_def)

lemma ex_dev_map: "(ex_dev c x sl)\<lparr>dmap := c'\<rparr> = ex_dev c' x sl"
  by (simp add: ex_dev_def)

lemma ex_fetch:
  "dev_step linux_abi 1 (Fetched 0 0 ex_write) (ex_dev (ex_sys 2 0 Idle Idle) x Free)
     (ex_dev (ex_sys 2 0 Idle Idle) x (Backing ex_write))"
  using submitted [of 0 1 "ex_dev (ex_sys 2 0 Idle Idle) x Free" 0 ex_write linux_abi]
  by (simp add: ex_dev_slot) (simp add: ex_dev_def ex_sys_def at_ring_def iod_in_device_def in_device_def
      start_io_def make_sqe_def ex_write_simps linux_abi_def)

lemma ex_transfer:
  "dev_step linux_abi 1 (Transfer 0 0) (ex_dev c x (Backing ex_write)) (ex_dev c y (Backing ex_write))"
  using transfer [of "ex_dev c x (Backing ex_write)" 0 0 ex_write linux_abi "content (ex_dev c y Free)" 1]
  by (simp add: ex_dev_def ex_write_simps req_bytes_def)

lemma ex_backend:
  "dev_step linux_abi 1 (Backend 0 0 512) (ex_dev (ex_sys 2 0 Idle Idle) x (Backing ex_write))
     (ex_dev (ex_sys 2 0 (Load 0 0) Idle) x (Marking ex_write 512))"
  using mark [of "ex_dev (ex_sys 2 0 Idle Idle) x (Backing ex_write)" 0 0 ex_write 512 linux_abi
      "ex_sys 2 0 (Load 0 0) Idle" 1] ex_sys_call [of 2 0 Idle]
  by (simp add: ex_dev_slot ex_dev_map ex_write_simps) (simp add: ex_dev_def ex_sys_def at_ring_def linux_abi_def)

lemma ex_atomic:
  "conc_step (Step th) c c' \<Longrightarrow> dev_step linux_abi 1 (Atomic th) (ex_dev c x sl) (ex_dev c' x sl)"
  using atomic [of th "ex_dev c x sl" c' linux_abi 1] unfolding ex_dev_map by (simp add: ex_dev_def)

lemma ex_commit:
  "dev_step linux_abi 1 (Commit 0 0) (ex_dev (ex_sys 2 2 (Returned 0 0) Idle) x (Marking ex_write 512))
     (ex_dev (ex_sys 2 2 Idle Idle) x Free)"
proof -
  have "conc_step (Finish 0) (ex_sys 2 2 (Returned 0 0) Idle) (ex_sys 2 2 Idle Idle)"
    using conc_step.finish [of "ex_sys 2 2 (Returned 0 0) Idle" 0] by (simp add: ex_sys_def fun_upd_twist)
  then show ?thesis
    using commit [of "ex_dev (ex_sys 2 2 (Returned 0 0) Idle) x (Marking ex_write 512)" 0 0 ex_write 512
        "ex_sys 2 2 Idle Idle" linux_abi 1]
    by (simp add: ex_dev_slot ex_dev_map) (simp add: ex_dev_def)
qed

lemma ex_start_scan:
  "dev_step linux_abi 1 (StartScan 1 1) (ex_dev (ex_sys 2 2 Idle Idle) x Free)
     (ex_dev (ex_sys 2 2 Idle (Scan 1 [])) x Free)"
  using start_scan [of 1 1 1 "ex_dev (ex_sys 2 2 Idle Idle) x Free" _ linux_abi] ex_sys_scan [where cur = 2 and e = 2 and p = Idle and since = 1]
  unfolding ex_dev_map by (simp add: ex_dev_def)

lemma ex_load: "conc_step (Step 0) (ex_sys 2 0 (Load 0 0) Idle) (ex_sys 2 0 (Stamping 0 0 2 0) Idle)"
  by (rule ex_sys_step0) (simp_all add: ex_sys_def)

lemma ex_stamp: "conc_step (Step 0) (ex_sys 2 0 (Stamping 0 0 2 0) Idle) (ex_sys 2 2 (Stamping 0 0 2 1) Idle)"
  by (rule ex_sys_step0) (simp_all add: ex_sys_def fetch_max_def)

lemma ex_scan_chunk: "conc_step (Step 1) (ex_sys 2 2 p (Scan 1 [])) (ex_sys 2 2 p (Scan 1 [2]))"
  by (rule ex_sys_step1) (simp_all add: ex_sys_def)

lemma ex_scan_end: "conc_step (Step 1) (ex_sys 2 2 p (Scan 1 [2])) (ex_sys 2 2 p (Scanned 1 [2]))"
  by (rule ex_sys_step1) (simp_all add: ex_sys_def)

lemmas ex_settles = dev_path_Cons [OF ex_fetch dev_path_Cons [OF ex_transfer dev_path_Cons [OF ex_backend
  dev_path_Cons [OF ex_atomic [OF ex_load] dev_path_Cons [OF ex_atomic [OF ex_stamp]
  dev_path_Cons [OF ex_atomic [OF ex_sys_return] dev_path_Cons [OF ex_commit
  dev_path_Cons [OF ex_start_scan dev_nil]]]]]]]]

lemmas ex_scans = dev_path_Cons [OF ex_atomic [OF ex_scan_chunk]
  dev_path_Cons [OF ex_atomic [OF ex_scan_end] dev_nil]]

theorem backup_misses_nothing_witness:
  "100 \<in> covered (scan_result (shared (dmap (ex_dev (ex_sys 2 2 Idle (Scanned 1 [2])) 7 Free))) 1 [2])"
proof (rule backup_misses_nothing)
  let ?s = "\<lambda>cur. ex_dev (ex_sys cur 0 Idle Idle) 0 Free"
  show "dev_init (?s 1)" using ex_sys_init [of 1 0] by (auto simp: dev_init_def ex_dev_def)
  show "dev_path linux_abi 1 [] (?s 1) (?s 1)" "dev_path linux_abi 1 [] (?s 2) (?s 2)" by simp_all
  show "dev_step linux_abi 1 TakeCheckpoint (?s 1) (?s 2)"
    using take_checkpoint [of "?s 1" _ linux_abi 1] ex_sys_chk [of 1 0 Idle Idle]
    unfolding ex_dev_map by (simp add: ex_dev_def)
  show "threads (dmap (ex_dev (ex_sys 2 2 Idle (Scan 1 [])) 7 Free)) 1 = Scan 1 []"
    "threads (dmap (ex_dev (ex_sys 2 2 Idle (Scanned 1 [2])) 7 Free)) 1 = Scanned 1 [2]"
    "content (ex_dev (ex_sys 2 2 Idle (Scan 1 [])) 7 Free) 100 \<noteq> content (?s 2) 100"
    "\<not> unsettled linux_abi (ex_dev (ex_sys 2 2 Idle (Scan 1 [])) 7 Free) 100"
    by (simp_all add: ex_dev_def ex_sys_def unsettled_def)
qed (rule ex_settles ex_scans | simp add: ex_dev_def ex_sys_def n_checkpoints_def)+

end
