(* ===== verification/Fault_Model.thy ===== *)
theory Fault_Model
  imports Ublk_Prelude "HOL-Library.Sublist"
begin

text \<open>
  The storage contract model of ublkfault (\<^verbatim>\<open>src/ublkfault/src/model.rs\<close>): a disk in
  memory, split into committed bytes and a volatile cache of entries in arrival order, with
  seeded faults and power loss. A panic (an index out of range, a division by zero) is
  \<open>None\<close>. The abstract disk is the list of bytes a reader sees, \<open>view\<close>; the locale
  \<open>disk_contract\<close> is what a user of the model relies on.
\<close>

section \<open>The code\<close>

text \<open>splitmix64: the value drawn and the next state.\<close>

definition rng_next :: "u64 \<Rightarrow> u64 \<times> u64" where
  "rng_next s =
     (let s' = s + 0x9E3779B97F4A7C15;
          z1 = (s' XOR drop_bit 30 s') * 0xBF58476D1CE4E5B9;
          z2 = (z1 XOR drop_bit 27 z1) * 0x94D049BB133111EB
      in (z2 XOR drop_bit 31 z2, s'))"

text \<open>\<open>below\<close> divides by \<open>n\<close>; its callers never pass 0.\<close>

definition rng_below :: "u64 \<Rightarrow> u64 \<Rightarrow> u64 \<times> u64" where
  "rng_below n s = (case rng_next s of (v, s') \<Rightarrow> (v mod n, s'))"

definition rng_hit :: "u32 \<Rightarrow> u64 \<Rightarrow> bool \<times> u64" where
  "rng_hit pm s =
     (if 0 < pm then (case rng_below 1000 s of (v, s') \<Rightarrow> (v < ucast pm, s')) else (False, s))"

record policy =
  error_pm :: u32
  flush_lie_pm :: u32
  hang_pm :: u32

record stats =
  reads :: u64
  writes :: u64
  flushes :: u64
  discards :: u64
  errors_injected :: u64
  flush_lies :: u64
  hangs :: u64
  crashes :: u64
  autonomous_writebacks :: u64

record crash_report =
  rep_committed :: u64
  rep_dropped :: u64
  rep_torn :: u64

record model =
  lbs :: u32
  cache_cap :: u64
  committed :: "u8 list"
  volatile :: "(u64 \<times> u8 list) list"
  volatile_bytes :: u64
  rng :: u64
  policy :: policy
  stats :: stats

datatype crash_mode = Drop | Seeded

definition no_stats :: stats where
  "no_stats = \<lparr>reads = 0, writes = 0, flushes = 0, discards = 0, errors_injected = 0,
     flush_lies = 0, hangs = 0, crashes = 0, autonomous_writebacks = 0\<rparr>"

definition model_new :: "u64 \<Rightarrow> u32 \<Rightarrow> u64 \<Rightarrow> u64 \<Rightarrow> policy \<Rightarrow> model" where
  "model_new sz bs cap seed pol = \<lparr>lbs = bs, cache_cap = cap, committed = replicate (unat sz) 0,
     volatile = [], volatile_bytes = 0, rng = seed, policy = pol, stats = no_stats\<rparr>"

text \<open>
  \<open>apply\<close>: the copy panics unless the slice \<open>off .. off + len\<close>, with a wrapping sum, is
  in range and as long as the data.
\<close>

definition apply_entry :: "u8 list \<Rightarrow> u64 \<Rightarrow> u8 list \<Rightarrow> u8 list option" where
  "apply_entry c off data =
     (let a = unat off; b = unat (off + of_nat (length data))
      in if a \<le> b \<and> b \<le> length c \<and> b - a = length data then Some (write_at a data c) else None)"

definition overlay :: "u8 list \<Rightarrow> u64 \<Rightarrow> u64 \<Rightarrow> u8 list \<Rightarrow> u8 list option" where
  "overlay out woff doff data =
     (let wend = woff + of_nat (length out); dend = doff + of_nat (length data);
          start = max woff doff; stop = min wend dend
      in if stop \<le> start then Some out
         else let i = unat (start - woff); j = unat (stop - woff);
                  i' = unat (start - doff); j' = unat (stop - doff)
              in if j \<le> length out \<and> j' \<le> length data
                 then Some (write_at i (take (j' - i') (drop i' data)) out) else None)"

fun overlay_all :: "u64 \<Rightarrow> (u64 \<times> u8 list) list \<Rightarrow> u8 list \<Rightarrow> u8 list option" where
  "overlay_all off [] out = Some out"
| "overlay_all off ((voff, data) # es) out = (case overlay out off voff data of
      None \<Rightarrow> None | Some out' \<Rightarrow> overlay_all off es out')"

text \<open>\<open>read\<close> into a buffer of \<open>n\<close> bytes.\<close>

definition model_read :: "u64 \<Rightarrow> nat \<Rightarrow> model \<Rightarrow> (u8 list \<times> model) option" where
  "model_read off n m =
     (let m' = m\<lparr>stats := (stats m)\<lparr>reads := reads (stats m) + 1\<rparr>\<rparr>;
          a = unat off; b = unat (off + of_nat n)
      in if a \<le> b \<and> b \<le> length (committed m) \<and> b - a = n
         then map_option (\<lambda>out. (out, m'))
                (overlay_all off (volatile m) (take n (drop a (committed m))))
         else None)"

text \<open>The write-back loop of \<open>push_volatile\<close>; \<open>remove(0)\<close> panics on an empty cache.\<close>

function drain :: "model \<Rightarrow> model option" where
  "drain m =
     (if cache_cap m < volatile_bytes m then
        (case volatile m of
           [] \<Rightarrow> None
         | (voff, vdata) # rest \<Rightarrow>
             (case apply_entry (committed m) voff vdata of
                None \<Rightarrow> None
              | Some c \<Rightarrow> drain (m\<lparr>volatile := rest,
                    volatile_bytes := volatile_bytes m - of_nat (length vdata), committed := c,
                    stats := (stats m)\<lparr>autonomous_writebacks :=
                      autonomous_writebacks (stats m) + 1\<rparr>\<rparr>)))
      else Some m)"
  by pat_completeness auto
termination
  by (relation "measure (\<lambda>m. length (volatile m))") auto

declare drain.simps [simp del]

definition push_volatile :: "u64 \<Rightarrow> u8 list \<Rightarrow> model \<Rightarrow> model option" where
  "push_volatile off data m =
     drain (m\<lparr>volatile_bytes := volatile_bytes m + of_nat (length data),
              volatile := volatile m @ [(off, data)]\<rparr>)"

text \<open>\<open>write\<close>, with \<open>libc::EIO\<close> as \<open>eio\<close>: the result code and the model after.\<close>

definition model_write :: "i32 \<Rightarrow> u64 \<Rightarrow> u8 list \<Rightarrow> model \<Rightarrow> (i32 \<times> model) option" where
  "model_write eio off data m =
     (let m1 = m\<lparr>stats := (stats m)\<lparr>writes := writes (stats m) + 1\<rparr>\<rparr> in
      case rng_hit (error_pm (policy m)) (rng m) of
        (True, r) \<Rightarrow>
          let m2 = m1\<lparr>rng := r,
                stats := (stats m1)\<lparr>errors_injected := errors_injected (stats m1) + 1\<rparr>\<rparr>;
              blocks = of_nat (length data) div ucast (lbs m)
          in if lbs m = 0 \<or> blocks + 1 = 0 then None
             else (case rng_below (blocks + 1) r of (v, r') \<Rightarrow>
               let keep = v * ucast (lbs m); m3 = m2\<lparr>rng := r'\<rparr>
               in if 0 < keep
                  then if unat keep \<le> length data
                       then map_option (\<lambda>m'. (- eio, m'))
                              (push_volatile off (take (unat keep) data) m3)
                       else None
                  else Some (- eio, m3))
      | (False, r) \<Rightarrow>
          map_option (\<lambda>m'. (of_nat (length data), m')) (push_volatile off data (m1\<lparr>rng := r\<rparr>)))"

definition model_discard :: "u64 \<Rightarrow> u64 \<Rightarrow> model \<Rightarrow> model option" where
  "model_discard off n m =
     push_volatile off (replicate (unat n) 0)
       (m\<lparr>stats := (stats m)\<lparr>discards := discards (stats m) + 1\<rparr>\<rparr>)"

fun apply_all :: "(u64 \<times> u8 list) list \<Rightarrow> u8 list \<Rightarrow> u8 list option" where
  "apply_all [] c = Some c"
| "apply_all ((off, data) # es) c = (case apply_entry c off data of
      None \<Rightarrow> None | Some c' \<Rightarrow> apply_all es c')"

definition model_flush :: "model \<Rightarrow> model option" where
  "model_flush m =
     (let m1 = m\<lparr>stats := (stats m)\<lparr>flushes := flushes (stats m) + 1\<rparr>\<rparr> in
      case rng_hit (flush_lie_pm (policy m)) (rng m) of
        (True, r) \<Rightarrow> Some (m1\<lparr>rng := r,
            stats := (stats m1)\<lparr>flush_lies := flush_lies (stats m1) + 1\<rparr>\<rparr>)
      | (False, r) \<Rightarrow>
          map_option (\<lambda>c. m1\<lparr>rng := r, volatile := [], volatile_bytes := 0, committed := c\<rparr>)
            (apply_all (volatile m) (committed m)))"

text \<open>The torn case of \<open>crash\<close>: each logical block persists or not.\<close>

definition block_addr :: "u32 \<Rightarrow> u64 \<Rightarrow> nat \<Rightarrow> u64" where
  "block_addr bs off i = off + of_nat (i * unat bs)"

fun tear :: "u32 \<Rightarrow> u64 \<Rightarrow> nat \<Rightarrow> u8 list list \<Rightarrow> u64 \<Rightarrow> u8 list \<Rightarrow> (u64 \<times> u8 list) option" where
  "tear bs off i [] r c = Some (r, c)"
| "tear bs off i (blk # blks) r c = (case rng_below 2 r of (v, r') \<Rightarrow>
     if v = 0
     then (case apply_entry c (block_addr bs off i) blk of
             None \<Rightarrow> None | Some c' \<Rightarrow> tear bs off (Suc i) blks r' c')
     else tear bs off (Suc i) blks r' c)"

fun crash_entries :: "crash_mode \<Rightarrow> u32 \<Rightarrow> (u64 \<times> u8 list) list \<Rightarrow> u64 \<Rightarrow> u8 list \<Rightarrow> crash_report \<Rightarrow>
    (u64 \<times> u8 list \<times> crash_report) option" where
  "crash_entries mode bs [] r c rep = Some (r, c, rep)"
| "crash_entries Drop bs ((off, data) # es) r c rep =
     crash_entries Drop bs es r c (rep\<lparr>rep_dropped := rep_dropped rep + 1\<rparr>)"
| "crash_entries Seeded bs ((off, data) # es) r c rep = (case rng_below 100 r of (v, r') \<Rightarrow>
     if v \<le> 39 then
       (case apply_entry c off data of
          None \<Rightarrow> None
        | Some c' \<Rightarrow> crash_entries Seeded bs es r' c' (rep\<lparr>rep_committed := rep_committed rep + 1\<rparr>))
     else if v \<le> 69 then
       crash_entries Seeded bs es r' c (rep\<lparr>rep_dropped := rep_dropped rep + 1\<rparr>)
     else if bs = 0 then None
     else (case tear bs off 0 (chunks (unat bs) data) r' c of
             None \<Rightarrow> None
           | Some (r'', c') \<Rightarrow>
               crash_entries Seeded bs es r'' c' (rep\<lparr>rep_torn := rep_torn rep + 1\<rparr>)))"

definition model_crash :: "crash_mode \<Rightarrow> model \<Rightarrow> (crash_report \<times> model) option" where
  "model_crash mode m =
     map_option (\<lambda>(r, c, rep). (rep, m\<lparr>stats := (stats m)\<lparr>crashes := crashes (stats m) + 1\<rparr>,
         volatile := [], volatile_bytes := 0, rng := r, committed := c\<rparr>))
       (crash_entries mode (lbs m) (volatile m) (rng m) (committed m)
         \<lparr>rep_committed = 0, rep_dropped = 0, rep_torn = 0\<rparr>)"

section \<open>The abstract disk\<close>

text \<open>What a reader sees: the committed bytes overlaid with the cache in arrival order.\<close>

definition put :: "u64 \<times> u8 list \<Rightarrow> u8 list \<Rightarrow> u8 list" where
  "put e c = write_at (unat (fst e)) (snd e) c"

definition view :: "model \<Rightarrow> u8 list" where
  "view m = fold put (volatile m) (committed m)"

definition entry_ok :: "nat \<Rightarrow> u64 \<times> u8 list \<Rightarrow> bool" where
  "entry_ok n e \<longleftrightarrow> unat (fst e) + length (snd e) \<le> n"

definition model_wf :: "model \<Rightarrow> bool" where
  "model_wf m \<longleftrightarrow> lbs m \<noteq> 0 \<and> unat (cache_cap m) + length (committed m) + 1 < 2 ^ 64 \<and>
     list_all (entry_ok (length (committed m))) (volatile m) \<and>
     sum_list (map (\<lambda>e. length (snd e)) (volatile m)) = unat (volatile_bytes m) \<and>
     volatile_bytes m \<le> cache_cap m"

section \<open>Entries\<close>

lemma put_pair: "put (off, data) c = write_at (unat off) data c"
  by (simp add: put_def)

lemma entry_ok_pair: "entry_ok n (off, data) \<longleftrightarrow> unat off + length data \<le> n"
  by (simp add: entry_ok_def)

lemma length_put [simp]: "entry_ok (length c) e \<Longrightarrow> length (put e c) = length c"
  by (simp add: put_def entry_ok_def)

lemma nth_put:
  "entry_ok (length c) e \<Longrightarrow> k < length c \<Longrightarrow> put e c ! k =
     (if unat (fst e) \<le> k \<and> k < unat (fst e) + length (snd e)
      then snd e ! (k - unat (fst e)) else c ! k)"
  by (simp add: put_def entry_ok_def nth_write_at)

lemma length_fold_put [simp]:
  "list_all (entry_ok (length c)) es \<Longrightarrow> length (fold put es c) = length c"
proof (induction es arbitrary: c)
  case (Cons e es)
  then have "length (put e c) = length c" by simp
  with Cons show ?case by simp
qed simp

lemma apply_entry_ok:
  assumes "entry_ok (length c) (off, data)" and "length c < 2 ^ 64"
  shows "apply_entry c off data = Some (put (off, data) c)"
proof -
  have "unat off + length data < 2 ^ 64" using assms by (simp add: entry_ok_def)
  then have "unat (off + of_nat (length data)) = unat off + length data"
    by (simp add: unat_add_of_nat)
  then show ?thesis using assms(1) by (simp add: apply_entry_def put_def entry_ok_def)
qed

lemma apply_all_ok:
  "list_all (entry_ok (length c)) es \<Longrightarrow> length c < 2 ^ 64 \<Longrightarrow> apply_all es c = Some (fold put es c)"
proof (induction es arbitrary: c)
  case (Cons e es)
  then show ?case by (cases e) (simp add: apply_entry_ok)
qed simp

text \<open>\<open>overlay\<close> on a window of a disk computes that window of the disk with the entry put.\<close>

text \<open>
  A window of the content after an entry: what it was, where the two do not meet, and else the
  part of the entry from \<open>s\<close> to \<open>t\<close> written into it.
\<close>

lemma window_apart:
  assumes "entry_ok (length c) (doff, data)" and "W + n \<le> length c"
    and "min (W + n) (unat doff + length data) \<le> max W (unat doff)"
  shows "take n (drop W (put (doff, data) c)) = take n (drop W c)"
proof (rule nth_equalityI)
  fix k assume "k < length (take n (drop W (put (doff, data) c)))"
  then have "k < n" "W + k < length c" using assms(1,2) by simp_all
  moreover have "\<not> (unat doff \<le> W + k \<and> W + k < unat doff + length data)" using assms(3) \<open>k < n\<close> by auto
  ultimately show "take n (drop W (put (doff, data) c)) ! k = take n (drop W c) ! k"
    using assms(1) by (auto simp: nth_put)
qed (use assms(1) in simp)

lemma window_overlap:
  fixes doff :: u64 and data c :: "u8 list" and W n :: nat
  defines "D \<equiv> unat doff" defines "s \<equiv> max W D" defines "t \<equiv> min (W + n) (D + length data)"
  assumes e: "entry_ok (length c) (doff, data)" and w: "W + n \<le> length c" and st: "s < t"
  shows "take n (drop W (put (doff, data) c)) =
    write_at (s - W) (take ((t - D) - (s - D)) (drop (s - D) data)) (take n (drop W c))"
proof (rule nth_equalityI)
  let ?piece = "take ((t - D) - (s - D)) (drop (s - D) data)" and ?out = "take n (drop W c)"
  have pl: "length ?piece = t - s" using st by (auto simp: s_def t_def)
  have out: "length ?out = n" using w by simp
  have in_out: "s - W + (t - s) \<le> n" using st by (auto simp: s_def t_def)
  show "length (take n (drop W (put (doff, data) c))) = length (write_at (s - W) ?piece ?out)"
    using e w in_out by (subst length_write_at) (auto simp: pl)
  fix k assume "k < length (take n (drop W (put (doff, data) c)))"
  then have k: "k < n" "W + k < length c" using e w by simp_all
  have "s - W + length ?piece \<le> length ?out" "k < length ?out" unfolding pl out by (rule in_out, rule k)
  from nth_write_at [OF this] have "write_at (s - W) ?piece ?out ! k =
      (if s - W \<le> k \<and> k < s - W + (t - s) then ?piece ! (k - (s - W)) else ?out ! k)"
    unfolding pl .
  also have "\<dots> = take n (drop W (put (doff, data) c)) ! k"
    using k e st by (auto simp: nth_put add.commute D_def s_def t_def)
  finally show "take n (drop W (put (doff, data) c)) ! k = write_at (s - W) ?piece ?out ! k" by simp
qed

lemma overlay_window:
  assumes e: "entry_ok (length c) (doff, data)" and c: "length c < 2 ^ 64"
    and w: "unat woff + n \<le> length c"
  shows "overlay (take n (drop (unat woff) c)) woff doff data =
    Some (take n (drop (unat woff) (put (doff, data) c)))"
proof -
  let ?out = "take n (drop (unat woff) c)"
  let ?W = "unat woff" and ?D = "unat doff" and ?L = "length data"
  let ?s = "max ?W ?D" and ?t = "min (?W + n) (?D + ?L)"
  have out: "length ?out = n" using w by simp
  have dl: "?D + ?L \<le> length c" using e by (simp add: entry_ok_def)
  have wend: "unat (woff + of_nat n) = ?W + n"
    using w c by (simp add: unat_add_of_nat)
  have dend: "unat (doff + of_nat ?L) = ?D + ?L"
    using dl c by (simp add: unat_add_of_nat)
  let ?start = "max woff doff" and ?stop = "min (woff + of_nat n) (doff + of_nat ?L)"
  have start: "unat ?start = ?s" and stop: "unat ?stop = ?t"
    by (simp_all add: unat_max unat_min wend dend)
  show ?thesis
  proof (cases "?t \<le> ?s")
    case True
    then have "take n (drop ?W (put (doff, data) c)) = ?out" by (rule window_apart [OF e w])
    with True show ?thesis unfolding overlay_def out Let_def word_le_nat_alt start stop by simp
  next
    case False
    have sub: "unat (?stop - woff) = ?t - ?W" "unat (?start - woff) = ?s - ?W"
        "unat (?stop - doff) = ?t - ?D" "unat (?start - doff) = ?s - ?D"
      using False start stop by (simp_all add: unat_sub word_le_nat_alt)
    let ?piece = "take ((?t - ?D) - (?s - ?D)) (drop (?s - ?D) data)"
    have "take n (drop ?W (put (doff, data) c)) = write_at (?s - ?W) ?piece ?out"
      by (rule window_overlap [OF e w]) (use False in \<open>simp only: not_le\<close>)
    moreover have "\<not> ?t \<le> ?s" "?t - ?W \<le> n" "?t - ?D \<le> ?L" using False by simp_all
    ultimately show ?thesis
      unfolding overlay_def out Let_def word_le_nat_alt start stop sub by simp
  qed
qed

lemma overlay_all_window:
  "list_all (entry_ok (length c)) es \<Longrightarrow> length c < 2 ^ 64 \<Longrightarrow> unat woff + n \<le> length c \<Longrightarrow>
     overlay_all woff es (take n (drop (unat woff) c)) =
       Some (take n (drop (unat woff) (fold put es c)))"
proof (induction es arbitrary: c)
  case (Cons e es)
  then show ?case by (cases e) (simp add: overlay_window)
qed simp

section \<open>The cache\<close>

text \<open>The invariant without the bound on the cache, which \<open>push_volatile\<close> restores.\<close>

definition cache_ok :: "model \<Rightarrow> bool" where
  "cache_ok m \<longleftrightarrow> lbs m \<noteq> 0 \<and> unat (cache_cap m) + length (committed m) + 1 < 2 ^ 64 \<and>
     list_all (entry_ok (length (committed m))) (volatile m) \<and>
     sum_list (map (\<lambda>e. length (snd e)) (volatile m)) = unat (volatile_bytes m)"

lemma model_wf_cache: "model_wf m \<longleftrightarrow> cache_ok m \<and> volatile_bytes m \<le> cache_cap m"
  by (auto simp: model_wf_def cache_ok_def)

text \<open>
  What no operation changes, and what one that is not a power loss keeps besides: the bytes
  leave the cache oldest first.
\<close>

definition drained :: "nat \<Rightarrow> model \<Rightarrow> model \<Rightarrow> bool" where
  "drained k m m' \<longleftrightarrow> volatile m' = drop k (volatile m) \<and>
     committed m' = fold put (take k (volatile m)) (committed m) \<and>
     lbs m' = lbs m \<and> cache_cap m' = cache_cap m \<and> rng m' = rng m \<and> policy m' = policy m"

lemma drained_view: "drained k m m' \<Longrightarrow> view m' = view m"
  by (metis append_take_drop_id comp_apply drained_def fold_append view_def)

lemma drain_ok:
  "cache_ok m \<Longrightarrow> \<exists>m' k. drain m = Some m' \<and> model_wf m' \<and> drained k m m'"
proof (induction m rule: drain.induct)
  case (1 m)
  show ?case
  proof (cases "cache_cap m < volatile_bytes m")
    case False
    then have "drain m = Some m" by (simp add: drain.simps)
    moreover have "model_wf m" using 1(2) False by (simp add: model_wf_cache)
    moreover have "drained 0 m m" by (simp add: drained_def)
    ultimately show ?thesis by blast
  next
    case True
    have "unat (volatile_bytes m) \<noteq> 0" using True by (simp add: word_less_nat_alt)
    then obtain voff vdata rest where v: "volatile m = (voff, vdata) # rest"
      using 1(2) by (cases "volatile m") (auto simp: cache_ok_def)
    let ?c = "put (voff, vdata) (committed m)"
    let ?m = "m\<lparr>volatile := rest, volatile_bytes := volatile_bytes m - of_nat (length vdata),
      committed := ?c, stats := (stats m)\<lparr>autonomous_writebacks :=
        autonomous_writebacks (stats m) + 1\<rparr>\<rparr>"
    have e: "entry_ok (length (committed m)) (voff, vdata)" and c: "length (committed m) < 2 ^ 64"
      using 1(2) v by (simp_all add: cache_ok_def)
    have app: "apply_entry (committed m) voff vdata = Some ?c" using e c by (rule apply_entry_ok)
    have step: "drain m = drain ?m" using True v app by (subst drain.simps) simp
    have "unat (of_nat (length vdata) :: u64) = length vdata"
      using e c by (intro unat_of_nat_less) (simp add: entry_ok_def)
    then have "unat (volatile_bytes m - of_nat (length vdata)) = unat (volatile_bytes m) - length vdata"
      using 1(2) v by (subst unat_sub) (simp_all add: cache_ok_def word_le_nat_alt)
    then have "cache_ok ?m" using 1(2) v e by (auto simp: cache_ok_def)
    then obtain m' k where "drain ?m = Some m'" "model_wf m'" "drained k ?m m'"
      using 1(1) [OF True v _ app] by auto
    moreover from \<open>drained k ?m m'\<close> have "drained (Suc k) m m'" by (simp add: drained_def v)
    ultimately show ?thesis using step by auto
  qed
qed

text \<open>
  A well-formed model takes an entry of the device: it does not panic, stays well-formed,
  shows the entry, and what left the cache for the medium left it in arrival order.
\<close>

definition frame :: "model \<Rightarrow> model \<Rightarrow> bool" where
  "frame m m' \<longleftrightarrow> length (committed m') = length (committed m) \<and> lbs m' = lbs m \<and>
     cache_cap m' = cache_cap m \<and> policy m' = policy m"

definition stored :: "model \<Rightarrow> u64 \<times> u8 list \<Rightarrow> model \<Rightarrow> bool" where
  "stored m e m' \<longleftrightarrow> model_wf m' \<and> frame m m' \<and>
     (\<exists>es j. (es = volatile m @ [e] \<or> snd e = [] \<and> es = volatile m) \<and>
        volatile m' = drop j es \<and> committed m' = fold put (take j es) (committed m))"

lemma put_empty: "snd e = [] \<Longrightarrow> put e c = c"
  by (simp add: put_def)

lemma fold_put_split: "fold put (drop j es) (fold put (take j es) c) = fold put es c"
  by (metis append_take_drop_id comp_apply fold_append)

lemma stored_view: "stored m e m' \<Longrightarrow> view m' = put e (view m)"
  by (auto simp: stored_def view_def fold_put_split put_empty simp del: take_append drop_append)

lemma storedD:
  "stored m e m' \<Longrightarrow> model_wf m' \<and> frame m m' \<and> policy m' = policy m \<and> view m' = put e (view m)"
  by (simp add: stored_view) (simp add: stored_def frame_def)

lemma push_volatile_ok:
  assumes "model_wf m" and "entry_ok (length (committed m)) (off, data)"
  shows "\<exists>m'. push_volatile off data m = Some m' \<and> stored m (off, data) m'"
proof -
  let ?es = "volatile m @ [(off, data)]"
  let ?m = "m\<lparr>volatile_bytes := volatile_bytes m + of_nat (length data), volatile := ?es\<rparr>"
  have "length data \<le> length (committed m)" using assms(2) by (simp add: entry_ok_def)
  moreover have "unat (volatile_bytes m) \<le> unat (cache_cap m)"
    using assms(1) by (simp add: model_wf_def word_le_nat_alt)
  ultimately have "unat (volatile_bytes m) + length data < 2 ^ 64"
    using assms(1) by (simp add: model_wf_def)
  then have "unat (volatile_bytes m + of_nat (length data)) = unat (volatile_bytes m) + length data"
    by (simp add: unat_add_of_nat)
  then have ok: "cache_ok ?m" using assms by (simp add: model_wf_def cache_ok_def)
  then obtain m' k where m': "drain ?m = Some m'" "model_wf m'" "drained k ?m m'"
    using drain_ok by blast
  have "list_all (entry_ok (length (committed m))) (take k ?es)"
    using ok by (auto simp: cache_ok_def list_all_iff dest: in_set_takeD)
  then have "length (fold put (take k ?es) (committed m)) = length (committed m)"
    by (rule length_fold_put)
  then have "stored m (off, data) m'"
    using m'(2,3) unfolding stored_def frame_def drained_def
    by (intro conjI exI [of _ ?es] exI [of _ k]) (simp_all del: take_append drop_append)
  with m'(1) show ?thesis by (auto simp: push_volatile_def)
qed

lemma model_wf_frame [simp]:
  "model_wf (m\<lparr>stats := x\<rparr>) = model_wf m" "model_wf (m\<lparr>rng := r\<rparr>) = model_wf m"
  "view (m\<lparr>stats := x\<rparr>) = view m" "view (m\<lparr>rng := r\<rparr>) = view m"
  "stored (m\<lparr>stats := x\<rparr>) e m' = stored m e m'" "stored (m\<lparr>rng := r\<rparr>) e m' = stored m e m'"
  by (simp_all add: model_wf_def view_def stored_def frame_def)

lemma frame_refl [simp]:
  "frame m m" "frame m (m\<lparr>stats := x\<rparr>)" "frame m (m\<lparr>rng := r, stats := x\<rparr>)"
  by (simp_all add: frame_def)

lemma length_view [simp]: "model_wf m \<Longrightarrow> length (view m) = length (committed m)"
  by (simp add: view_def model_wf_def)

section \<open>Operation by operation\<close>

lemma model_read_ok:
  assumes "model_wf m" and "unat off + n \<le> length (committed m)"
  shows "model_read off n m = Some (take n (drop (unat off) (view m)),
    m\<lparr>stats := (stats m)\<lparr>reads := reads (stats m) + 1\<rparr>\<rparr>)"
proof -
  have "unat off + n < 2 ^ 64" using assms by (simp add: model_wf_def)
  then have "unat (off + of_nat n) = unat off + n" by (simp add: unat_add_of_nat)
  then show ?thesis
    using assms overlay_all_window [of "committed m" "volatile m" off n]
    by (simp add: model_read_def view_def model_wf_def)
qed

lemma blocks_no_wrap:
  assumes "n + 1 < 2 ^ 64"
  shows "unat (of_nat n div ucast (bs :: u32) + 1 :: u64) = unat (of_nat n div ucast bs :: u64) + 1"
    and "of_nat n div ucast bs + 1 \<noteq> (0 :: u64)"
proof -
  have "unat (of_nat n div ucast bs :: u64) \<le> unat (of_nat n :: u64)"
    by (simp add: unat_div_distrib)
  also have "\<dots> = n" using assms by (intro unat_of_nat_less) simp
  finally show "unat (of_nat n div ucast (bs :: u32) + 1 :: u64) =
      unat (of_nat n div ucast bs :: u64) + 1"
    using assms by (subst unat_add_no_overflow) simp_all
  then show "of_nat n div ucast bs + 1 \<noteq> (0 :: u64)" by (metis add_eq_0_iff_both_eq_0 unat_0 one_neq_zero)
qed

lemma error_keep_bound:
  fixes v :: u64
  assumes "v < of_nat n div ucast bs + 1" and "n + 1 < 2 ^ 64" and "bs \<noteq> (0::u32)"
  shows "unat (v * ucast bs) = unat v * unat bs \<and> unat v * unat bs \<le> n"
proof -
  let ?b = "ucast bs :: u64"
  have b: "unat ?b = unat bs"
    using unat_u32_less [of bs] by (simp add: unsigned_ucast_eq take_bit_nat_eq_self)
  have blk: "unat (of_nat n div ?b) = n div unat bs"
    using assms(2) by (simp add: unat_div_distrib b unat_of_nat_less)
  have "unat (of_nat n div ?b + 1) = n div unat bs + 1"
    using blocks_no_wrap [OF assms(2), of bs] blk by simp
  then have "unat v \<le> n div unat bs" using assms(1) by (simp add: word_less_nat_alt)
  then have "unat v * unat bs \<le> n div unat bs * unat bs" by (rule mult_le_mono1)
  also have "\<dots> \<le> n" by simp
  finally have le: "unat v * unat bs \<le> n" .
  moreover have "unat (v * ?b) = unat v * unat bs"
    using le assms(2) by (simp add: unat_word_ariths b)
  ultimately show ?thesis by simp
qed

text \<open>
  \<open>write\<close>: either all the data enters the cache and its length is returned, or the write
  fails with \<open>EIO\<close> and some whole logical blocks of its start enter the cache.
\<close>

definition write_outcome :: "i32 \<Rightarrow> model \<Rightarrow> u8 list \<Rightarrow> i32 \<Rightarrow> nat \<Rightarrow> bool" where
  "write_outcome eio m data res k \<longleftrightarrow>
     (if fst (rng_hit (error_pm (policy m)) (rng m))
      then res = - eio \<and> k \<le> length data \<and> unat (lbs m) dvd k
      else res = of_nat (length data) \<and> k = length data)"

lemma model_write_honest:
  assumes "model_wf m" and "unat off + length data \<le> length (committed m)"
    and hit: "rng_hit (error_pm (policy m)) (rng m) = (False, r)"
  shows "\<exists>m'. model_write eio off data m = Some (of_nat (length data), m') \<and> stored m (off, data) m'"
proof -
  let ?m = "m\<lparr>stats := (stats m)\<lparr>writes := writes (stats m) + 1\<rparr>, rng := r\<rparr>"
  obtain m' where "push_volatile off data ?m = Some m'" "stored m (off, data) m'"
    using push_volatile_ok [of ?m off data] assms(1,2) by (auto simp: entry_ok_pair)
  with hit show ?thesis by (simp add: model_write_def)
qed

text \<open>A failed write keeps \<open>v\<close> whole blocks, maybe none.\<close>

lemma model_write_failed:
  assumes "model_wf m" and "unat off + length data \<le> length (committed m)"
    and hit: "rng_hit (error_pm (policy m)) (rng m) = (True, r)"
  shows "\<exists>m' k. model_write eio off data m = Some (- eio, m') \<and> k \<le> length data \<and> unat (lbs m) dvd k \<and>
    stored m (off, take k data) m'"
proof -
  let ?B = "of_nat (length data) div ucast (lbs m) :: u64"
  obtain v r' where v: "rng_below (?B + 1) r = (v, r')" by fastforce
  have ok: "entry_ok (length (committed m)) (off, take k data)" for k
    using assms(2) by (simp add: entry_ok_pair)
  have n: "length data + 1 < 2 ^ 64" "lbs m \<noteq> 0" using assms(1,2) by (simp_all add: model_wf_def)
  note B = blocks_no_wrap [OF n(1), of "lbs m"]
  have "v < ?B + 1"
    using v B by (auto simp: rng_below_def word_less_nat_alt unat_mod_distrib split: prod.splits)
  note keep = error_keep_bound [OF this n]
  let ?m1 = "m\<lparr>stats := (stats m)\<lparr>writes := writes (stats m) + 1\<rparr>\<rparr>"
  let ?m3 = "?m1\<lparr>rng := r, stats := (stats ?m1)\<lparr>errors_injected := errors_injected (stats ?m1) + 1\<rparr>, rng := r'\<rparr>"
  let ?k = "unat v * unat (lbs m)"
  show ?thesis
  proof (cases "0 < v * ucast (lbs m)")
    case False
    have "model_write eio off data m = Some (- eio, ?m3)"
      using False hit v n B by (simp add: model_write_def)
    moreover have "stored m (off, take 0 data) ?m3"
      using assms(1) unfolding stored_def
      by (intro conjI exI [of _ "volatile m"] exI [of _ 0]) (simp_all add: frame_def)
    ultimately show ?thesis by (intro exI [of _ ?m3] exI [of _ 0]) simp
  next
    case True
    obtain m' where m': "push_volatile off (take ?k data) ?m3 = Some m'" "stored m (off, take ?k data) m'"
      using push_volatile_ok [of ?m3 off "take ?k data"] assms(1) ok by auto
    then have "model_write eio off data m = Some (- eio, m')"
      using True hit v n B keep by (simp add: model_write_def)
    with m' keep show ?thesis by (intro exI [of _ m'] exI [of _ ?k]) simp
  qed
qed

lemma model_write_ok:
  assumes "model_wf m" and "unat off + length data \<le> length (committed m)"
  shows "\<exists>res m' k. model_write eio off data m = Some (res, m') \<and>
    write_outcome eio m data res k \<and> stored m (off, take k data) m'"
proof -
  obtain e r where hit: "rng_hit (error_pm (policy m)) (rng m) = (e, r)" by fastforce
  show ?thesis
  proof (cases e)
    case False
    with model_write_honest [OF assms, of r eio] hit obtain m' where
      "model_write eio off data m = Some (of_nat (length data), m')" "stored m (off, data) m'" by auto
    with False hit show ?thesis
      by (intro exI [of _ "of_nat (length data)"] exI [of _ m'] exI [of _ "length data"])
        (simp add: write_outcome_def)
  next
    case True
    with model_write_failed [OF assms, of r eio] hit show ?thesis by (auto simp: write_outcome_def)
  qed
qed

lemma model_discard_ok:
  assumes "model_wf m" and "unat off + unat n \<le> length (committed m)"
  shows "\<exists>m'. model_discard off n m = Some m' \<and> stored m (off, replicate (unat n) 0) m'"
  using push_volatile_ok [of "m\<lparr>stats := (stats m)\<lparr>discards := discards (stats m) + 1\<rparr>\<rparr>" off
      "replicate (unat n) 0"] assms
  by (auto simp: model_discard_def entry_ok_pair)

text \<open>\<open>flush\<close>: a lie changes nothing, an honest flush commits what readers see.\<close>

lemma model_flush_ok:
  assumes "model_wf m"
  shows "\<exists>m'. model_flush m = Some m' \<and> model_wf m' \<and> view m' = view m \<and>
    frame m m' \<and>
    (if fst (rng_hit (flush_lie_pm (policy m)) (rng m))
     then committed m' = committed m \<and> volatile m' = volatile m
     else committed m' = view m \<and> volatile m' = [])"
proof -
  obtain e r where hit: "rng_hit (flush_lie_pm (policy m)) (rng m) = (e, r)" by fastforce
  have "apply_all (volatile m) (committed m) = Some (view m)"
    using assms apply_all_ok by (simp add: view_def model_wf_def)
  moreover have "length (view m) = length (committed m)" using assms by simp
  ultimately show ?thesis
    using assms hit by (cases e) (auto simp: model_flush_def model_wf_def view_def frame_def)
qed

lemma rng_hit_zero [simp]: "rng_hit 0 r = (False, r)"
  by (simp add: rng_hit_def)

section \<open>Power loss\<close>

text \<open>The logical blocks of an entry, in order.\<close>

fun block_list :: "u32 \<Rightarrow> u64 \<Rightarrow> nat \<Rightarrow> u8 list list \<Rightarrow> (u64 \<times> u8 list) list" where
  "block_list bs off i [] = []"
| "block_list bs off i (blk # blks) =
     (block_addr bs off i, blk) # block_list bs off (Suc i) blks"

definition entry_blocks :: "u32 \<Rightarrow> u64 \<times> u8 list \<Rightarrow> (u64 \<times> u8 list) list" where
  "entry_blocks bs e = block_list bs (fst e) 0 (chunks (unat bs) (snd e))"

definition cache_blocks :: "model \<Rightarrow> (u64 \<times> u8 list) list" where
  "cache_blocks m = concat (map (entry_blocks (lbs m)) (volatile m))"

lemma block_list_ok:
  assumes "unat off + i * unat bs + length data \<le> n" and "n < 2 ^ 64" and "bs \<noteq> 0"
  shows "list_all (entry_ok n) (block_list bs off i (chunks (unat bs) data))"
  using assms(1)
proof (induction data arbitrary: i rule: length_induct)
  case (1 data)
  show ?case
  proof (cases "data = []")
    case False
    have u: "unat (block_addr bs off i) = unat off + i * unat bs"
      unfolding block_addr_def by (rule unat_add_of_nat) (use 1(2) assms(2) in simp)
    have bs: "0 < unat bs" using assms(3) by (simp add: unat_gt_0)
    have "list_all (entry_ok n) (block_list bs off (Suc i) (chunks (unat bs) (drop (unat bs) data)))"
    proof (cases "length data \<le> unat bs")
      case False
      then have "unat off + Suc i * unat bs + length (drop (unat bs) data) \<le> n" using 1(2) by simp
      with 1(1) False bs show ?thesis by simp
    qed simp
    then show ?thesis
      using False bs 1(2) u by (simp add: chunks.simps [of "unat bs" data] entry_ok_pair)
  qed simp
qed

lemma entry_blocks_ok:
  "entry_ok n e \<Longrightarrow> n < 2 ^ 64 \<Longrightarrow> bs \<noteq> 0 \<Longrightarrow> list_all (entry_ok n) (entry_blocks bs e)"
  unfolding entry_blocks_def by (rule block_list_ok) (simp_all add: entry_ok_def)

lemma write_at_append:
  "i + length xs + length ys \<le> length c \<Longrightarrow>
     write_at i (xs @ ys) c = write_at (i + length xs) ys (write_at i xs c)"
  by (rule nth_equalityI) (auto simp: nth_write_at nth_append)

lemma fold_block_list:
  assumes "unat off + i * unat bs + length data \<le> length c" and "length c < 2 ^ 64" and "bs \<noteq> 0"
  shows "fold put (block_list bs off i (chunks (unat bs) data)) c =
    write_at (unat off + i * unat bs) data c"
  using assms(1,2)
proof (induction data arbitrary: i c rule: length_induct)
  case (1 data)
  show ?case
  proof (cases "data = []")
    case False
    let ?b = "unat bs" and ?a = "unat off + i * unat bs"
    have u: "unat (block_addr bs off i) = ?a"
      unfolding block_addr_def by (rule unat_add_of_nat) (use 1(2,3) in simp)
    have b: "0 < ?b" using assms(3) by (simp add: unat_gt_0)
    let ?c = "write_at ?a (take ?b data) c"
    have c: "length ?c = length c" using 1(2) by (subst length_write_at) simp_all
    have "fold put (block_list bs off (Suc i) (chunks ?b (drop ?b data))) ?c =
        write_at (?a + length (take ?b data)) (drop ?b data) ?c"
    proof (cases "length data \<le> ?b")
      case False
      then have "unat off + Suc i * ?b + length (drop ?b data) \<le> length ?c" "length ?c < 2 ^ 64"
        unfolding c using 1(2,3) by simp_all
      with 1(1) b False have "fold put (block_list bs off (Suc i) (chunks ?b (drop ?b data))) ?c =
          write_at (unat off + Suc i * ?b) (drop ?b data) ?c" by simp
      then show ?thesis using False by (simp add: min_def algebra_simps)
    qed simp
    also have "\<dots> = write_at ?a data c"
      using 1(2) write_at_append [of ?a "take ?b data" "drop ?b data" c] by simp
    finally show ?thesis
      using False b u by (simp add: chunks.simps [of ?b data] put_pair)
  qed simp
qed

lemma fold_entry_blocks:
  "entry_ok (length c) e \<Longrightarrow> length c < 2 ^ 64 \<Longrightarrow> bs \<noteq> 0 \<Longrightarrow> fold put (entry_blocks bs e) c = put e c"
  using fold_block_list [of "fst e" 0 bs "snd e" c] by (simp add: entry_blocks_def put_def entry_ok_def)

lemma tear_ok:
  "list_all (entry_ok (length c)) (block_list bs off i blks) \<Longrightarrow> length c < 2 ^ 64 \<Longrightarrow>
     \<exists>r' ps. tear bs off i blks r c = Some (r', fold put ps c) \<and> subseq ps (block_list bs off i blks)"
proof (induction blks arbitrary: i r c)
  case Nil
  then show ?case by (auto intro: exI [of _ "[]"])
next
  case (Cons blk blks)
  let ?e = "(block_addr bs off i, blk)"
  obtain v r' where v: "rng_below 2 r = (v, r')" by (cases "rng_below 2 r")
  show ?case
  proof (cases "v = 0")
    case True
    have e: "entry_ok (length c) ?e" using Cons.prems by simp
    then have len: "length (put ?e c) = length c" by simp
    have "list_all (entry_ok (length (put ?e c))) (block_list bs off (Suc i) blks)"
      using Cons.prems by (simp add: len)
    moreover have "length (put ?e c) < 2 ^ 64" unfolding len by (rule Cons.prems(2))
    ultimately obtain r'' ps
      where "tear bs off (Suc i) blks r' (put ?e c) = Some (r'', fold put ps (put ?e c))"
        "subseq ps (block_list bs off (Suc i) blks)"
      using Cons.IH [of "put ?e c" "Suc i" r'] by blast
    moreover have "apply_entry c (fst ?e) (snd ?e) = Some (put ?e c)"
      using apply_entry_ok [of c "fst ?e" "snd ?e"] e Cons.prems(2) by simp
    ultimately show ?thesis
      using True v by (intro exI [of _ r''] exI [of _ "?e # ps"]) simp
  next
    case False
    with Cons.IH [of c "Suc i" r'] Cons.prems v show ?thesis by (auto intro: list_emb_Cons)
  qed
qed

definition rep_total :: "crash_report \<Rightarrow> u64" where
  "rep_total rep = rep_committed rep + rep_dropped rep + rep_torn rep"

text \<open>One entry at a power loss: some of its blocks are applied.\<close>

lemma crash_entry_step:
  assumes "entry_ok (length c) e" and "length c < 2 ^ 64" and "bs \<noteq> 0"
  shows "\<exists>qs r1 rep1. crash_entries mode bs (e # es) r c rep = crash_entries mode bs es r1 (fold put qs c) rep1 \<and>
    subseq qs (entry_blocks bs e) \<and> rep_total rep1 = rep_total rep + 1 \<and> (mode = Drop \<longrightarrow> qs = [])"
proof -
  obtain off data where e: "e = (off, data)" by (cases e)
  show ?thesis
  proof (cases mode)
    case Drop
    then show ?thesis by (intro exI [of _ "[]"] exI [of _ r] exI [of _ "rep\<lparr>rep_dropped := rep_dropped rep + 1\<rparr>"])
      (simp add: e rep_total_def)
  next
    case Seeded
    obtain v r1 where v: "rng_below 100 r = (v, r1)" by (cases "rng_below 100 r")
    consider "v \<le> 39" | "\<not> v \<le> 39" "v \<le> 69" | "\<not> v \<le> 69" "\<not> v \<le> 39" by blast
    then show ?thesis
    proof cases
      case 1
      have "apply_entry c off data = Some (fold put (entry_blocks bs e) c)"
        using apply_entry_ok assms by (simp add: fold_entry_blocks e)
      with 1 v Seeded show ?thesis
        by (intro exI [of _ "entry_blocks bs e"] exI [of _ r1] exI [of _ "rep\<lparr>rep_committed := rep_committed rep + 1\<rparr>"])
          (simp add: e rep_total_def)
    next
      case 2
      with v Seeded show ?thesis
        by (intro exI [of _ "[]"] exI [of _ r1] exI [of _ "rep\<lparr>rep_dropped := rep_dropped rep + 1\<rparr>"])
          (simp add: e rep_total_def)
    next
      case 3
      from tear_ok [of c bs off 0 "chunks (unat bs) data" r1] entry_blocks_ok [OF assms]
      obtain r2 qs where "tear bs off 0 (chunks (unat bs) data) r1 c = Some (r2, fold put qs c)"
        "subseq qs (entry_blocks bs e)"
        using assms(2) by (auto simp: entry_blocks_def e)
      with 3 v Seeded assms(3) show ?thesis
        by (intro exI [of _ qs] exI [of _ r2] exI [of _ "rep\<lparr>rep_torn := rep_torn rep + 1\<rparr>"])
          (simp add: e rep_total_def)
    qed
  qed
qed

lemma crash_entries_ok:
  "list_all (entry_ok (length c)) es \<Longrightarrow> length c < 2 ^ 64 \<Longrightarrow> bs \<noteq> 0 \<Longrightarrow>
     \<exists>r' ps rep'. crash_entries mode bs es r c rep = Some (r', fold put ps c, rep') \<and>
       subseq ps (concat (map (entry_blocks bs) es)) \<and> (mode = Drop \<longrightarrow> ps = []) \<and>
       rep_total rep' = rep_total rep + of_nat (length es)"
proof (induction es arbitrary: c r rep)
  case Nil
  then show ?case by (intro exI [of _ r] exI [of _ "[]"] exI [of _ rep]) (cases mode; simp)
next
  case (Cons e es)
  have ok: "entry_ok (length c) e" using Cons.prems by simp
  obtain qs r1 rep1 where step: "crash_entries mode bs (e # es) r c rep = crash_entries mode bs es r1 (fold put qs c) rep1"
      "subseq qs (entry_blocks bs e)" "rep_total rep1 = rep_total rep + 1" "mode = Drop \<longrightarrow> qs = []"
    using crash_entry_step [OF ok Cons.prems(2,3), of mode es r rep] by blast
  have "list_all (entry_ok (length c)) qs"
    using entry_blocks_ok [OF ok Cons.prems(2,3)] step(2) by (auto simp: list_all_iff elim: list_emb_set)
  then have len: "length (fold put qs c) = length c" by simp
  from Cons.IH [of "fold put qs c" r1 rep1] Cons.prems obtain r2 ps rep2 where
    "crash_entries mode bs es r1 (fold put qs c) rep1 = Some (r2, fold put ps (fold put qs c), rep2)"
    "subseq ps (concat (map (entry_blocks bs) es))" "mode = Drop \<longrightarrow> ps = []"
    "rep_total rep2 = rep_total rep1 + of_nat (length es)"
    by (auto simp: len)
  with step show ?case
    by (intro exI [of _ r2] exI [of _ "qs @ ps"] exI [of _ rep2]) (simp add: list_emb_append_mono)
qed

lemma model_crash_ok:
  assumes "model_wf m"
  shows "\<exists>rep m' ps. model_crash mode m = Some (rep, m') \<and> model_wf m' \<and> frame m m' \<and>
    volatile m' = [] \<and> committed m' = fold put ps (committed m) \<and> subseq ps (cache_blocks m) \<and>
    (mode = Drop \<longrightarrow> ps = []) \<and> rep_total rep = of_nat (length (volatile m))"
proof -
  let ?rep0 = "\<lparr>rep_committed = 0, rep_dropped = 0, rep_torn = 0\<rparr>"
  have wf: "list_all (entry_ok (length (committed m))) (volatile m)"
      "length (committed m) < 2 ^ 64" "lbs m \<noteq> 0"
    using assms by (simp_all add: model_wf_def)
  from crash_entries_ok [OF wf, of mode "rng m" ?rep0] obtain r ps rep where
    c: "crash_entries mode (lbs m) (volatile m) (rng m) (committed m) ?rep0 =
        Some (r, fold put ps (committed m), rep)" "mode = Drop \<longrightarrow> ps = []"
      "rep_total rep = rep_total ?rep0 + of_nat (length (volatile m))"
    and ps: "subseq ps (cache_blocks m)"
    unfolding cache_blocks_def by blast
  have "list_all (entry_ok (length (committed m))) (cache_blocks m)"
    using wf entry_blocks_ok by (auto simp: cache_blocks_def list_all_iff)
  then have "length (fold put ps (committed m)) = length (committed m)"
    using ps by (intro length_fold_put) (auto simp: list_all_iff elim: list_emb_set)
  with c ps assms show ?thesis
    by (auto simp: model_crash_def model_wf_def frame_def rep_total_def)
qed

section \<open>The contract\<close>

text \<open>
  What a user of the disk relies on, as an interface: requests inside the device succeed,
  reads return the abstract disk, and every request acts on the abstract disk as on an array
  of bytes. Proved once: a whole sequence of requests returns what the array returns.
\<close>

datatype disk_op = DRead u64 nat | DWrite u64 "u8 list" | DDiscard u64 u64 | DFlush

fun op_in_range :: "nat \<Rightarrow> disk_op \<Rightarrow> bool" where
  "op_in_range n (DRead off k) \<longleftrightarrow> unat off + k \<le> n"
| "op_in_range n (DWrite off data) \<longleftrightarrow> unat off + length data \<le> n"
| "op_in_range n (DDiscard off k) \<longleftrightarrow> unat off + unat k \<le> n"
| "op_in_range n DFlush \<longleftrightarrow> True"

fun array_step :: "disk_op \<Rightarrow> u8 list \<Rightarrow> u8 list list \<times> u8 list" where
  "array_step (DRead off k) c = ([take k (drop (unat off) c)], c)"
| "array_step (DWrite off data) c = ([], write_at (unat off) data c)"
| "array_step (DDiscard off k) c = ([], write_at (unat off) (replicate (unat k) 0) c)"
| "array_step DFlush c = ([], c)"

fun array_run :: "disk_op list \<Rightarrow> u8 list \<Rightarrow> u8 list list \<times> u8 list" where
  "array_run [] c = ([], c)"
| "array_run (op # ops) c = (case array_step op c of (out, c') \<Rightarrow>
     case array_run ops c' of (outs, c'') \<Rightarrow> (out @ outs, c''))"

lemma length_array_step: "op_in_range (length c) op \<Longrightarrow> length (snd (array_step op c)) = length c"
  by (cases op) simp_all

locale disk_contract =
  fixes inv :: "'s \<Rightarrow> bool" and disk :: "'s \<Rightarrow> u8 list"
    and step :: "disk_op \<Rightarrow> 's \<Rightarrow> (u8 list list \<times> 's) option"
  assumes step_law: "inv s \<Longrightarrow> op_in_range (length (disk s)) op \<Longrightarrow>
    \<exists>s'. step op s = Some (fst (array_step op (disk s)), s') \<and> inv s' \<and>
      disk s' = snd (array_step op (disk s))"
begin

primrec run :: "disk_op list \<Rightarrow> 's \<Rightarrow> (u8 list list \<times> 's) option" where
  "run [] s = Some ([], s)"
| "run (op # ops) s = (case step op s of None \<Rightarrow> None
     | Some (out, s') \<Rightarrow> map_option (\<lambda>(outs, s''). (out @ outs, s'')) (run ops s'))"

lemma run_array:
  "inv s \<Longrightarrow> list_all (op_in_range (length (disk s))) ops \<Longrightarrow>
     \<exists>s'. run ops s = Some (fst (array_run ops (disk s)), s') \<and> inv s' \<and>
       disk s' = snd (array_run ops (disk s))"
proof (induction ops arbitrary: s)
  case (Cons op ops)
  from step_law [of s op] Cons.prems obtain s1 where
    s1: "step op s = Some (fst (array_step op (disk s)), s1)" "inv s1"
      "disk s1 = snd (array_step op (disk s))"
    by auto
  then have "length (disk s1) = length (disk s)" using Cons.prems by (simp add: length_array_step)
  with Cons.IH [OF s1(2)] Cons.prems obtain s2 where
    "run ops s1 = Some (fst (array_run ops (disk s1)), s2)" "inv s2"
      "disk s2 = snd (array_run ops (disk s1))"
    by auto
  with s1 show ?case by (auto split: prod.splits)
qed simp

end

text \<open>One request on the model, with the data it returns to the driver.\<close>

fun model_step :: "i32 \<Rightarrow> disk_op \<Rightarrow> model \<Rightarrow> (u8 list list \<times> model) option" where
  "model_step eio (DRead off k) m = map_option (\<lambda>(out, m'). ([out], m')) (model_read off k m)"
| "model_step eio (DWrite off data) m = map_option (\<lambda>(_, m'). ([], m')) (model_write eio off data m)"
| "model_step eio (DDiscard off k) m = map_option (\<lambda>m'. ([], m')) (model_discard off k m)"
| "model_step eio DFlush m = map_option (\<lambda>m'. ([], m')) (model_flush m)"

fun model_run :: "i32 \<Rightarrow> disk_op list \<Rightarrow> model \<Rightarrow> (u8 list list \<times> model) option" where
  "model_run eio [] m = Some ([], m)"
| "model_run eio (op # ops) m = (case model_step eio op m of None \<Rightarrow> None
     | Some (out, m') \<Rightarrow> map_option (\<lambda>(outs, m''). (out @ outs, m'')) (model_run eio ops m'))"

lemma model_step_ok:
  assumes "model_wf m" and "op_in_range (length (view m)) op"
  shows "\<exists>out m'. model_step eio op m = Some (out, m') \<and> model_wf m' \<and> frame m m'"
proof (cases op)
  case (DRead off n)
  then show ?thesis using assms by (simp add: model_read_ok)
next
  case (DWrite off data)
  then show ?thesis using assms model_write_ok [of m off data eio] by (auto simp: stored_def)
next
  case (DDiscard off n)
  then show ?thesis using assms model_discard_ok [of m off n] by (auto simp: stored_def)
next
  case DFlush
  then show ?thesis using assms model_flush_ok [of m] by auto
qed

lemma model_step_array:
  assumes "model_wf m" and "error_pm (policy m) = 0" and "op_in_range (length (view m)) op"
  shows "\<exists>m'. model_step eio op m = Some (fst (array_step op (view m)), m') \<and>
    (model_wf m' \<and> error_pm (policy m') = 0) \<and> view m' = snd (array_step op (view m))"
proof (cases op)
  case (DRead off n)
  then show ?thesis using assms by (simp add: model_read_ok)
next
  case (DWrite off data)
  then show ?thesis using assms model_write_ok [of m off data eio]
    by (auto simp: write_outcome_def put_pair dest!: storedD)
next
  case (DDiscard off n)
  then show ?thesis using assms model_discard_ok [of m off n]
    by (auto simp: put_pair dest!: storedD)
next
  case DFlush
  then show ?thesis using assms model_flush_ok [of m] by (auto simp: frame_def)
qed

interpretation mdl: disk_contract "\<lambda>m. model_wf m \<and> error_pm (policy m) = 0" view "model_step eio"
  for eio
  by unfold_locales (use model_step_array in blast)

lemma mdl_run: "mdl.run eio ops m = model_run eio ops m"
  by (induction ops arbitrary: m) (auto split: option.splits)

section \<open>Where a byte comes from\<close>

datatype fault_op = Request disk_op | PowerLoss crash_mode

fun fault_run :: "i32 \<Rightarrow> fault_op list \<Rightarrow> model \<Rightarrow> model option" where
  "fault_run eio [] m = Some m"
| "fault_run eio (Request op # ops) m = (case model_step eio op m of
      None \<Rightarrow> None | Some (_, m') \<Rightarrow> fault_run eio ops m')"
| "fault_run eio (PowerLoss mode # ops) m = (case model_crash mode m of
      None \<Rightarrow> None | Some (_, m') \<Rightarrow> fault_run eio ops m')"

fun fault_in_range :: "nat \<Rightarrow> fault_op \<Rightarrow> bool" where
  "fault_in_range n (Request op) = op_in_range n op"
| "fault_in_range n (PowerLoss mode) = True"

text \<open>The values a request may put at byte \<open>b\<close>.\<close>

fun op_values :: "fault_op \<Rightarrow> nat \<Rightarrow> u8 set" where
  "op_values (Request (DWrite off data)) b =
     (if unat off \<le> b \<and> b < unat off + length data then {data ! (b - unat off)} else {})"
| "op_values (Request (DDiscard off n)) b =
     (if unat off \<le> b \<and> b < unat off + unat n then {0} else {})"
| "op_values _ b = {}"

definition entry_from :: "(nat \<Rightarrow> u8 set) \<Rightarrow> u64 \<times> u8 list \<Rightarrow> bool" where
  "entry_from P e \<longleftrightarrow> (\<forall>i<length (snd e). snd e ! i \<in> P (unat (fst e) + i))"

definition bytes_from :: "(nat \<Rightarrow> u8 set) \<Rightarrow> u8 list \<Rightarrow> bool" where
  "bytes_from P c \<longleftrightarrow> (\<forall>b<length c. c ! b \<in> P b)"

definition model_from :: "(nat \<Rightarrow> u8 set) \<Rightarrow> model \<Rightarrow> bool" where
  "model_from P m \<longleftrightarrow> bytes_from P (committed m) \<and> list_all (entry_from P) (volatile m)"

lemma bytes_from_put:
  assumes "entry_ok (length c) e" and "bytes_from P c" and "entry_from P e"
  shows "bytes_from P (put e c)"
proof -
  have "snd e ! (b - unat (fst e)) \<in> P b"
    if "unat (fst e) \<le> b" and "b < unat (fst e) + length (snd e)" for b
    using assms(3) that unfolding entry_from_def
    by (metis add_diff_inverse_nat diff_less_mono less_diff_conv2 add.commute not_less)
  then show ?thesis using assms(1,2) by (auto simp: bytes_from_def nth_put)
qed

lemma bytes_from_fold:
  "list_all (entry_ok (length c)) es \<Longrightarrow> bytes_from P c \<Longrightarrow> list_all (entry_from P) es \<Longrightarrow>
     bytes_from P (fold put es c)"
proof (induction es arbitrary: c)
  case (Cons e es)
  then have "bytes_from P (put e c)" "length (put e c) = length c" by (simp_all add: bytes_from_put)
  with Cons show ?case by simp
qed simp

lemma entry_from_mono: "entry_from P e \<Longrightarrow> (\<And>b. P b \<subseteq> Q b) \<Longrightarrow> entry_from Q e"
  by (auto simp: entry_from_def)

lemma model_from_mono: "model_from P m \<Longrightarrow> (\<And>b. P b \<subseteq> Q b) \<Longrightarrow> model_from Q m"
  by (fastforce simp: model_from_def bytes_from_def list_all_iff intro: entry_from_mono)

lemma model_from_view: "model_wf m \<Longrightarrow> model_from P m \<Longrightarrow> bytes_from P (view m)"
  by (simp add: view_def model_from_def model_wf_def bytes_from_fold)

lemma block_list_from:
  assumes "unat off + i * unat bs + length data < 2 ^ 64" and "bs \<noteq> 0"
    and "\<forall>k<length data. data ! k \<in> P (unat off + i * unat bs + k)"
  shows "list_all (entry_from P) (block_list bs off i (chunks (unat bs) data))"
  using assms(1,3)
proof (induction data arbitrary: i rule: length_induct)
  case (1 data)
  show ?case
  proof (cases "data = []")
    case False
    let ?rest = "drop (unat bs) data"
    have u: "unat (block_addr bs off i) = unat off + i * unat bs"
      unfolding block_addr_def by (rule unat_add_of_nat) (use 1(2) in simp)
    have bs: "0 < unat bs" using assms(2) by (simp add: unat_gt_0)
    have "list_all (entry_from P) (block_list bs off (Suc i) (chunks (unat bs) ?rest))"
    proof (cases "length data \<le> unat bs")
      case more: False
      have "?rest ! k \<in> P (unat off + Suc i * unat bs + k)" if "k < length ?rest" for k
        using 1(3) [rule_format, of "unat bs + k"] that by (simp add: algebra_simps)
      moreover have "unat off + Suc i * unat bs + length ?rest < 2 ^ 64" using 1(2) more by simp
      ultimately show ?thesis using 1(1) [rule_format, of ?rest "Suc i"] bs more by simp
    qed simp
    moreover have "entry_from P (block_addr bs off i, take (unat bs) data)"
      using 1(3) by (simp add: entry_from_def u)
    ultimately show ?thesis using False bs by (simp add: chunks.simps [of "unat bs" data])
  qed simp
qed

lemma cache_blocks_from:
  assumes "model_wf m" and "model_from P m"
  shows "list_all (entry_from P) (cache_blocks m)"
proof -
  have "list_all (entry_from P) (entry_blocks (lbs m) e)" if "e \<in> set (volatile m)" for e
    unfolding entry_blocks_def
    by (rule block_list_from)
      (use assms that in \<open>auto simp: model_wf_def model_from_def list_all_iff entry_ok_def entry_from_def\<close>)
  then show ?thesis by (auto simp: cache_blocks_def list_all_iff)
qed

lemma stored_from:
  assumes "model_wf m" and "entry_ok (length (committed m)) e" and "stored m e m'"
    and "model_from P m" and "entry_from P e"
  shows "model_from P m'"
proof -
  obtain es j where es: "es = volatile m @ [e] \<or> es = volatile m" "volatile m' = drop j es"
      "committed m' = fold put (take j es) (committed m)"
    using assms(3) by (auto simp: stored_def)
  have "list_all (entry_ok (length (committed m))) es" "list_all (entry_from P) es"
    using es(1) assms by (auto simp: model_wf_def model_from_def)
  then have "list_all (entry_ok (length (committed m))) (take j es)"
      "list_all (entry_from P) (take j es)" "list_all (entry_from P) (drop j es)"
    by (auto simp: list_all_iff dest: in_set_takeD in_set_dropD)
  with es assms(4) show ?thesis by (simp add: model_from_def bytes_from_fold)
qed

lemma model_step_from:
  assumes "model_wf m" and "op_in_range (length (view m)) op" and "model_from P m"
    and "model_step eio op m = Some (out, m')" and "\<And>b. op_values (Request op) b \<subseteq> P b"
  shows "model_from P m'"
proof (cases op)
  case (DRead off n)
  then show ?thesis using assms by (auto simp: model_read_ok model_from_def)
next
  case (DWrite off data)
  from model_write_ok [of m off data eio] DWrite assms(1,2) obtain res m'' k
    where "model_write eio off data m = Some (res, m'')" "stored m (off, take k data) m''"
    by auto
  then have st: "stored m (off, take k data) m'" using DWrite assms(4) by simp
  have "data ! i \<in> P (unat off + i)" if "i < length data" for i
    using assms(5) [of "unat off + i"] DWrite that by simp
  then have "entry_from P (off, take k data)" by (simp add: entry_from_def)
  moreover have "entry_ok (length (committed m)) (off, take k data)"
    using assms(1,2) DWrite by (simp add: entry_ok_pair)
  ultimately show ?thesis using stored_from assms(1,3) st by blast
next
  case (DDiscard off n)
  from model_discard_ok [of m off n] DDiscard assms(1,2,4)
  have st: "stored m (off, replicate (unat n) 0) m'" by auto
  have "0 \<in> P (unat off + i)" if "i < unat n" for i
    using assms(5) [of "unat off + i"] DDiscard that by simp
  then have "entry_from P (off, replicate (unat n) 0)" by (simp add: entry_from_def)
  moreover have "entry_ok (length (committed m)) (off, replicate (unat n) 0)"
    using assms(1,2) DDiscard by (simp add: entry_ok_pair)
  ultimately show ?thesis using stored_from assms(1,3) st by blast
next
  case DFlush
  then show ?thesis
    using assms model_flush_ok [of m] model_from_view [of m P]
    by (auto simp: model_from_def split: if_splits)
qed

lemma model_crash_from:
  assumes "model_wf m" and "model_from P m" and "model_crash mode m = Some (rep, m')"
  shows "model_from P m'"
proof -
  obtain ps where ps: "volatile m' = []" "committed m' = fold put ps (committed m)"
      "subseq ps (cache_blocks m)" and fr: "frame m m'"
    using model_crash_ok [OF assms(1), of mode] assms(3) by auto
  have "list_all (entry_ok (length (committed m))) (cache_blocks m)"
    using assms(1) entry_blocks_ok by (auto simp: cache_blocks_def list_all_iff model_wf_def)
  then have "list_all (entry_ok (length (committed m))) ps" "list_all (entry_from P) ps"
    using ps(3) cache_blocks_from [OF assms(1,2)] by (auto simp: list_all_iff elim: list_emb_set)
  with ps assms(2) show ?thesis by (simp add: model_from_def bytes_from_fold)
qed

lemma fault_run_from:
  assumes "model_wf m" and "list_all (fault_in_range (length (committed m))) ops"
    and "model_from P m" and "\<And>op b. op \<in> set ops \<Longrightarrow> op_values op b \<subseteq> P b"
  shows "\<exists>m'. fault_run eio ops m = Some m' \<and> model_wf m' \<and> frame m m' \<and> model_from P m'"
  using assms
proof (induction ops arbitrary: m)
  case (Cons op ops)
  have "\<exists>m1. fault_run eio (op # ops) m = fault_run eio ops m1 \<and> model_wf m1 \<and> frame m m1 \<and>
      model_from P m1"
  proof (cases op)
    case (Request rq)
    then have "op_in_range (length (view m)) rq" using Cons.prems by simp
    with model_step_ok [of m rq eio] Cons.prems(1) obtain out m1 where
      m1: "model_step eio rq m = Some (out, m1)" "model_wf m1" "frame m m1" by blast
    moreover have "model_from P m1"
      using model_step_from [OF Cons.prems(1) \<open>op_in_range _ rq\<close> Cons.prems(3) m1(1)]
        Cons.prems(4) [of op] Request by simp
    ultimately show ?thesis using Request by auto
  next
    case (PowerLoss mode)
    with model_crash_ok [OF Cons.prems(1), of mode] model_crash_from [OF Cons.prems(1,3), of mode]
    show ?thesis by fastforce
  qed
  then obtain m1 where m1: "fault_run eio (op # ops) m = fault_run eio ops m1" "model_wf m1"
      "frame m m1" "model_from P m1" by blast
  moreover have "length (committed m1) = length (committed m)" using m1(3) by (simp add: frame_def)
  ultimately obtain m' where "fault_run eio ops m1 = Some m'" "model_wf m'" "frame m1 m'"
      "model_from P m'"
    using Cons.IH [of m1] Cons.prems(2,4) by auto
  with m1 show ?case by (auto simp: frame_def)
qed simp

section \<open>Properties\<close>

text \<open>
  C25. Normal operation is contract-perfect: with no error injection, whatever the cache bound, the
  flush lies and the seed, any sequence of reads, writes, discards and flushes inside the
  device runs without panic, every read returns what a plain array of bytes returns, and the
  model ends in a well-formed state that shows that array.
\<close>

theorem model_is_a_disk:
  assumes "model_wf m" and "error_pm (policy m) = 0"
    and "list_all (op_in_range (length (view m))) ops"
  shows "\<exists>m'. model_run eio ops m = Some (fst (array_run ops (view m)), m') \<and>
    model_wf m' \<and> view m' = snd (array_run ops (view m))"
  using mdl.run_array [of m ops eio] assms by (auto simp: mdl_run)

definition ex_policy :: policy where
  "ex_policy = \<lparr>error_pm = 0, flush_lie_pm = 0, hang_pm = 0\<rparr>"

definition ex_model :: model where
  "ex_model = model_new 8 2 3 1 ex_policy"

lemma ex_model_wf: "model_wf ex_model" "length (view ex_model) = 8" "policy ex_model = ex_policy"
    "length (committed ex_model) = 8"
  by (simp_all add: ex_model_def model_new_def model_wf_def view_def)

lemma ex_model_view: "view ex_model = [0, 0, 0, 0, 0, 0, 0, 0]"
proof -
  have "replicate 8 (0 :: u8) = [0, 0, 0, 0, 0, 0, 0, 0]" by (simp add: numeral_eq_Suc)
  then show ?thesis by (simp add: ex_model_def model_new_def view_def)
qed

theorem model_is_a_disk_witness:
  "\<exists>m'. model_run 5 [DWrite 2 [7, 8], DDiscard 3 1, DRead 1 3] ex_model = Some ([[0, 7, 0]], m')"
  using model_is_a_disk [of ex_model "[DWrite 2 [7, 8], DDiscard 3 1, DRead 1 3]" 5]
  by (auto simp: ex_model_wf ex_policy_def ex_model_view write_at_def)

text \<open>
  C24. Flushed data survives: after an honest flush, through any later sequence of requests,
  injected write errors and power losses of either mode, every byte a reader sees is the byte
  that was flushed or one that a later write or discard put at that place, so a place that was
  not written since keeps its flushed byte.
\<close>

theorem flushed_data_survives:
  assumes "model_wf m" and "flush_lie_pm (policy m) = 0"
    and "list_all (fault_in_range (length (view m))) ops"
  shows "\<exists>m1 m'. model_flush m = Some m1 \<and> fault_run eio ops m1 = Some m' \<and> model_wf m' \<and>
    (\<forall>b<length (view m). view m' ! b \<in> {view m ! b} \<union> (\<Union>op\<in>set ops. op_values op b))"
proof -
  from model_flush_ok [OF assms(1)] assms(2) obtain m1 where
    m1: "model_flush m = Some m1" "model_wf m1" "frame m m1" "committed m1 = view m" "volatile m1 = []"
    by auto
  let ?P = "\<lambda>b. {view m ! b} \<union> (\<Union>op\<in>set ops. op_values op b)"
  have "model_from ?P m1" by (simp add: model_from_def m1 bytes_from_def)
  moreover have "list_all (fault_in_range (length (committed m1))) ops" using assms(3) m1(4) by simp
  ultimately obtain m' where "fault_run eio ops m1 = Some m'" "model_wf m'" "frame m1 m'"
      "model_from ?P m'"
    using fault_run_from [of m1 ops ?P eio] m1(2) by blast
  moreover from this have "bytes_from ?P (view m')" "length (view m') = length (view m)"
    using model_from_view m1 by (simp_all add: frame_def)
  ultimately show ?thesis using m1(1) by (auto simp: bytes_from_def)
qed

theorem flushed_data_survives_witness:
  "\<exists>m1 m'. model_flush ex_model = Some m1 \<and>
     fault_run 5 [Request (DWrite 2 [7, 8]), PowerLoss Seeded] m1 = Some m' \<and>
     view m' ! 1 = 0 \<and> view m' ! 2 \<in> {0, 7}"
proof -
  obtain m1 m' where "model_flush ex_model = Some m1"
    "fault_run 5 [Request (DWrite 2 [7, 8]), PowerLoss Seeded] m1 = Some m'"
    and b: "\<forall>b<length (view ex_model). view m' ! b \<in> {view ex_model ! b} \<union>
      (\<Union>op\<in>set [Request (DWrite 2 [7, 8]), PowerLoss Seeded]. op_values op b)"
    using flushed_data_survives [of ex_model "[Request (DWrite 2 [7, 8]), PowerLoss Seeded]" 5]
    by (auto simp: ex_model_wf ex_policy_def)
  moreover have "view m' ! 1 = 0" "view m' ! 2 \<in> {0, 7}"
    using b [rule_format, of 1] b [rule_format, of 2] by (auto simp: ex_model_view)
  ultimately show ?thesis by blast
qed

text \<open>
  C26. Power loss: a crash does not panic, empties the cache and leaves on the medium what it held
  with some of the logical blocks of the cached entries applied in arrival order. Which blocks
  survive is free (whole entries kept, dropped, torn block by block, or reordered by dropping
  an earlier one); \<open>Drop\<close> keeps none; the report counts every entry once.
\<close>

theorem crash_applies_some_blocks:
  assumes "model_wf m"
  shows "\<exists>rep m' ps. model_crash mode m = Some (rep, m') \<and> model_wf m' \<and> volatile m' = [] \<and>
    committed m' = fold put ps (committed m) \<and> subseq ps (cache_blocks m) \<and>
    (if mode = Drop then ps = [] else True) \<and>
    rep_committed rep + rep_dropped rep + rep_torn rep = of_nat (length (volatile m))"
  using model_crash_ok [OF assms, of mode] unfolding rep_total_def by (metis (full_types))

definition ex_cached :: model where
  "ex_cached = ex_model\<lparr>volatile := [(2, [7, 8])], volatile_bytes := 2\<rparr>"

lemma ex_cached_simps: "committed ex_cached = [0, 0, 0, 0, 0, 0, 0, 0]"
    "cache_blocks ex_cached = [(2, [7, 8])]"
  using ex_model_view
  by (simp_all add: ex_cached_def ex_model_def model_new_def view_def cache_blocks_def
      entry_blocks_def chunks.simps block_addr_def)

lemma ex_cached_wf: "model_wf ex_cached"
  by (simp add: ex_cached_def ex_model_def model_new_def model_wf_def entry_ok_pair)

theorem crash_applies_some_blocks_witness:
  "\<exists>rep m'. model_crash Seeded ex_cached = Some (rep, m') \<and>
     committed m' \<in> {[0, 0, 0, 0, 0, 0, 0, 0], [0, 0, 7, 8, 0, 0, 0, 0]}"
proof -
  obtain rep m' ps where m': "model_crash Seeded ex_cached = Some (rep, m')"
      "committed m' = fold put ps (committed ex_cached)" "subseq ps (cache_blocks ex_cached)"
    using crash_applies_some_blocks [OF ex_cached_wf, of Seeded] by blast
  then have "ps = [] \<or> ps = [(2, [7, 8])]" by (cases ps) (auto simp: ex_cached_simps split: if_splits)
  with m' show ?thesis by (auto simp: ex_cached_simps put_pair write_at_def)
qed

text \<open>
  C27. A write inside the device does not panic, keeps the cache within its bound, and either
  succeeds, returning its length, with all its data visible to readers, or fails with \<open>EIO\<close>
  after which exactly some whole logical blocks from its start are visible and no other byte
  has changed.
\<close>

theorem write_all_or_prefix:
  assumes "model_wf m" and "unat off + length data \<le> length (view m)"
  shows "\<exists>res m' k. model_write eio off data m = Some (res, m') \<and> model_wf m' \<and>
    view m' = write_at (unat off) (take k data) (view m) \<and>
    (if fst (rng_hit (error_pm (policy m)) (rng m))
     then res = - eio \<and> k \<le> length data \<and> unat (lbs m) dvd k
     else res = of_nat (length data) \<and> k = length data)"
proof -
  from model_write_ok [of m off data eio] assms obtain res m' k where
    "model_write eio off data m = Some (res, m')" "write_outcome eio m data res k"
    "stored m (off, take k data) m'"
    by auto
  then show ?thesis by (auto simp: write_outcome_def put_pair dest!: storedD)
qed

theorem write_all_or_prefix_witness:
  "\<exists>m'. model_write 5 2 [7, 8, 9, 10] ex_model = Some (4, m') \<and>
     view m' = [0, 0, 7, 8, 9, 10, 0, 0]"
  using write_all_or_prefix [of ex_model 2 "[7, 8, 9, 10]" 5]
  by (auto simp: ex_model_wf ex_policy_def ex_model_view write_at_def)

end
