(* ===== verification/Json.thy ===== *)
theory Json
  imports Rust_Str
begin

text \<open>
  The JSON values of the control protocols (\<^verbatim>\<open>serde_json::Value\<close>): objects as association
  lists, the assignment \<open>v[key] = x\<close>, the lookup \<open>v[key]\<close> (null where it is missing),
  \<open>as_u64\<close>, \<open>as_str\<close> and the reply every failed request gets.
\<close>

datatype json = JNull | JBool bool | JNum int | JStr string | JArr "json list"
  | JObj "(string \<times> json) list"

fun jset :: "string \<Rightarrow> json \<Rightarrow> json \<Rightarrow> json" where
  "jset k x (JObj kvs) =
     JObj (if k \<in> fst ` set kvs then map (\<lambda>(k', v). (k', if k' = k then x else v)) kvs
           else kvs @ [(k, x)])"
| "jset k x v = v"

fun jget :: "string \<Rightarrow> json \<Rightarrow> json" where
  "jget k (JObj kvs) = (case map_of kvs k of None \<Rightarrow> JNull | Some v \<Rightarrow> v)"
| "jget k v = JNull"

definition as_u64 :: "json \<Rightarrow> int option" where
  "as_u64 v = (case v of JNum n \<Rightarrow> if 0 \<le> n \<and> n < 2 ^ 64 then Some n else None | _ \<Rightarrow> None)"

definition as_str :: "json \<Rightarrow> string option" where
  "as_str v = (case v of JStr s \<Rightarrow> Some s | _ \<Rightarrow> None)"

definition err_reply :: "string \<Rightarrow> json" where
  "err_reply msg = JObj [(''ok'', JBool False), (''error'', JStr msg)]"

definition is_ok :: "json \<Rightarrow> bool" where
  "is_ok v \<longleftrightarrow> jget ''ok'' v = JBool True"

lemma jget_jset_same: "jget k (jset k x (JObj kvs)) = x"
proof -
  have "map_of (map (\<lambda>(k', v). (k', if k' = k then x else v)) kvs) k = Some x"
    if "k \<in> fst ` set kvs"
    using that by (induction kvs) auto
  moreover have "map_of kvs k = None" if "k \<notin> fst ` set kvs"
    using that by (simp add: map_of_eq_None_iff)
  ultimately show ?thesis by (auto simp: map_add_def)
qed

lemma jget_jset_other: "k' \<noteq> k \<Longrightarrow> jget k' (jset k x (JObj kvs)) = jget k' (JObj kvs)"
proof -
  assume ne: "k' \<noteq> k"
  then have "map_of (map (\<lambda>(k', v). (k', if k' = k then x else v)) kvs) k' = map_of kvs k'"
    by (induction kvs) auto
  with ne show ?thesis by (auto simp: map_add_def split: option.splits)
qed

lemma jset_obj: "\<exists>kvs'. jset k x (JObj kvs) = JObj kvs'"
  by simp

lemma err_reply_not_ok [simp]: "\<not> is_ok (err_reply msg)"
  by (simp add: err_reply_def is_ok_def)

end
