(* ===== verification/Manager.thy ===== *)
theory Manager
  imports Meta Target Json "HOL-Library.AList"
begin

text \<open>
  The registry of tracked devices (\<^verbatim>\<open>src/src/manager.rs\<close>) with the supervisor threads it
  starts. An \<open>Arc<EraState>\<close> is an index into \<open>arcs\<close>, shared by the registry entry and
  the supervisor with its queue threads; a \<open>JoinHandle\<close> is an index into \<open>threads\<close>; the
  metadata files are \<open>files\<close>. What the kernel, libublk and the file system answer are
  arguments of the operation that asks.
\<close>

section \<open>The code\<close>

definition default_granularity :: u64 where
  "default_granularity = 64 * 1024"

definition default_dev_id :: i32 where
  "default_dev_id = - 1"

definition default_queues :: u16 where
  "default_queues = 1"

definition default_depth :: u16 where
  "default_depth = 64"

definition default_buf_size :: u32 where
  "default_buf_size = 512 * 1024"

record device_spec =
  spec_backing :: string
  spec_granularity :: u64
  spec_meta :: "path option"
  spec_dev_id :: i32
  spec_queues :: u16
  spec_depth :: u16
  spec_buf_size :: u32
  spec_buffered :: bool

record managed =
  m_dev_id :: u32
  m_backing :: string
  m_meta :: "path option"
  m_state :: nat
  m_supervisor :: nat

datatype thread_status = Starting | Running u32 | Finished

record sup_thread =
  th_meta :: "path option"
  th_arc :: nat
  th_status :: thread_status

record world =
  devices :: "(u32 \<times> managed) list"
  arcs :: "era_state list"
  threads :: "sup_thread list"
  files :: fs

datatype mgr_error =
    IdInUse i32
  | OpenBacking string
  | SizeError size_error
  | BadBackingSize u64
  | AlreadyAttached string
  | EraError era_error
  | AttachMarker path save_fault
  | SpawnFailed
  | StartFailed string
  | StartPanicked string
  | StartTimeout string
  | BothTargets
  | NoTarget
  | NoSuchBacking string
  | NotManaged u32
  | DeleteFailed u32
  | SupervisorPanicked u32
  | GenerationNotHex string
  | WrongGeneration u64
  | StaleCursor u32 u32

definition reap :: "world \<Rightarrow> world" where
  "reap w = w\<lparr>devices :=
     filter (\<lambda>(_, m). th_status (threads w ! m_supervisor m) \<noteq> Finished) (devices w)\<rparr>"

definition lookup :: "(u32 \<times> managed) list \<Rightarrow> u32 \<Rightarrow> mgr_error + managed" where
  "lookup devs dev_id = (case map_of devs dev_id of
      None \<Rightarrow> Inl (NotManaged dev_id) | Some m \<Rightarrow> Inr m)"

text \<open>The final, clean save of a supervisor; an error is only logged.\<close>

definition final_save :: "save_fault option \<Rightarrow> nat \<Rightarrow> world \<Rightarrow> world" where
  "final_save fault t w =
     (let th = threads w ! t in
      w\<lparr>files := (case th_meta th of None \<Rightarrow> files w
          | Some p \<Rightarrow> fst (save fault p True (arcs w ! th_arc th) (files w))),
        threads := (threads w)[t := th\<lparr>th_status := Finished\<rparr>]\<rparr>)"

text \<open>
  \<open>supervise_device\<close> up to the ready report: the device is ready, the control device could
  not be created (no save), \<open>run_target\<close> failed before the ready hook (then the final save
  follows), the thread panicked, or nothing arrived within 15 seconds.
\<close>

datatype startup = Ready u32 | BuildFails | RunFails "save_fault option" | Panics | NoAnswer

definition sup_start :: "startup \<Rightarrow> nat \<Rightarrow> world \<Rightarrow> world" where
  "sup_start st t w =
     (let report = (\<lambda>x. w\<lparr>threads := (threads w)[t := (threads w ! t)\<lparr>th_status := x\<rparr>]\<rparr>) in
      case st of
        Ready dv \<Rightarrow> report (Running dv)
      | BuildFails \<Rightarrow> report Finished
      | RunFails fault \<Rightarrow> final_save fault t w
      | Panics \<Rightarrow> report Finished
      | NoAnswer \<Rightarrow> w)"

text \<open>\<open>supervise_device\<close> after the device is gone: the final save, or a panic before it.\<close>

datatype sup_exit = Saves "save_fault option" | PanicsLate

definition supervise_exit :: "sup_exit \<Rightarrow> nat \<Rightarrow> world \<Rightarrow> world" where
  "supervise_exit ex t w = (case ex of
      Saves fault \<Rightarrow> final_save fault t w
    | PanicsLate \<Rightarrow> w\<lparr>threads := (threads w)[t := (threads w ! t)\<lparr>th_status := Finished\<rparr>]\<rparr>)"

text \<open>The answers \<open>add\<close> gets from outside.\<close>

record attach_env =
  ctl_exists :: bool
  open_ok :: bool
  log2_fn :: "nat \<Rightarrow> nat"
  file_meta :: "(file_type \<times> u64) option"
  ioctls :: "(u64 \<times> nat \<times> nat) option"
  urandom :: "u8 list option"
  marker_fault :: "save_fault option"
  spawn_ok :: bool
  startup :: startup

text \<open>
  The map a device starts with, and whether it was recovered from an unclean file: loaded
  where the metadata file exists, fresh otherwise.
\<close>

definition attach_state ::
    "u8 list option \<Rightarrow> device_spec \<Rightarrow> u64 \<Rightarrow> fs \<Rightarrow> era_error + (era_state \<times> bool)" where
  "attach_state rnd spec dsize fs =
     (let fresh = and_then (era_new rnd dsize (spec_granularity spec)) (\<lambda>s. Inr (s, False)) in
      case spec_meta spec of
        None \<Rightarrow> fresh
      | Some p \<Rightarrow> (case fs p of
            None \<Rightarrow> fresh
          | Some raw \<Rightarrow> and_then (load rnd (Some raw) dsize (spec_granularity spec))
              (\<lambda>(s, clean). if clean then Inr (s, False) else Inr (mark_all_dirty s, True))))"

definition write_marker ::
    "save_fault option \<Rightarrow> path option \<Rightarrow> era_state \<Rightarrow> fs \<Rightarrow> fs \<times> (mgr_error + unit)" where
  "write_marker fault meta s fs = (case meta of
      None \<Rightarrow> (fs, Inr ())
    | Some p \<Rightarrow> (case save fault p False s fs of
          (fs', Inl e) \<Rightarrow> (fs', Inl (AttachMarker p e))
        | (fs', Inr _) \<Rightarrow> (fs', Inr ())))"

definition u32_json :: "u32 \<Rightarrow> json" where
  "u32_json n = JNum (uint n)"

definition u64_json :: "u64 \<Rightarrow> json" where
  "u64_json n = JNum (uint n)"

definition add_reply :: "u32 \<Rightarrow> device_spec \<Rightarrow> u64 \<Rightarrow> era_state \<Rightarrow> bool \<Rightarrow> string \<Rightarrow> json" where
  "add_reply dv spec dsize s recovered bdev =
     (let resp = JObj [(''ok'', JBool True), (''dev_id'', u32_json dv), (''bdev'', JStr bdev),
            (''backing'', JStr (spec_backing spec)), (''dev_size'', u64_json dsize),
            (''granularity'', u64_json (spec_granularity spec)),
            (''generation'', JStr (hex16 (generation s))),
            (''current_era'', u32_json (current_era s))]
      in if recovered then jset ''recovered_unclean'' (JBool True) resp else resp)"

text \<open>\<open>add\<close> in three parts: the checks up to the duplicate, which give the size of the device;\<close>

definition add_check :: "attach_env \<Rightarrow> device_spec \<Rightarrow> world \<Rightarrow> mgr_error + u64" where
  "add_check env spec w =
     (if 0 \<le>s spec_dev_id spec \<and> ctl_exists env then Inl (IdInUse (spec_dev_id spec))
      else if \<not> open_ok env then Inl (OpenBacking (spec_backing spec))
      else case backing_size (log2_fn env) (file_meta env) (ioctls env) of
        Inl e \<Rightarrow> Inl (SizeError e)
      | Inr (dsize, _) \<Rightarrow>
        if dsize = 0 \<or> dsize mod 512 \<noteq> 0 then Inl (BadBackingSize dsize)
        else if spec_backing spec \<in> (\<lambda>(_, m). m_backing m) ` set (devices w)
          then Inl (AlreadyAttached (spec_backing spec))
        else Inr dsize)"

text \<open>the supervisor thread, its report and the registry entry;\<close>

definition add_start :: "(u32 \<Rightarrow> string) \<Rightarrow> attach_env \<Rightarrow> device_spec \<Rightarrow> u64 \<Rightarrow> era_state \<Rightarrow> bool \<Rightarrow>
    world \<Rightarrow> world \<times> (mgr_error + json)" where
  "add_start bdev env spec dsize s recovered w =
     (if \<not> spawn_ok env then (w, Inl SpawnFailed)
      else let t = length (threads w); a = length (arcs w);
               w2 = w\<lparr>arcs := arcs w @ [s], threads := threads w @
                 [\<lparr>th_meta = spec_meta spec, th_arc = a, th_status = Starting\<rparr>]\<rparr>;
               w3 = sup_start (startup env) t w2
           in (case startup env of
                 Ready dv \<Rightarrow>
                   (w3\<lparr>devices := AList.update dv \<lparr>m_dev_id = dv,
                       m_backing = spec_backing spec, m_meta = spec_meta spec,
                       m_state = a, m_supervisor = t\<rparr> (devices w3)\<rparr>,
                    Inr (add_reply dv spec dsize s recovered (bdev dv)))
               | BuildFails \<Rightarrow> (w3, Inl (StartFailed (spec_backing spec)))
               | RunFails _ \<Rightarrow> (w3, Inl (StartFailed (spec_backing spec)))
               | Panics \<Rightarrow> (w3, Inl (StartPanicked (spec_backing spec)))
               | NoAnswer \<Rightarrow> (w3, Inl (StartTimeout (spec_backing spec)))))"

text \<open>and the whole, with the map and its attach marker in between. \<open>bdev\<close> formats the name
  of the block device.\<close>

definition add :: "(u32 \<Rightarrow> string) \<Rightarrow> attach_env \<Rightarrow> device_spec \<Rightarrow> world \<Rightarrow>
    world \<times> (mgr_error + json)" where
  "add bdev env spec w0 =
     (let w = reap w0 in
      case add_check env spec w of
        Inl e \<Rightarrow> (w, Inl e)
      | Inr dsize \<Rightarrow> (case attach_state (urandom env) spec dsize (files w) of
          Inl e \<Rightarrow> (w, Inl (EraError e))
        | Inr (s, recovered) \<Rightarrow>
            (case write_marker (marker_fault env) (spec_meta spec) s (files w) of
               (fs, Inl e) \<Rightarrow> (w\<lparr>files := fs\<rparr>, Inl e)
             | (fs, Inr _) \<Rightarrow> add_start bdev env spec dsize s recovered (w\<lparr>files := fs\<rparr>))))"

text \<open>The target of a request (\<^verbatim>\<open>ctl::Target\<close>); \<open>canon\<close> is \<open>canonicalize\<close>.\<close>

record target =
  tg_dev_id :: "u32 option"
  tg_backing :: "string option"

definition resolve ::
    "(string \<Rightarrow> string option) \<Rightarrow> target \<Rightarrow> world \<Rightarrow> world \<times> (mgr_error + u32)" where
  "resolve canon tg w = (case (tg_dev_id tg, tg_backing tg) of
      (Some dv, None) \<Rightarrow> (w, Inr dv)
    | (Some _, Some _) \<Rightarrow> (w, Inl BothTargets)
    | (None, Some b) \<Rightarrow>
        let w' = reap w in
        (w', case List.find (\<lambda>(_, m). m_backing m = b \<or>
                 canon b \<noteq> None \<and> canon (m_backing m) = canon b) (devices w') of
            None \<Rightarrow> Inl (NoSuchBacking b)
          | Some (_, m) \<Rightarrow> Inr (m_dev_id m))
    | (None, None) \<Rightarrow> (w, Inl NoTarget))"

text \<open>\<open>del\<close>: \<open>del_ok\<close> is whether libublk deleted the device.\<close>

definition del :: "bool \<Rightarrow> sup_exit \<Rightarrow> u32 \<Rightarrow> world \<Rightarrow> world \<times> (mgr_error + json)" where
  "del del_ok ex dev_id w0 =
     (let w = reap w0 in
      case lookup (devices w) dev_id of
        Inl e \<Rightarrow> (w, Inl e)
      | Inr m \<Rightarrow>
        let w1 = w\<lparr>devices := AList.delete dev_id (devices w)\<rparr> in
        if \<not> del_ok then (w1, Inl (DeleteFailed dev_id))
        else let w2 = supervise_exit ex (m_supervisor m) w1 in
          (case ex of
             PanicsLate \<Rightarrow> (w2, Inl (SupervisorPanicked dev_id))
           | Saves _ \<Rightarrow> (w2, Inr (JObj [(''ok'', JBool True), (''dev_id'', u32_json dev_id),
               (''backing'', JStr (m_backing m))]))))"

definition device_status :: "(u32 \<Rightarrow> string) \<Rightarrow> (path \<Rightarrow> string) \<Rightarrow> world \<Rightarrow> managed \<Rightarrow> json" where
  "device_status bdev disp w m =
     (let s = arcs w ! m_state m in
      JObj [(''dev_id'', u32_json (m_dev_id m)), (''bdev'', JStr (bdev (m_dev_id m))),
        (''backing'', JStr (m_backing m)), (''dev_size'', u64_json (dev_size s)),
        (''granularity'', u64_json (granularity s)),
        (''generation'', JStr (hex16 (generation s))),
        (''current_era'', u32_json (current_era s)), (''nr_chunks'', u64_json (nr_chunks s)),
        (''written_chunks'', u64_json (written_chunks s)),
        (''meta_path'', case m_meta m of None \<Rightarrow> JNull | Some p \<Rightarrow> JStr (disp p))])"

text \<open>\<open>list\<close>, sorted by \<open>dev_id\<close>.\<close>

definition list_devices :: "(u32 \<Rightarrow> string) \<Rightarrow> (path \<Rightarrow> string) \<Rightarrow> world \<Rightarrow> world \<times> json" where
  "list_devices bdev disp w0 =
     (let w = reap w0 in
      (w, JObj [(''ok'', JBool True), (''devices'', JArr
        (sort_key (\<lambda>v. case as_u64 (jget ''dev_id'' v) of None \<Rightarrow> - 1 | Some n \<Rightarrow> n)
          (map (\<lambda>(_, m). device_status bdev disp w m) (devices w))))]))"

definition status :: "(u32 \<Rightarrow> string) \<Rightarrow> (path \<Rightarrow> string) \<Rightarrow> u32 \<Rightarrow> world \<Rightarrow>
    world \<times> (mgr_error + json)" where
  "status bdev disp dev_id w0 =
     (let w = reap w0 in
      (w, and_then (lookup (devices w) dev_id)
            (\<lambda>m. Inr (jset ''ok'' (JBool True) (device_status bdev disp w m)))))"

text \<open>\<open>checkpoint_one\<close>; \<open>err_text\<close> formats a failed save.\<close>

definition checkpoint_one :: "(save_fault \<Rightarrow> string) \<Rightarrow> save_fault option \<Rightarrow> managed \<Rightarrow> world \<Rightarrow>
    world \<times> json" where
  "checkpoint_one err_text fault m w =
     (case checkpoint (arcs w ! m_state m) of (s, closed, current) \<Rightarrow>
        let w1 = w\<lparr>arcs := (arcs w)[m_state m := s]\<rparr>;
            resp = JObj [(''ok'', JBool True), (''dev_id'', u32_json (m_dev_id m)),
              (''backing'', JStr (m_backing m)), (''closed_era'', u32_json closed),
              (''current_era'', u32_json current)]
        in case m_meta m of
             None \<Rightarrow> (w1, resp)
           | Some p \<Rightarrow> (case save fault p False s (files w1) of
                 (fs, Inr _) \<Rightarrow> (w1\<lparr>files := fs\<rparr>, jset ''meta_saved'' (JBool True) resp)
               | (fs, Inl e) \<Rightarrow> (w1\<lparr>files := fs\<rparr>, jset ''meta_error'' (JStr (err_text e))
                   (jset ''meta_saved'' (JBool False) resp))))"

definition checkpoint_dev :: "(save_fault \<Rightarrow> string) \<Rightarrow> save_fault option \<Rightarrow> u32 \<Rightarrow> world \<Rightarrow>
    world \<times> (mgr_error + json)" where
  "checkpoint_dev err_text fault dev_id w0 =
     (let w = reap w0 in
      case lookup (devices w) dev_id of
        Inl e \<Rightarrow> (w, Inl e)
      | Inr m \<Rightarrow> (case checkpoint_one err_text fault m w of (w', v) \<Rightarrow> (w', Inr v)))"

fun checkpoint_each :: "(save_fault \<Rightarrow> string) \<Rightarrow> (u32 \<Rightarrow> save_fault option) \<Rightarrow> managed list \<Rightarrow>
    world \<Rightarrow> world \<times> json list" where
  "checkpoint_each err_text faults [] w = (w, [])"
| "checkpoint_each err_text faults (m # ms) w =
     (case checkpoint_one err_text (faults (m_dev_id m)) m w of (w1, v) \<Rightarrow>
        case checkpoint_each err_text faults ms w1 of (w2, vs) \<Rightarrow> (w2, v # vs))"

definition checkpoint_all :: "(save_fault \<Rightarrow> string) \<Rightarrow> (u32 \<Rightarrow> save_fault option) \<Rightarrow> world \<Rightarrow>
    world \<times> json" where
  "checkpoint_all err_text faults w0 =
     (let w = reap w0 in
      case checkpoint_each err_text faults (map snd (devices w)) w of (w', vs) \<Rightarrow>
        (w', JObj [(''ok'', JBool True), (''devices'', JArr vs)]))"

definition range_json :: "dirty_range \<Rightarrow> json" where
  "range_json r = JObj [(''offset'', u64_json (dr_offset r)), (''len'', u64_json (dr_len r))]"

definition dump_reply :: "u32 \<Rightarrow> era_state \<Rightarrow> u32 \<Rightarrow> json" where
  "dump_reply dev_id s since =
     (let ranges = ranges_since s since; dirty = sum_list (map dr_len ranges) in
      JObj [(''ok'', JBool True), (''dev_id'', u32_json dev_id),
        (''generation'', JStr (hex16 (generation s))), (''current_era'', u32_json (current_era s)),
        (''since'', u32_json since), (''granularity'', u64_json (granularity s)),
        (''dirty_bytes'', u64_json dirty), (''ranges'', JArr (map range_json ranges))])"

definition dump :: "u32 \<Rightarrow> u32 \<Rightarrow> string option \<Rightarrow> world \<Rightarrow> world \<times> (mgr_error + json)" where
  "dump dev_id since gen w0 =
     (let w = reap w0 in
      (w, and_then (lookup (devices w) dev_id) (\<lambda>m.
        let s = arcs w ! m_state m in
        and_then (case gen of
             None \<Rightarrow> Inr ()
           | Some g \<Rightarrow> (case from_str_radix 16 g of
                 None \<Rightarrow> Inl (GenerationNotHex g)
               | Some expect \<Rightarrow>
                   if expect \<noteq> generation s then Inl (WrongGeneration (generation s)) else Inr ()))
          (\<lambda>_. if current_era s \<le> since then Inl (StaleCursor since (current_era s))
               else Inr (dump_reply dev_id s since)))))"

text \<open>\<open>shutdown_all\<close>: the ids are collected first; a failed \<open>del\<close> is logged.\<close>

fun del_each :: "(u32 \<Rightarrow> bool) \<Rightarrow> (u32 \<Rightarrow> sup_exit) \<Rightarrow> u32 list \<Rightarrow> world \<Rightarrow> world" where
  "del_each del_ok exits [] w = w"
| "del_each del_ok exits (dv # dvs) w =
     del_each del_ok exits dvs (fst (del (del_ok dv) (exits dv) dv w))"

definition shutdown_all :: "(u32 \<Rightarrow> bool) \<Rightarrow> (u32 \<Rightarrow> sup_exit) \<Rightarrow> world \<Rightarrow> world" where
  "shutdown_all del_ok exits w = del_each del_ok exits (map fst (devices w)) w"

section \<open>The registry\<close>

lemma reap_simps [simp]:
  "arcs (reap w) = arcs w" "threads (reap w) = threads w" "files (reap w) = files w"
  by (simp_all add: reap_def)

lemma reap_devices: "(dv, m) \<in> set (devices (reap w)) \<longleftrightarrow>
    (dv, m) \<in> set (devices w) \<and> th_status (threads w ! m_supervisor m) \<noteq> Finished"
  by (auto simp: reap_def)

lemma reap_idem [simp]: "reap (reap w) = reap w"
  by (simp add: reap_def)

lemma lookup_ok: "lookup devs dv = Inr m \<longleftrightarrow> map_of devs dv = Some m"
  by (auto simp: lookup_def split: option.splits)

text \<open>
  The invariant of the registry: ids and backing stores are unique, every entry carries its
  own id and shares the map of its supervisor, no two entries share a supervisor, and all maps
  are well-formed and not empty.
\<close>

definition entry_wf :: "world \<Rightarrow> u32 \<times> managed \<Rightarrow> bool" where
  "entry_wf w = (\<lambda>(dv, m). m_dev_id m = dv \<and> m_supervisor m < length (threads w) \<and>
     m_state m = m_supervisor m \<and> th_meta (threads w ! m_supervisor m) = m_meta m)"

definition maps_wf :: "world \<Rightarrow> bool" where
  "maps_wf w \<longleftrightarrow> length (arcs w) = length (threads w) \<and>
     (\<forall>i<length (threads w). th_arc (threads w ! i) = i \<and> era_wf (arcs w ! i) \<and>
        0 < dev_size (arcs w ! i))"

definition reg_ok :: "world \<Rightarrow> bool" where
  "reg_ok w \<longleftrightarrow> distinct (map fst (devices w)) \<and>
     distinct (map (\<lambda>(_, m). m_backing m) (devices w)) \<and>
     distinct (map (\<lambda>(_, m). m_supervisor m) (devices w)) \<and>
     list_all (entry_wf w) (devices w) \<and> maps_wf w"

lemma distinct_map_filter_key: "distinct (map f xs) \<Longrightarrow> distinct (map f (filter P xs))"
  by (induction xs) auto

lemma reg_ok_filter: "reg_ok w \<Longrightarrow> reg_ok (w\<lparr>devices := filter P (devices w)\<rparr>)"
  by (simp add: reg_ok_def maps_wf_def distinct_map_filter_key list_all_iff entry_wf_def)

lemma reg_ok_reap: "reg_ok w \<Longrightarrow> reg_ok (reap w)"
  by (simp add: reap_def reg_ok_filter)

lemma reg_ok_files [simp]: "reg_ok (w\<lparr>files := fs\<rparr>) = reg_ok w"
  by (simp add: reg_ok_def maps_wf_def entry_wf_def)

text \<open>Changes that keep the references valid: new maps of the same shape, new statuses.\<close>

lemma reg_ok_update:
  assumes "reg_ok w" and "devices w' = devices w" and "length (arcs w') = length (arcs w)"
    and "length (threads w') = length (threads w)"
    and "\<And>i. i < length (arcs w) \<Longrightarrow> same_shape (arcs w ! i) (arcs w' ! i)"
    and "\<And>i. i < length (threads w) \<Longrightarrow> th_arc (threads w' ! i) = th_arc (threads w ! i) \<and>
      th_meta (threads w' ! i) = th_meta (threads w ! i)"
  shows "reg_ok w'"
proof -
  have "era_wf (arcs w' ! i) \<and> 0 < dev_size (arcs w' ! i) \<and> th_arc (threads w' ! i) = i"
    if "i < length (threads w)" for i
    using assms(1) assms(5) [of i] assms(6) [of i] that same_shape_wf
    by (auto simp: reg_ok_def maps_wf_def same_shape_def)
  then have "maps_wf w'" using assms(1,3,4) by (auto simp: reg_ok_def maps_wf_def)
  moreover have "list_all (entry_wf w') (devices w')"
    using assms(1,2,4,6) by (auto simp: reg_ok_def list_all_iff entry_wf_def)
  ultimately show ?thesis using assms(1,2) by (simp add: reg_ok_def)
qed

lemma nth_status [simp]:
  "th_arc (ts[t := (ts ! t)\<lparr>th_status := x\<rparr>] ! i) = th_arc (ts ! i)"
  "th_meta (ts[t := (ts ! t)\<lparr>th_status := x\<rparr>] ! i) = th_meta (ts ! i)"
proof -
  have "th_arc (ts[t := (ts ! t)\<lparr>th_status := x\<rparr>] ! i) = th_arc (ts ! i) \<and>
      th_meta (ts[t := (ts ! t)\<lparr>th_status := x\<rparr>] ! i) = th_meta (ts ! i)"
  proof (cases "t < length ts \<and> i = t")
    case False
    then show ?thesis by (cases "t < length ts") (simp_all add: list_update_beyond)
  qed simp
  then show "th_arc (ts[t := (ts ! t)\<lparr>th_status := x\<rparr>] ! i) = th_arc (ts ! i)"
    "th_meta (ts[t := (ts ! t)\<lparr>th_status := x\<rparr>] ! i) = th_meta (ts ! i)" by simp_all
qed

lemma reg_ok_status:
  "reg_ok w \<Longrightarrow> reg_ok (w\<lparr>threads := (threads w)[t := (threads w ! t)\<lparr>th_status := x\<rparr>]\<rparr>)"
  by (erule reg_ok_update) (auto simp: nth_list_update)

lemma reg_ok_final_save: "reg_ok w \<Longrightarrow> reg_ok (final_save fault t w)"
  by (erule reg_ok_update) (auto simp: final_save_def Let_def nth_list_update)

lemma reg_ok_exit: "reg_ok w \<Longrightarrow> reg_ok (supervise_exit ex t w)"
  by (cases ex) (simp_all add: supervise_exit_def reg_ok_final_save reg_ok_status)

lemma reg_ok_start: "reg_ok w \<Longrightarrow> reg_ok (sup_start st t w)"
  by (cases st) (simp_all add: sup_start_def Let_def reg_ok_final_save reg_ok_status)

lemma sup_start_simps [simp]:
  "devices (sup_start st t w) = devices w" "arcs (sup_start st t w) = arcs w"
  "length (threads (sup_start st t w)) = length (threads w)"
  by (cases st; simp add: sup_start_def final_save_def Let_def)+

lemma supervise_exit_simps [simp]:
  "devices (supervise_exit ex t w) = devices w" "arcs (supervise_exit ex t w) = arcs w"
  by (cases ex; simp add: supervise_exit_def final_save_def Let_def)+

section \<open>Attaching\<close>

lemma attach_state_ok:
  assumes "attach_state rnd spec dsize fs = Inr (s, rec)"
  shows "era_wf s \<and> dev_size s = dsize \<and> granularity s = spec_granularity spec"
proof -
  have fresh: "and_then (era_new rnd dsize (spec_granularity spec)) (\<lambda>s. Inr (s, False)) = Inr (s, rec) \<Longrightarrow>
      era_wf s \<and> dev_size s = dsize \<and> granularity s = spec_granularity spec"
    by (auto simp: and_then_ok dest!: era_new_ok)
  show ?thesis
  proof (cases "\<exists>p raw. spec_meta spec = Some p \<and> fs p = Some raw")
    case True
    then obtain x clean raw where "load rnd (Some raw) dsize (spec_granularity spec) = Inr (x, clean)"
        "s = x \<or> s = mark_all_dirty x"
      using assms by (auto simp: attach_state_def and_then_ok split: if_splits)
    then show ?thesis
      using load_okD(4-6) [of rnd raw dsize "spec_granularity spec" x clean] same_shape_wf
      by (auto intro: same_shape_wf [of x])
  next
    case False
    then show ?thesis
      using assms fresh by (cases "spec_meta spec") (auto simp: attach_state_def Let_def)
  qed
qed

lemma write_marker_files: "fst (write_marker fault meta s fs) = (case meta of
    None \<Rightarrow> fs | Some p \<Rightarrow> fst (save fault p False s fs))"
  by (auto simp: write_marker_def split: option.splits prod.splits sum.splits)

text \<open>The device of a new supervisor, before it reports.\<close>

definition opened :: "device_spec \<Rightarrow> era_state \<Rightarrow> fs \<Rightarrow> world \<Rightarrow> world" where
  "opened spec s fs w = w\<lparr>files := fs, arcs := arcs w @ [s],
     threads := threads w @
       [\<lparr>th_meta = spec_meta spec, th_arc = length (arcs w), th_status = Starting\<rparr>]\<rparr>"

definition new_entry :: "u32 \<Rightarrow> device_spec \<Rightarrow> world \<Rightarrow> managed" where
  "new_entry dv spec w = \<lparr>m_dev_id = dv, m_backing = spec_backing spec, m_meta = spec_meta spec,
     m_state = length (arcs w), m_supervisor = length (threads w)\<rparr>"

text \<open>
  How \<open>add\<close> can end: rejected with at most the marker file touched, or with a supervisor
  started, which is registered when it reports a device.
\<close>

lemma add_start_eq:
  "spawn_ok env \<Longrightarrow> add_start bdev env spec dsize s rec (w\<lparr>files := fs\<rparr>) =
     (let w3 = sup_start (startup env) (length (threads w)) (opened spec s fs w) in
      case startup env of
        Ready dv \<Rightarrow> (w3\<lparr>devices := AList.update dv (new_entry dv spec w) (devices w)\<rparr>,
          Inr (add_reply dv spec dsize s rec (bdev dv)))
      | BuildFails \<Rightarrow> (w3, Inl (StartFailed (spec_backing spec)))
      | RunFails _ \<Rightarrow> (w3, Inl (StartFailed (spec_backing spec)))
      | Panics \<Rightarrow> (w3, Inl (StartPanicked (spec_backing spec)))
      | NoAnswer \<Rightarrow> (w3, Inl (StartTimeout (spec_backing spec))))"
  by (simp add: add_start_def opened_def new_entry_def Let_def cong: startup.case_cong)

lemma add_check_ok: "add_check env spec w = Inr dsize \<Longrightarrow> dsize \<noteq> 0 \<and> dsize mod 512 = 0 \<and>
    spec_backing spec \<notin> (\<lambda>(_, m). m_backing m) ` set (devices w)"
  by (auto simp: add_check_def split: if_splits sum.splits prod.splits)

lemma add_cases:
  obtains (rejected) e fs where "add bdev env spec w = ((reap w)\<lparr>files := fs\<rparr>, Inl e)"
      and "fs = files w \<or> (\<exists>p s. spec_meta spec = Some p \<and> fs = fst (save (marker_fault env) p False s (files w)))"
    | (started) dsize s rec fs where "add_check env spec (reap w) = Inr dsize"
      and "attach_state (urandom env) spec dsize (files w) = Inr (s, rec)"
      and "write_marker (marker_fault env) (spec_meta spec) s (files w) = (fs, Inr ())"
      and "spawn_ok env"
      and "add bdev env spec w = add_start bdev env spec dsize s rec ((reap w)\<lparr>files := fs\<rparr>)"
proof (cases "add_check env spec (reap w)")
  case (Inl e)
  then show thesis by (intro rejected [of "files w" e]) (simp_all add: add_def reap_def)
next
  case chk: (Inr dsize)
  show thesis
  proof (cases "attach_state (urandom env) spec dsize (files w)")
    case (Inl e)
    with chk show thesis by (intro rejected [of "files w" "EraError e"]) (simp_all add: add_def reap_def)
  next
    case at: (Inr x)
    obtain s rec where x: "x = (s, rec)" by (cases x)
    obtain fs res where wm: "write_marker (marker_fault env) (spec_meta spec) s (files w) = (fs, res)"
      by fastforce
    have fs: "fs = files w \<or> (\<exists>p s. spec_meta spec = Some p \<and>
        fs = fst (save (marker_fault env) p False s (files w)))"
      using write_marker_files [of "marker_fault env" "spec_meta spec" s "files w"] wm
      by (cases "spec_meta spec") auto
    consider e where "res = Inl e" | "res = Inr ()" "spawn_ok env" | "res = Inr ()" "\<not> spawn_ok env"
      by (cases res) auto
    then show thesis
    proof cases
      case 1
      with chk at x wm fs show thesis by (intro rejected [of fs e]) (simp_all add: add_def)
    next
      case 2
      with chk at x wm show thesis by (intro started [of dsize s rec fs]) (simp_all add: add_def)
    next
      case 3
      with chk at x wm fs show thesis
        by (intro rejected [of fs SpawnFailed]) (simp_all add: add_def add_start_def)
    qed
  qed
qed

lemma reg_ok_opened:
  assumes "reg_ok w" and "era_wf s" and "0 < dev_size s"
  shows "reg_ok (opened spec s fs w)"
proof -
  have "maps_wf (opened spec s fs w)"
    using assms by (auto simp: reg_ok_def maps_wf_def opened_def nth_append less_Suc_eq)
  moreover have "list_all (entry_wf (opened spec s fs w)) (devices w)"
    using assms(1) by (auto simp: reg_ok_def list_all_iff entry_wf_def opened_def nth_append)
  ultimately show ?thesis using assms(1) by (simp add: reg_ok_def opened_def)
qed

lemma set_alist_update: "set (AList.update k v ds) \<subseteq> insert (k, v) (set ds)"
  by (induction ds) auto

lemma distinct_alist_update:
  "distinct (map f ds) \<Longrightarrow> f (k, v) \<notin> f ` set ds \<Longrightarrow> distinct (map f (AList.update k v ds))"
proof (induction ds)
  case (Cons d ds)
  have "f d \<notin> f ` set (AList.update k v ds)" if "fst d \<noteq> k"
    using Cons.prems set_alist_update [of k v ds] by auto
  with Cons show ?case by (cases d) auto
qed simp

lemma reg_ok_register:
  assumes "reg_ok w" and "entry_wf w (dv, m)"
    and "m_backing m \<notin> (\<lambda>(_, m). m_backing m) ` set (devices w)"
    and "m_supervisor m \<notin> (\<lambda>(_, m). m_supervisor m) ` set (devices w)"
  shows "reg_ok (w\<lparr>devices := AList.update dv m (devices w)\<rparr>)"
proof -
  let ?ds = "AList.update dv m (devices w)"
  have "distinct (map (\<lambda>(_, m). m_backing m) ?ds)" "distinct (map (\<lambda>(_, m). m_supervisor m) ?ds)"
    by (rule distinct_alist_update; use assms in \<open>simp add: reg_ok_def\<close>)+
  moreover have "distinct (map fst ?ds)" using assms(1) by (simp add: reg_ok_def distinct_update)
  moreover have "list_all (entry_wf w) ?ds"
    using assms(1,2) set_alist_update [of dv m "devices w"] by (auto simp: reg_ok_def list_all_iff)
  ultimately show ?thesis
    using assms(1) by (simp add: reg_ok_def maps_wf_def list_all_iff entry_wf_def)
qed

lemma reg_ok_add:
  assumes "reg_ok w"
  shows "reg_ok (fst (add bdev env spec w))"
proof (cases rule: add_cases [of bdev env spec w])
  case (rejected e fs)
  then show ?thesis using assms by (simp add: reg_ok_reap)
next
  case (started dsize s rec fs)
  let ?o = "opened spec s fs (reap w)" and ?t = "length (threads w)"
  have s: "era_wf s" "0 < dev_size s"
    using attach_state_ok [OF started(2)] add_check_ok [OF started(1)] by (auto simp: word_neq_0_conv)
  have o: "reg_ok (sup_start (startup env) ?t ?o)"
    by (intro reg_ok_start reg_ok_opened reg_ok_reap assms s)
  show ?thesis
  proof (cases "startup env")
    case (Ready dv)
    let ?w = "sup_start (Ready dv) ?t ?o"
    have "entry_wf ?w (dv, new_entry dv spec w)"
      using assms by (simp add: entry_wf_def new_entry_def sup_start_def opened_def reg_ok_def maps_wf_def)
    moreover have "m_supervisor m < ?t" if "(x, m) \<in> set (devices (reap w))" for x m
      using reg_ok_reap [OF assms] that by (auto simp: reg_ok_def list_all_iff entry_wf_def)
    then have "?t \<notin> (\<lambda>(_, m). m_supervisor m) ` set (devices (reap w))" by fastforce
    moreover have "spec_backing spec \<notin> (\<lambda>(_, m). m_backing m) ` set (devices (reap w))"
      using add_check_ok [OF started(1)] by simp
    ultimately have "reg_ok (?w\<lparr>devices := AList.update dv (new_entry dv spec w) (devices ?w)\<rparr>)"
      using o Ready by (intro reg_ok_register) (simp_all add: new_entry_def opened_def)
    then show ?thesis
      using started Ready by (simp add: add_start_eq Let_def new_entry_def opened_def)
  qed (use started o in \<open>simp_all add: add_start_eq Let_def\<close>)
qed

lemma delete_as_filter: "AList.delete k ds = filter (\<lambda>(k', _). k' \<noteq> k) ds"
  by (induction ds) auto

lemma reg_ok_del: "reg_ok w \<Longrightarrow> reg_ok (fst (del del_ok ex dv w))"
proof -
  assume "reg_ok w"
  then have "reg_ok (reap w)" "reg_ok ((reap w)\<lparr>devices := AList.delete dv (devices (reap w))\<rparr>)"
    by (simp_all add: reg_ok_reap reg_ok_filter delete_as_filter)
  then show ?thesis
    by (auto simp: del_def Let_def reg_ok_exit split: sum.split sup_exit.split)
qed

lemma checkpoint_one_arcs:
  "arcs (fst (checkpoint_one et fault m w)) =
     (arcs w)[m_state m := fst (checkpoint (arcs w ! m_state m))]"
  "devices (fst (checkpoint_one et fault m w)) = devices w"
  "threads (fst (checkpoint_one et fault m w)) = threads w"
  "files (fst (checkpoint_one et fault m w)) = (case m_meta m of None \<Rightarrow> files w
     | Some p \<Rightarrow> fst (save fault p False (fst (checkpoint (arcs w ! m_state m))) (files w)))"
  by (auto simp: checkpoint_one_def Let_def split: prod.splits option.splits sum.splits)

lemma nth_update_shape: "same_shape (ss ! j) s \<Longrightarrow> same_shape (ss ! i) (ss[j := s] ! i)"
  by (cases "j < length ss"; cases "i = j") (simp_all add: list_update_beyond)

lemma reg_ok_checkpoint_one: "reg_ok w \<Longrightarrow> reg_ok (fst (checkpoint_one et fault m w))"
  by (erule reg_ok_update) (simp_all add: checkpoint_one_arcs nth_update_shape)

lemma reg_ok_checkpoint_dev: "reg_ok w \<Longrightarrow> reg_ok (fst (checkpoint_dev et fault dv w))"
  using reg_ok_checkpoint_one [of "reap w" et fault] reg_ok_reap [of w]
  by (auto simp: checkpoint_dev_def Let_def split: sum.split prod.split) (metis fst_conv)

lemma reg_ok_checkpoint_each: "reg_ok w \<Longrightarrow> reg_ok (fst (checkpoint_each et faults ms w))"
proof (induction ms arbitrary: w)
  case (Cons m ms)
  have "reg_ok (fst (checkpoint_one et (faults (m_dev_id m)) m w))"
    by (rule reg_ok_checkpoint_one [OF Cons.prems])
  from Cons.IH [OF this] show ?case by (auto split: prod.splits)
qed simp

lemma reg_ok_checkpoint_all: "reg_ok w \<Longrightarrow> reg_ok (fst (checkpoint_all et faults w))"
  using reg_ok_checkpoint_each [OF reg_ok_reap, of w et faults]
  by (auto simp: checkpoint_all_def Let_def split: prod.split) (metis fst_conv)

section \<open>Answers\<close>

lemma dump_unfold:
  "snd (dump dv since gen w) = (case map_of (devices (reap w)) dv of
     None \<Rightarrow> Inl (NotManaged dv)
   | Some m \<Rightarrow> let s = arcs w ! m_state m in
       if gen = None \<or> (\<exists>g. gen = Some g \<and> from_str_radix 16 g = Some (generation s)) then
         (if current_era s \<le> since then Inl (StaleCursor since (current_era s))
          else Inr (dump_reply dv s since))
       else Inl (case from_str_radix 16 (the gen) of
           None \<Rightarrow> GenerationNotHex (the gen) | Some _ \<Rightarrow> WrongGeneration (generation s)))"
  by (auto simp: dump_def lookup_def Let_def split: option.splits)

lemma range_lens_no_wrap:
  assumes "era_wf s"
  shows "unat (sum_list (map dr_len (ranges_since s since))) = card (changed_since s since)"
proof -
  let ?rs = "ranges_since s since"
  have up: "ranges_sep ?rs" using ranges_since_upto [OF assms, of since] by (simp add: ranges_upto_def)
  have card: "(\<Sum>r\<leftarrow>?rs. unat (dr_len r)) = card (changed_since s since)"
    using card_covered [OF up] covered_ranges_since [OF assms] by simp
  have "changed_since s since \<subseteq> {..<size_of s}" by (auto simp: changed_since_def)
  then have "card (changed_since s since) \<le> size_of s" by (metis card_lessThan card_mono finite_lessThan)
  then have bound: "(\<Sum>r\<leftarrow>?rs. unat (dr_len r)) < 2 ^ 64"
    using card unat_u64_less [of "dev_size s"] by linarith
  have "unat (sum_list (map dr_len rs)) = (\<Sum>r\<leftarrow>rs. unat (dr_len r))"
    if "(\<Sum>r\<leftarrow>rs. unat (dr_len r)) < 2 ^ 64" for rs
    using that
  proof (induction rs)
    case (Cons r rs)
    then have "unat (sum_list (map dr_len rs)) = (\<Sum>r\<leftarrow>rs. unat (dr_len r))" by simp
    with Cons.prems show ?case by (simp add: unat_add_no_overflow)
  qed simp
  from this [OF bound] card show ?thesis by simp
qed

lemma final_save_ok:
  assumes "th_meta (threads w ! t) = Some p"
  shows "files (final_save None t w) p = Some (meta_bytes True (arcs w ! th_arc (threads w ! t)))"
  using assms by (simp add: final_save_def Let_def save_ok)

text \<open>A device that is registered: its entry, and the map it shares with its supervisor.\<close>

lemma registered_wf:
  assumes "reg_ok w" and "map_of (devices (reap w)) dv = Some m"
  shows "m_dev_id m = dv" and "m_supervisor m < length (threads w)" and "m_state m = m_supervisor m"
    and "th_meta (threads w ! m_supervisor m) = m_meta m" and "era_wf (arcs w ! m_state m)"
    and "0 < dev_size (arcs w ! m_state m)" and "th_arc (threads w ! m_supervisor m) = m_state m"
    and "m_state m < length (arcs w)"
proof -
  have "(dv, m) \<in> set (devices (reap w))" using assms(2) by (rule map_of_SomeD)
  then have "entry_wf (reap w) (dv, m)" "maps_wf w"
    using reg_ok_reap [OF assms(1)] by (auto simp: reg_ok_def list_all_iff maps_wf_def)
  then show "m_dev_id m = dv" "m_supervisor m < length (threads w)" "m_state m = m_supervisor m"
    "th_meta (threads w ! m_supervisor m) = m_meta m" "era_wf (arcs w ! m_state m)"
    "0 < dev_size (arcs w ! m_state m)" "th_arc (threads w ! m_supervisor m) = m_state m"
    "m_state m < length (arcs w)"
    by (auto simp: entry_wf_def maps_wf_def)
qed

lemma map_of_filter_update: "P (k, v) \<Longrightarrow> map_of (filter P (AList.update k v ds)) k = Some v"
  by (induction ds) auto

text \<open>A successful \<open>add\<close>, step by step, when everything outside answers well.\<close>

definition good_env :: "attach_env \<Rightarrow> u32 \<Rightarrow> bool" where
  "good_env env dv \<longleftrightarrow> urandom env \<noteq> None \<and> marker_fault env = None \<and> spawn_ok env \<and>
     startup env = Ready dv"

lemma add_success:
  assumes "add_check env spec (reap w) = Inr dsize" and "good_env env dv"
    and "attach_state (urandom env) spec dsize (files w) = Inr (s, rec)"
    and "length (arcs w) = length (threads w)"
  shows "snd (add bdev env spec w) = Inr (add_reply dv spec dsize s rec (bdev dv))"
    and "map_of (devices (fst (add bdev env spec w))) dv = Some (new_entry dv spec w)"
    and "arcs (fst (add bdev env spec w)) = arcs w @ [s]"
    and "th_status (threads (fst (add bdev env spec w)) ! length (threads w)) = Running dv"
    and "spec_meta spec = Some p \<Longrightarrow> files (fst (add bdev env spec w)) p = Some (meta_bytes False s)"
    and "map_of (devices (reap (fst (add bdev env spec w)))) dv = Some (new_entry dv spec w)"
    and "devices (fst (add bdev env spec w)) = AList.update dv (new_entry dv spec w) (devices (reap w))"
proof -
  obtain fs where fs: "write_marker (marker_fault env) (spec_meta spec) s (files w) = (fs, Inr ())"
    "\<And>p. spec_meta spec = Some p \<Longrightarrow> fs p = Some (meta_bytes False s)"
    using assms(2) by (cases "spec_meta spec") (auto simp: write_marker_def good_env_def save_ok)
  then have eq: "add bdev env spec w = add_start bdev env spec dsize s rec ((reap w)\<lparr>files := fs\<rparr>)"
    using assms by (simp add: add_def)
  have start: "spawn_ok env" "startup env = Ready dv" using assms(2) by (simp_all add: good_env_def)
  note facts = eq add_start_eq [OF start(1)] start(2) sup_start_def opened_def
  show "snd (add bdev env spec w) = Inr (add_reply dv spec dsize s rec (bdev dv))"
    "arcs (fst (add bdev env spec w)) = arcs w @ [s]"
    "th_status (threads (fst (add bdev env spec w)) ! length (threads w)) = Running dv"
    "map_of (devices (fst (add bdev env spec w))) dv = Some (new_entry dv spec w)"
    "devices (fst (add bdev env spec w)) = AList.update dv (new_entry dv spec w) (devices (reap w))"
    by (simp_all add: facts Let_def update_conv' new_entry_def)
  show "map_of (devices (reap (fst (add bdev env spec w)))) dv = Some (new_entry dv spec w)"
    unfolding reap_def by (simp add: facts Let_def map_of_filter_update new_entry_def)
  show "files (fst (add bdev env spec w)) p = Some (meta_bytes False s)" if "spec_meta spec = Some p"
    using fs(2) [OF that] by (simp add: facts Let_def)
qed

lemma attach_state_file:
  assumes "spec_meta spec = Some p" and "fs p = Some (meta_bytes clean s)" and "era_wf s"
    and "spec_granularity spec = granularity s"
  shows "attach_state (Some rnd) spec (dev_size s) fs =
    Inr (if clean then s else mark_all_dirty s, \<not> clean)"
  using assms load_meta_bytes [OF assms(3), of rnd clean] by (simp add: attach_state_def)

section \<open>Properties\<close>

text \<open>
  C7. \<open>dump\<close> with a (generation, era) cursor: a cursor of another tracking history and a
  cursor at or past the current era are errors, never an empty diff; any other cursor gets the
  ranges that cover exactly the bytes of the chunks changed since, and \<open>dirty_bytes\<close> is the
  number of those bytes, with no wrap-around in the sum.
\<close>

theorem dump_exact:
  assumes "reg_ok w" and "map_of (devices (reap w)) dv = Some m" and "s = arcs w ! m_state m"
  shows "snd (dump dv since (Some (hex16 g)) w) =
      (if g \<noteq> generation s then Inl (WrongGeneration (generation s))
       else if current_era s \<le> since then Inl (StaleCursor since (current_era s))
       else Inr (dump_reply dv s since)) \<and>
    jget ''ranges'' (dump_reply dv s since) = JArr (map range_json (ranges_since s since)) \<and>
    covered (ranges_since s since) = changed_since s since \<and>
    jget ''dirty_bytes'' (dump_reply dv s since) = JNum (int (card (changed_since s since)))"
proof -
  have wf: "era_wf s" using registered_wf(5) [OF assms(1,2)] assms(3) by simp
  have "uint (sum_list (map dr_len (ranges_since s since))) = int (card (changed_since s since))"
    using range_lens_no_wrap [OF wf, of since] by (metis int_nat_eq of_nat_unat)
  then show ?thesis
    using assms(2,3) covered_ranges_since [OF wf]
    by (simp add: dump_unfold parse_hex16 Let_def dump_reply_def u64_json_def)
qed

text \<open>A registered device on the example map, for the witnesses.\<close>

definition ex_spec :: device_spec where
  "ex_spec = \<lparr>spec_backing = ''a.img'', spec_granularity = 4096, spec_meta = Some ([], ''a.meta''),
     spec_dev_id = default_dev_id, spec_queues = default_queues, spec_depth = default_depth,
     spec_buf_size = default_buf_size, spec_buffered = False\<rparr>"

definition ex_world :: world where
  "ex_world = \<lparr>devices = [(0, new_entry 0 ex_spec \<lparr>devices = [], arcs = [], threads = [], files = Map.empty\<rparr>)],
     arcs = [ex_era], threads = [\<lparr>th_meta = Some ([], ''a.meta''), th_arc = 0, th_status = Running 0\<rparr>],
     files = [([], ''a.meta'') \<mapsto> meta_bytes False ex_era]\<rparr>"

definition ex_env :: attach_env where
  "ex_env = \<lparr>ctl_exists = False, open_ok = True, log2_fn = (\<lambda>_. 0),
     file_meta = Some (RegularFile, 14336), ioctls = None, urandom = Some [1, 2, 3, 4, 5, 6, 7, 8],
     marker_fault = None, spawn_ok = True, startup = Ready 3\<rparr>"

lemma ex_world_simps:
  "reap ex_world = ex_world" "arcs ex_world = [ex_era]" "length (threads ex_world) = 1"
  "devices ex_world = [(0, new_entry 0 ex_spec
     \<lparr>devices = [], arcs = [], threads = [], files = Map.empty\<rparr>)]"
  by (simp_all add: ex_world_def reap_def new_entry_def)

lemma ex_world_ok: "reg_ok ex_world"
  by (simp add: ex_world_def reg_ok_def maps_wf_def entry_wf_def new_entry_def ex_spec_def ex_era_simps)

theorem dump_exact_witness:
  "snd (dump 0 0 (Some (hex16 8)) ex_world) = Inl (WrongGeneration 7) \<and>
   snd (dump 0 1 (Some (hex16 7)) ex_world) = Inl (StaleCursor 1 1) \<and>
   snd (dump 0 0 (Some (hex16 7)) ex_world) = Inr (dump_reply 0 ex_era 0)"
proof -
  let ?m = "new_entry 0 ex_spec \<lparr>devices = [], arcs = [], threads = [], files = Map.empty\<rparr>"
  have m: "map_of (devices (reap ex_world)) 0 = Some ?m" by (simp add: ex_world_simps)
  have s: "ex_era = arcs ex_world ! m_state ?m" by (simp add: ex_world_simps new_entry_def)
  show ?thesis
    using dump_exact [OF ex_world_ok m s, of 0 8] dump_exact [OF ex_world_ok m s, of 1 7]
      dump_exact [OF ex_world_ok m s, of 0 7]
    by (simp add: ex_era_def)
qed

text \<open>
  C8. A clean detach and a new attach of the same backing store and metadata file continue the
  tracking history: the map the new device starts with is the map the old one ended with
  (generation, current era and every chunk), the reply does not report a recovery, and the
  file on disk carries the attach marker again.
\<close>

theorem detach_attach_continues:
  assumes "reg_ok w" and "map_of (devices (reap w)) dv = Some m" and "m_meta m = Some p"
    and "del True (Saves None) dv w = (w1, r)"
    and "spec_meta spec = Some p" and "spec_granularity spec = granularity (arcs w ! m_state m)"
    and "add_check env spec (reap w1) = Inr (dev_size (arcs w ! m_state m))" and "good_env env dv'"
  shows "(\<exists>v. r = Inr v \<and> is_ok v) \<and>
    (\<exists>w2 v m'. add bdev env spec w1 = (w2, Inr v) \<and> jget ''recovered_unclean'' v = JNull \<and>
       map_of (devices w2) dv' = Some m' \<and> arcs w2 ! m_state m' = arcs w ! m_state m \<and>
       files w2 p = Some (meta_bytes False (arcs w ! m_state m)))"
proof -
  let ?s = "arcs w ! m_state m" and ?t = "m_supervisor m"
  note reg = registered_wf [OF assms(1,2)]
  let ?w0 = "(reap w)\<lparr>devices := AList.delete dv (devices (reap w))\<rparr>"
  have w1: "w1 = final_save None ?t ?w0" and r: "\<exists>v. r = Inr v \<and> is_ok v"
    using assms(2,4) by (auto simp: del_def lookup_def supervise_exit_def Let_def is_ok_def)
  have saved: "files w1 p = Some (meta_bytes True ?s)"
    unfolding w1 using reg assms(3) by (subst final_save_ok) simp_all
  obtain rnd where rnd: "urandom env = Some rnd" using assms(8) by (auto simp: good_env_def)
  have at: "attach_state (urandom env) spec (dev_size ?s) (files w1) = Inr (?s, False)"
    using attach_state_file [of spec p "files w1" True ?s rnd] assms(5,6) saved reg(5) rnd by simp
  have arcs1: "arcs w1 = arcs w" "length (threads w1) = length (threads w)"
    by (simp_all add: w1 final_save_def Let_def)
  have len: "length (arcs w1) = length (threads w1)"
    using assms(1) by (simp add: arcs1 reg_ok_def maps_wf_def)
  note ok = add_success [OF assms(7,8) at len, where bdev = bdev]
  show ?thesis
  proof (rule conjI [OF r], intro conjI exI)
    show "add bdev env spec w1 = (fst (add bdev env spec w1),
        Inr (add_reply dv' spec (dev_size ?s) ?s False (bdev dv')))"
      using ok(1) by (simp add: prod_eq_iff)
    show "map_of (devices (fst (add bdev env spec w1))) dv' = Some (new_entry dv' spec w1)"
      by (rule ok(2))
    show "arcs (fst (add bdev env spec w1)) ! m_state (new_entry dv' spec w1) = ?s"
      by (simp add: ok(3) new_entry_def)
    show "files (fst (add bdev env spec w1)) p = Some (meta_bytes False ?s)"
      by (rule ok(5) [OF assms(5)])
  qed (simp add: add_reply_def)
qed

theorem detach_attach_continues_witness:
  "\<exists>w1 w2 v m'. fst (del True (Saves None) 0 ex_world) = w1 \<and>
     add (\<lambda>_. ''b'') ex_env ex_spec w1 = (w2, Inr v) \<and> map_of (devices w2) 3 = Some m' \<and>
     arcs w2 ! m_state m' = ex_era"
proof -
  let ?m = "new_entry 0 ex_spec \<lparr>devices = [], arcs = [], threads = [], files = Map.empty\<rparr>"
  obtain w1 r where d: "del True (Saves None) 0 ex_world = (w1, r)" by fastforce
  have m: "map_of (devices (reap ex_world)) 0 = Some ?m" "m_meta ?m = Some ([], ''a.meta'')"
    by (simp_all add: ex_world_simps new_entry_def ex_spec_def)
  have s: "arcs ex_world ! m_state ?m = ex_era" by (simp add: ex_world_simps new_entry_def)
  have "devices w1 = []" using d
    by (auto simp: del_def lookup_def ex_world_simps supervise_exit_def final_save_def Let_def)
  then have "add_check ex_env ex_spec (reap w1) = Inr 14336"
    by (simp add: add_check_def ex_env_def ex_spec_def default_dev_id_def backing_size_def reap_def)
  then have "add_check ex_env ex_spec (reap w1) = Inr (dev_size (arcs ex_world ! m_state ?m))"
    by (simp add: s ex_era_simps)
  moreover have "spec_granularity ex_spec = granularity (arcs ex_world ! m_state ?m)"
      "spec_meta ex_spec = Some ([], ''a.meta'')" "good_env ex_env 3"
    unfolding s by (simp_all add: ex_era_simps ex_spec_def good_env_def ex_env_def)
  ultimately obtain w2 v m' where
    "add (\<lambda>_. ''b'') ex_env ex_spec w1 = (w2, Inr v)" "map_of (devices w2) 3 = Some m'"
    "arcs w2 ! m_state m' = arcs ex_world ! m_state ?m"
    using detach_attach_continues [OF ex_world_ok m d, of ex_spec ex_env 3 "\<lambda>_. ''b''"] by blast
  with d s show ?thesis by (metis fst_conv)
qed

end
