(* ===== verification/Daemon.thy ===== *)
theory Daemon
  imports Manager
begin

text \<open>
  The life of the daemon: requests of clients, completions on the queue threads and
  supervisors that come up late or exit on their own, as a step relation on the world of
  \<^verbatim>\<open>Manager\<close>, with the invariants of the registry and of the metadata files, and what a
  daemon that is killed at any moment leaves for the next one.
\<close>

section \<open>Steps\<close>

text \<open>
  What changes the world. \<open>EvReap\<close> stands for \<open>list\<close>, \<open>status\<close>, \<open>dump\<close> and
  \<open>resolve\<close>, which only reap; \<open>EvIo\<close> is one turn of a queue handler on the map of a
  running device.
\<close>

datatype event =
    EvAdd attach_env device_spec
  | EvDel bool sup_exit u32
  | EvCheckpoint "save_fault option" u32
  | EvCheckpointAll "u32 \<Rightarrow> save_fault option"
  | EvReap
  | EvIo nat u16 iod "i32 option"
  | EvReady nat u32
  | EvExit nat sup_exit

inductive daemon_step :: "abi \<Rightarrow> (u32 \<Rightarrow> string) \<Rightarrow> (save_fault \<Rightarrow> string) \<Rightarrow> world \<Rightarrow> event \<Rightarrow>
    world \<Rightarrow> bool" for K bdev et where
  step_add: "daemon_step K bdev et w (EvAdd env spec) (fst (add bdev env spec w))"
| step_del: "daemon_step K bdev et w (EvDel del_ok ex dv) (fst (del del_ok ex dv w))"
| step_checkpoint: "daemon_step K bdev et w (EvCheckpoint fault dv) (fst (checkpoint_dev et fault dv w))"
| step_checkpoint_all:
    "daemon_step K bdev et w (EvCheckpointAll faults) (fst (checkpoint_all et faults w))"
| step_reap: "daemon_step K bdev et w EvReap (reap w)"
| step_io: "t < length (threads w) \<Longrightarrow> th_status (threads w ! t) = Running dv \<Longrightarrow>
    handle_io_cmd K tag d cqe (arcs w ! th_arc (threads w ! t)) = Some (s, act) \<Longrightarrow>
    daemon_step K bdev et w (EvIo t tag d cqe) (w\<lparr>arcs := (arcs w)[th_arc (threads w ! t) := s]\<rparr>)"
| step_ready: "t < length (threads w) \<Longrightarrow> th_status (threads w ! t) = Starting \<Longrightarrow>
    daemon_step K bdev et w (EvReady t dv)
      (w\<lparr>threads := (threads w)[t := (threads w ! t)\<lparr>th_status := Running dv\<rparr>]\<rparr>)"
| step_exit: "t < length (threads w) \<Longrightarrow> th_status (threads w ! t) \<noteq> Finished \<Longrightarrow>
    daemon_step K bdev et w (EvExit t ex) (supervise_exit ex t w)"

inductive daemon_path :: "abi \<Rightarrow> (u32 \<Rightarrow> string) \<Rightarrow> (save_fault \<Rightarrow> string) \<Rightarrow> world \<Rightarrow> event list \<Rightarrow>
    world \<Rightarrow> bool" for K bdev et where
  path_nil: "daemon_path K bdev et w [] w"
| path_cons: "daemon_step K bdev et w ev w1 \<Longrightarrow> daemon_path K bdev et w1 evs w2 \<Longrightarrow>
    daemon_path K bdev et w (ev # evs) w2"

inductive_cases daemon_path_consE: "daemon_path K bdev et w (ev # evs) w'"
inductive_simps daemon_path_nil: "daemon_path K bdev et w [] w'"

text \<open>A daemon that starts, on the metadata files a former one left.\<close>

definition fresh_daemon :: "fs \<Rightarrow> world" where
  "fresh_daemon fs = \<lparr>devices = [], arcs = [], threads = [], files = fs\<rparr>"

lemma fresh_daemon_ok [simp]: "reg_ok (fresh_daemon fs)"
  by (simp add: fresh_daemon_def reg_ok_def maps_wf_def)

lemma step_reg_ok:
  assumes "daemon_step K bdev et w ev w'" and "reg_ok w"
  shows "reg_ok w'"
  using assms
proof cases
  case (step_io t dv tag d cqe s act)
  have "same_shape (arcs w ! th_arc (threads w ! t)) s" using handle_shape [OF step_io(5)] by simp
  then show ?thesis
    unfolding step_io(2) by (intro reg_ok_update [OF assms(2)]) (simp_all add: nth_update_shape)
qed (simp_all add: reg_ok_add reg_ok_del reg_ok_checkpoint_dev reg_ok_checkpoint_all reg_ok_reap
    reg_ok_status reg_ok_exit)

lemma path_reg_ok: "daemon_path K bdev et w evs w' \<Longrightarrow> reg_ok w \<Longrightarrow> reg_ok w'"
  by (induction rule: daemon_path.induct) (auto dest: step_reg_ok)

section \<open>One device among others\<close>

definition live :: "nat \<Rightarrow> world \<Rightarrow> bool" where
  "live t w \<longleftrightarrow> t < length (threads w) \<and> th_status (threads w ! t) \<noteq> Finished"

text \<open>Saving under \<open>q\<close> leaves the file \<open>p\<close> alone.\<close>

definition apart :: "path \<Rightarrow> path \<Rightarrow> bool" where
  "apart p q \<longleftrightarrow> q \<noteq> p \<and> tmp_of q \<noteq> p"

definition meta_apart :: "path \<Rightarrow> path option \<Rightarrow> bool" where
  "meta_apart p meta = (case meta of None \<Rightarrow> True | Some q \<Rightarrow> apart p q)"

definition others_apart :: "path \<Rightarrow> nat \<Rightarrow> world \<Rightarrow> bool" where
  "others_apart p t w \<longleftrightarrow> (\<forall>i. live i w \<and> i \<noteq> t \<longrightarrow> meta_apart p (th_meta (threads w ! i)))"

fun ev_apart :: "path \<Rightarrow> event \<Rightarrow> bool" where
  "ev_apart p (EvAdd env spec) = meta_apart p (spec_meta spec)"
| "ev_apart p _ = True"

text \<open>
  What a step may do to a device with metadata file \<open>p\<close> that is live after it: its era goes
  up by one at most, and its file is kept or replaced by an unclean save of its map.
\<close>

definition evolves :: "path \<Rightarrow> nat \<Rightarrow> world \<Rightarrow> world \<Rightarrow> bool" where
  "evolves p t w w' \<longleftrightarrow> th_meta (threads w' ! t) = th_meta (threads w ! t) \<and>
     same_shape (arcs w ! t) (arcs w' ! t) \<and>
     (current_era (arcs w' ! t) = current_era (arcs w ! t) \<or>
      current_era (arcs w' ! t) = current_era (arcs w ! t) + 1) \<and>
     (files w' p = files w p \<or> files w' p = Some (meta_bytes False (arcs w' ! t)))"

lemma evolves_refl: "files w' p = files w p \<Longrightarrow> arcs w' ! t = arcs w ! t \<Longrightarrow>
    th_meta (threads w' ! t) = th_meta (threads w ! t) \<Longrightarrow> evolves p t w w'"
  by (simp add: evolves_def)

lemma others_apart_mono:
  assumes "others_apart p t w"
    and "\<And>i. live i w' \<Longrightarrow> i \<noteq> t \<Longrightarrow> live i w \<and> th_meta (threads w' ! i) = th_meta (threads w ! i)"
  shows "others_apart p t w'"
  using assms by (auto simp: others_apart_def)

lemma save_apart: "apart p q \<Longrightarrow> fst (save fault q clean s fs) p = fs p"
  unfolding apart_def by (rule save_other_path) auto

lemma meta_apart_save:
  "meta_apart p meta \<Longrightarrow>
     (case meta of None \<Rightarrow> fs | Some q \<Rightarrow> fst (save fault q clean s fs)) p = fs p"
  by (cases meta) (simp_all add: meta_apart_def save_apart)

lemma live_status:
  "live i (w\<lparr>threads := (threads w)[t := (threads w ! t)\<lparr>th_status := x\<rparr>]\<rparr>) \<longleftrightarrow>
     (if i = t then t < length (threads w) \<and> x \<noteq> Finished else live i w)"
  by (auto simp: live_def nth_list_update)

lemma live_final_save: "live i (final_save fault t w) \<longleftrightarrow> i \<noteq> t \<and> live i w"
  by (cases "i = t") (auto simp: live_def final_save_def Let_def)

lemma live_exit: "live i (supervise_exit ex t w) \<longleftrightarrow> i \<noteq> t \<and> live i w"
  by (cases ex) (simp_all add: supervise_exit_def live_final_save live_status)

lemma exit_frame:
  "th_meta (threads (supervise_exit ex t w) ! i) = th_meta (threads w ! i)"
  "meta_apart p (th_meta (threads w ! t)) \<Longrightarrow> files (supervise_exit ex t w) p = files w p"
  by (cases ex; simp add: supervise_exit_def final_save_def Let_def meta_apart_save)+

lemma live_reap [simp]: "live i (reap w) = live i w"
  by (simp add: live_def)

lemma live_devices [simp]: "live i (w\<lparr>devices := ds\<rparr>) = live i w"
  "live i (w\<lparr>files := fs\<rparr>) = live i w" "live i (w\<lparr>arcs := as\<rparr>) = live i w"
  by (simp_all add: live_def)

definition tracked :: "path \<Rightarrow> nat \<Rightarrow> world \<Rightarrow> bool" where
  "tracked p t w \<longleftrightarrow> reg_ok w \<and> t < length (threads w) \<and> th_meta (threads w ! t) = Some p \<and>
     tmp_of p \<noteq> p \<and> others_apart p t w"

definition keeps :: "path \<Rightarrow> nat \<Rightarrow> world \<Rightarrow> world \<Rightarrow> bool" where
  "keeps p t w w' \<longleftrightarrow> live t w \<and> evolves p t w w' \<and> others_apart p t w'"

text \<open>A step that touches neither the device nor its file.\<close>

lemma keeps_frame:
  assumes "tracked p t w" and "live t w'" and "arcs w' ! t = arcs w ! t" and "files w' p = files w p"
    and "\<And>i. live i w' \<Longrightarrow> live i w \<and> th_meta (threads w' ! i) = th_meta (threads w ! i)"
  shows "keeps p t w w'"
proof -
  have "others_apart p t w'"
    by (rule others_apart_mono [of p t w]) (use assms(1,5) in \<open>simp_all add: tracked_def\<close>)
  moreover have "evolves p t w w'" "live t w"
    using assms(3,4) assms(5) [OF assms(2)] by (simp_all add: evolves_refl)
  ultimately show ?thesis by (simp add: keeps_def)
qed

lemma keeps_refl: "tracked p t w \<Longrightarrow> live t w \<Longrightarrow> keeps p t w w"
  by (simp add: keeps_frame)

lemma opened_start:
  fixes spec s fs w st
  defines "w3 \<equiv> sup_start st (length (threads w)) (opened spec s fs w)"
  shows "i < length (threads w) \<Longrightarrow> threads w3 ! i = threads w ! i"
    and "length (threads w3) = Suc (length (threads w))"
    and "th_meta (threads w3 ! length (threads w)) = spec_meta spec"
    and "meta_apart p (spec_meta spec) \<Longrightarrow> files w3 p = fs p"
    and "arcs w3 = arcs w @ [s]"
  by (cases st; simp add: w3_def sup_start_def opened_def final_save_def Let_def nth_append
      meta_apart_save)+

lemma add_keeps:
  assumes "tracked p t w" and "meta_apart p (spec_meta spec)" and "live t (fst (add bdev env spec w))"
  shows "keeps p t w (fst (add bdev env spec w))"
proof (cases rule: add_cases [of bdev env spec w])
  case (rejected e fs)
  have "fs p = files w p" using rejected(2) assms(2) by (auto simp: meta_apart_def save_apart)
  then show ?thesis using assms rejected by (intro keeps_frame) simp_all
next
  case (started dsize s rec fs)
  let ?w' = "fst (add bdev env spec w)" and ?n = "length (threads w)"
  let ?w3 = "sup_start (startup env) ?n (opened spec s fs (reap w))"
  note w3 = opened_start [where w = "reap w" and st = "startup env" and spec = spec and s = s and fs = fs,
      unfolded reap_simps]
  have w': "threads ?w' = threads ?w3" "arcs ?w' = arcs ?w3" "files ?w' = files ?w3"
    using started by (cases "startup env"; simp add: add_start_eq Let_def)+
  have t: "t < ?n" "?n = length (arcs w)" using assms(1) by (auto simp: tracked_def reg_ok_def maps_wf_def)
  have "fs p = files w p"
    using write_marker_files [of "marker_fault env" "spec_meta spec" s "files w"] started(3) assms(2)
    by (simp add: meta_apart_save)
  then have "evolves p t w ?w'"
    using w3 assms(2) t by (intro evolves_refl) (simp_all add: w' nth_append)
  moreover have "live t w" using assms(3) w3(1) t(1) w3(2) by (simp add: live_def w')
  moreover have "meta_apart p (th_meta (threads ?w' ! i))" if "live i ?w'" "i \<noteq> t" for i
  proof (cases "i = ?n")
    case True
    then show ?thesis using w3(3) assms(2) by (simp add: w')
  next
    case False
    then have i: "i < ?n" using that(1) w3(2) by (auto simp: live_def w')
    then have "live i w" using that(1) w3(1,2) by (simp add: live_def w')
    then show ?thesis using assms(1) that(2) i w3(1) by (simp add: tracked_def others_apart_def w')
  qed
  ultimately show ?thesis by (simp add: keeps_def others_apart_def)
qed

lemma exit_keeps:
  assumes "tracked p t w" and "live i w" and "live t (supervise_exit ex i w)"
  shows "keeps p t w (supervise_exit ex i w)"
proof -
  have "meta_apart p (th_meta (threads w ! i))"
    using assms by (auto simp: tracked_def others_apart_def live_exit)
  then show ?thesis using assms by (intro keeps_frame) (simp_all add: exit_frame live_exit)
qed

lemma tracked_devices: "tracked p t w \<Longrightarrow> tracked p t (w\<lparr>devices := filter P (devices w)\<rparr>)"
  by (auto simp: tracked_def reg_ok_filter others_apart_def)

lemma tracked_reap: "tracked p t w \<Longrightarrow> tracked p t (reap w)"
  unfolding reap_def by (rule tracked_devices)

lemma keeps_devices:
  "arcs v = arcs w \<Longrightarrow> threads v = threads w \<Longrightarrow> files v = files w \<Longrightarrow> keeps p t v w' = keeps p t w w'"
  by (simp add: keeps_def evolves_def live_def)

lemma registered_live:
  "reg_ok w \<Longrightarrow> (dv, m) \<in> set (devices (reap w)) \<Longrightarrow> live (m_supervisor m) w \<and>
     m_state m = m_supervisor m \<and> th_meta (threads w ! m_supervisor m) = m_meta m"
  by (auto simp: reap_devices reg_ok_def list_all_iff entry_wf_def live_def)

lemma del_keeps:
  assumes "tracked p t w" and "live t (fst (del del_ok ex dv w))"
  shows "keeps p t w (fst (del del_ok ex dv w))"
proof (cases "map_of (devices (reap w)) dv")
  case None
  then show ?thesis
    using assms by (intro keeps_frame) (simp_all add: del_def lookup_def Let_def)
next
  case (Some m)
  let ?w0 = "(reap w)\<lparr>devices := AList.delete dv (devices (reap w))\<rparr>"
  have l: "live (m_supervisor m) w"
    using registered_live [of w dv m] map_of_SomeD [OF Some] assms(1) by (simp add: tracked_def)
  have t: "tracked p t ?w0" by (simp add: delete_as_filter tracked_devices tracked_reap assms(1))
  have w': "fst (del del_ok ex dv w) = (if del_ok then supervise_exit ex (m_supervisor m) ?w0 else ?w0)"
    using Some by (auto simp: del_def lookup_def Let_def split: sup_exit.split)
  have "keeps p t ?w0 (fst (del del_ok ex dv w))"
    using exit_keeps [OF t] keeps_refl [OF t] assms(2) l by (auto simp: w')
  then show ?thesis by (simp add: keeps_devices [of ?w0 w])
qed

text \<open>
  Checkpoints: of another device a frame, of this one a bump with an unclean save, and of all
  devices at most one bump of each.
\<close>

definition entry_live :: "world \<Rightarrow> managed \<Rightarrow> bool" where
  "entry_live w m \<longleftrightarrow> live (m_supervisor m) w \<and> m_state m = m_supervisor m \<and>
     th_meta (threads w ! m_supervisor m) = m_meta m"

definition framed :: "path \<Rightarrow> nat \<Rightarrow> world \<Rightarrow> world \<Rightarrow> bool" where
  "framed p t w w' \<longleftrightarrow> threads w' = threads w \<and> arcs w' ! t = arcs w ! t \<and> files w' p = files w p"

lemma evolves_framed:
  "framed p t w v \<Longrightarrow> evolves p t v w' \<Longrightarrow> evolves p t w w'"
  "evolves p t w v \<Longrightarrow> framed p t v w' \<Longrightarrow> evolves p t w w'"
  by (auto simp: framed_def evolves_def)

lemma checkpoint_one_other:
  assumes "others_apart p t w" and "entry_live w m" and "m_supervisor m \<noteq> t"
  shows "framed p t w (fst (checkpoint_one et fault m w))"
proof -
  have "meta_apart p (m_meta m)" using assms by (auto simp: others_apart_def entry_live_def)
  then show ?thesis
    using assms(2,3) by (simp add: framed_def checkpoint_one_arcs meta_apart_save entry_live_def)
qed

lemma checkpoint_one_self:
  assumes "tracked p t w" and "entry_live w m" and "m_supervisor m = t"
  shows "evolves p t w (fst (checkpoint_one et fault m w))"
proof -
  let ?s = "fst (checkpoint (arcs w ! t))" and ?w' = "fst (checkpoint_one et fault m w)"
  have t: "t < length (arcs w)" "m_meta m = Some p" "m_state m = t" "tmp_of p \<noteq> p"
    using assms by (auto simp: tracked_def entry_live_def reg_ok_def maps_wf_def)
  have "fst (save fault p False ?s (files w)) p \<in> {files w p, Some (meta_bytes False ?s)}"
  proof (cases "snd (save fault p False ?s (files w))")
    case (Inl e)
    then show ?thesis using save_failed_keeps t(4) by blast
  next
    case (Inr u)
    then have "fault = None" by (auto simp: save_def Let_def split: option.splits save_fault.splits)
    then show ?thesis by (simp add: save_ok)
  qed
  then show ?thesis using t by (simp add: evolves_def checkpoint_one_arcs)
qed

lemma checkpoint_each_other:
  "others_apart p t w \<Longrightarrow> list_all (entry_live w) ms \<Longrightarrow> t \<notin> m_supervisor ` set ms \<Longrightarrow>
     framed p t w (fst (checkpoint_each et faults ms w))"
proof (induction ms arbitrary: w)
  case (Cons m ms)
  let ?w1 = "fst (checkpoint_one et (faults (m_dev_id m)) m w)"
  have f: "framed p t w ?w1" using Cons.prems by (intro checkpoint_one_other) auto
  have th: "threads ?w1 = threads w" by (simp add: checkpoint_one_arcs)
  have "others_apart p t ?w1" "list_all (entry_live ?w1) ms"
    using Cons.prems by (simp_all add: others_apart_def list_all_iff entry_live_def live_def th)
  with Cons have "framed p t ?w1 (fst (checkpoint_each et faults ms ?w1))" by simp
  with f show ?case by (auto simp: framed_def split: prod.splits)
qed (simp add: framed_def)

lemma checkpoint_each_threads: "threads (fst (checkpoint_each et faults ms w)) = threads w"
proof (induction ms arbitrary: w)
  case (Cons m ms)
  from this [of "fst (checkpoint_one et (faults (m_dev_id m)) m w)"]
  show ?case by (auto simp: checkpoint_one_arcs split: prod.splits)
qed simp

lemma checkpoint_each_evolves:
  "tracked p t w \<Longrightarrow> list_all (entry_live w) ms \<Longrightarrow> distinct (map m_supervisor ms) \<Longrightarrow>
     evolves p t w (fst (checkpoint_each et faults ms w))"
proof (induction ms arbitrary: w)
  case Nil
  then show ?case by (simp add: evolves_refl)
next
  case (Cons m ms)
  let ?w1 = "fst (checkpoint_one et (faults (m_dev_id m)) m w)"
  have th: "threads ?w1 = threads w" by (simp add: checkpoint_one_arcs)
  have w1: "others_apart p t ?w1" "list_all (entry_live ?w1) ms" "tracked p t ?w1"
    using Cons.prems reg_ok_checkpoint_one
    by (simp_all add: tracked_def others_apart_def list_all_iff entry_live_def live_def th)
  have "evolves p t w (fst (checkpoint_each et faults ms ?w1))"
  proof (cases "m_supervisor m = t")
    case True
    then have "framed p t ?w1 (fst (checkpoint_each et faults ms ?w1))"
      using checkpoint_each_other [OF w1(1,2)] Cons.prems(3) by auto
    moreover have "evolves p t w ?w1"
      using checkpoint_one_self [OF Cons.prems(1)] True Cons.prems(2) by simp
    ultimately show ?thesis by (rule evolves_framed(2) [rotated])
  next
    case False
    then have "framed p t w ?w1"
      using checkpoint_one_other Cons.prems by (auto simp: tracked_def)
    moreover have "evolves p t ?w1 (fst (checkpoint_each et faults ms ?w1))"
      using Cons.IH [OF w1(3,2)] Cons.prems(3) by simp
    ultimately show ?thesis by (rule evolves_framed(1))
  qed
  then show ?case by (auto split: prod.splits)
qed

lemma registry_entries:
  assumes "reg_ok w"
  shows "list_all (entry_live w) (map snd (devices (reap w)))"
    and "distinct (map m_supervisor (map snd (devices (reap w))))"
proof -
  show "list_all (entry_live w) (map snd (devices (reap w)))"
    using registered_live [OF assms] by (auto simp: list_all_iff entry_live_def)
  have "map m_supervisor (map snd ds) = map (\<lambda>(_, m). m_supervisor m) ds" for ds :: "(u32 \<times> managed) list"
    by (induction ds) auto
  from this [of "devices (reap w)"] show "distinct (map m_supervisor (map snd (devices (reap w))))"
    using reg_ok_reap [OF assms] unfolding reg_ok_def by presburger
qed

lemma checkpoint_all_keeps:
  assumes "tracked p t w" and "live t w"
  shows "keeps p t w (fst (checkpoint_all et faults w))"
proof -
  let ?ms = "map snd (devices (reap w))"
  have e: "evolves p t (reap w) (fst (checkpoint_each et faults ?ms (reap w)))"
    using registry_entries [of w] assms(1) tracked_reap [OF assms(1)]
    by (intro checkpoint_each_evolves) (auto simp: tracked_def list_all_iff entry_live_def)
  have w': "fst (checkpoint_all et faults w) = fst (checkpoint_each et faults ?ms (reap w))"
    by (simp add: checkpoint_all_def Let_def split: prod.split)
  have "threads (fst (checkpoint_each et faults ?ms (reap w))) = threads w"
    by (simp add: checkpoint_each_threads)
  then show ?thesis
    using e assms unfolding w' by (simp add: keeps_def evolves_def tracked_def others_apart_def live_def)
qed

lemma checkpoint_dev_keeps:
  assumes "tracked p t w" and "live t w"
  shows "keeps p t w (fst (checkpoint_dev et fault dv w))"
proof (cases "map_of (devices (reap w)) dv")
  case None
  then show ?thesis
    using assms by (intro keeps_frame) (simp_all add: checkpoint_dev_def lookup_def Let_def)
next
  case (Some m)
  let ?w' = "fst (checkpoint_one et fault m (reap w))"
  have l: "entry_live (reap w) m"
    using registered_live [of w dv m] map_of_SomeD [OF Some] assms(1)
    by (simp add: tracked_def entry_live_def)
  have "evolves p t (reap w) ?w'"
  proof (cases "m_supervisor m = t")
    case False
    then have "framed p t (reap w) ?w'"
      using checkpoint_one_other l tracked_reap [OF assms(1)] by (auto simp: tracked_def)
    then show ?thesis by (auto simp: framed_def evolves_def)
  qed (use checkpoint_one_self [OF tracked_reap [OF assms(1)] l] in simp)
  moreover have "fst (checkpoint_dev et fault dv w) = ?w'"
    using Some by (simp add: checkpoint_dev_def lookup_def Let_def split: prod.split)
  ultimately show ?thesis
    using assms by (simp add: keeps_def evolves_def tracked_def others_apart_def live_def checkpoint_one_arcs)
qed

lemma checkpoint_threads:
  "threads (fst (checkpoint_dev et fault dv w)) = threads w"
  "threads (fst (checkpoint_all et faults w)) = threads w"
proof -
  have "threads (fst (case checkpoint_one et fault m (reap w) of (w', v) \<Rightarrow> (w', Inr v :: mgr_error + json))) =
      threads w" for m
    using checkpoint_one_arcs(3) [of et fault m "reap w"]
    by (cases "checkpoint_one et fault m (reap w)") simp
  then show "threads (fst (checkpoint_dev et fault dv w)) = threads w"
    by (simp add: checkpoint_dev_def Let_def split: sum.split)
  show "threads (fst (checkpoint_all et faults w)) = threads w"
    using checkpoint_each_threads [of et faults "map snd (devices (reap w))" "reap w"]
    by (cases "checkpoint_each et faults (map snd (devices (reap w))) (reap w)")
      (simp add: checkpoint_all_def Let_def)
qed

lemma step_keeps:
  assumes "daemon_step K bdev et w ev w'" and "tracked p t w" and "ev_apart p ev" and "live t w'"
  shows "keeps p t w w'"
  using assms(1)
proof cases
  case (step_add env spec)
  then show ?thesis using assms add_keeps by simp
next
  case (step_del del_ok ex dv)
  then show ?thesis using assms del_keeps by simp
next
  case (step_checkpoint fault dv)
  then have "live t w" using assms(4) by (simp add: live_def checkpoint_threads)
  then show ?thesis using checkpoint_dev_keeps [OF assms(2)] by (simp add: step_checkpoint)
next
  case (step_checkpoint_all faults)
  then have "live t w" using assms(4) by (simp add: live_def checkpoint_threads)
  then show ?thesis using checkpoint_all_keeps [OF assms(2)] by (simp add: step_checkpoint_all)
next
  case step_reap
  then show ?thesis using assms by (intro keeps_frame) simp_all
next
  case (step_io i dv tag d cqe s act)
  have i: "th_arc (threads w ! i) = i" "i < length (arcs w)"
    using assms(2) step_io(3) by (auto simp: tracked_def reg_ok_def maps_wf_def)
  have "evolves p t w w'"
    using handle_shape [OF step_io(5)] i by (cases "i = t") (simp_all add: step_io(2) evolves_def)
  moreover have "live j w' = live j w" for j by (simp add: step_io(2))
  moreover have "threads w' = threads w" by (simp add: step_io(2))
  ultimately show ?thesis using assms(2,4) by (simp add: keeps_def tracked_def others_apart_def)
next
  case (step_ready i dv)
  have "live j w" if "live j w'" for j
    using that step_ready by (cases "j = i") (simp_all add: live_status, simp add: live_def)
  then show ?thesis using assms step_ready by (intro keeps_frame) simp_all
next
  case (step_exit i ex)
  then show ?thesis using exit_keeps [OF assms(2), of i ex] assms(4) by (simp add: live_def)
qed

text \<open>
  A device whose metadata file protects cursor \<open>c\<close>: the file holds an unclean save of its
  history that is past era \<open>c\<close>.
\<close>

definition guarded :: "path \<Rightarrow> u32 \<Rightarrow> nat \<Rightarrow> world \<Rightarrow> bool" where
  "guarded p c t w \<longleftrightarrow> c < current_era (arcs w ! t) \<and>
     (\<exists>s. files w p = Some (meta_bytes False s) \<and> same_shape (arcs w ! t) s \<and> c < current_era s)"

lemma guarded_step:
  assumes "evolves p t w w'" and "guarded p c t w" and "unat (current_era (arcs w ! t)) + 1 < 2 ^ 32"
  shows "guarded p c t w' \<and> unat (current_era (arcs w' ! t)) \<le> unat (current_era (arcs w ! t)) + 1 \<and>
    same_shape (arcs w ! t) (arcs w' ! t)"
proof -
  let ?e = "current_era (arcs w ! t)"
  have e: "unat (?e + 1) = unat ?e + 1" using assms(3) by (subst unat_add_no_overflow) simp_all
  have shape: "same_shape (arcs w ! t) (arcs w' ! t)" using assms(1) by (simp add: evolves_def)
  have c: "c < current_era (arcs w' ! t)"
    using assms(1,2) e by (auto simp: evolves_def guarded_def word_less_nat_alt)
  obtain s where s: "files w p = Some (meta_bytes False s)" "same_shape (arcs w ! t) s" "c < current_era s"
    using assms(2) by (auto simp: guarded_def)
  have "same_shape (arcs w' ! t) s" using shape s(2) by (simp add: same_shape_def)
  with s c assms(1) have "guarded p c t w'" by (auto simp: guarded_def evolves_def)
  moreover have "unat (current_era (arcs w' ! t)) \<le> unat ?e + 1"
    using assms(1) e by (auto simp: evolves_def)
  ultimately show ?thesis using shape by simp
qed

text \<open>A supervisor that has finished stays finished.\<close>

lemma add_live:
  assumes "t < length (threads w)"
  shows "live t (fst (add bdev env spec w)) = live t w"
proof (cases rule: add_cases [of bdev env spec w])
  case (rejected e fs)
  then show ?thesis by simp
next
  case (started dsize s rec fs)
  let ?w3 = "sup_start (startup env) (length (threads w)) (opened spec s fs (reap w))"
  have "threads (fst (add bdev env spec w)) = threads ?w3"
    using started by (cases "startup env"; simp add: add_start_eq Let_def)
  moreover have "threads ?w3 ! t = threads w ! t" "length (threads ?w3) = Suc (length (threads w))"
    using opened_start(1,2) [where w = "reap w"] assms by simp_all
  ultimately show ?thesis using assms by (simp add: live_def)
qed

lemma del_live_back: "live t (fst (del del_ok ex dv w)) \<Longrightarrow> live t w"
  by (auto simp: del_def Let_def live_exit split: sum.splits if_splits sup_exit.splits)

lemma step_live_back:
  assumes "daemon_step K bdev et w ev w'" and "live t w'" and "t < length (threads w)"
  shows "live t w"
  using assms(1)
proof cases
  case (step_ready i dv)
  then show ?thesis
    using assms(2) by (cases "t = i") (simp_all add: live_status, simp add: live_def)
next
  case (step_checkpoint fault dv)
  then show ?thesis using assms(2) by (simp add: live_def checkpoint_threads)
next
  case (step_checkpoint_all faults)
  then show ?thesis using assms(2) by (simp add: live_def checkpoint_threads)
next
  case (step_add env spec)
  then show ?thesis using assms(2,3) add_live by simp
qed (use assms del_live_back in \<open>simp_all add: live_exit\<close>)

lemma step_threads_grow:
  assumes "daemon_step K bdev et w ev w'"
  shows "length (threads w) \<le> length (threads w')"
  using assms
proof cases
  case (step_add env spec)
  show ?thesis
  proof (cases rule: add_cases [of bdev env spec w])
    case (started dsize s rec fs)
    then show ?thesis
      by (cases "startup env") (simp_all add: step_add add_start_eq Let_def opened_def)
  qed (simp add: step_add)
next
  case (step_del del_ok ex dv)
  have "length (threads (supervise_exit ex i v)) = length (threads v)" for i v
    by (cases ex) (simp_all add: supervise_exit_def final_save_def Let_def)
  then show ?thesis
    by (auto simp: step_del del_def Let_def split: sum.splits sup_exit.splits)
next
  case (step_exit i ex)
  then show ?thesis by (cases ex) (simp_all add: supervise_exit_def final_save_def Let_def)
qed (simp_all add: checkpoint_threads)

lemma path_live_back:
  "daemon_path K bdev et w evs w' \<Longrightarrow> live t w' \<Longrightarrow> t < length (threads w) \<Longrightarrow> live t w"
proof (induction rule: daemon_path.induct)
  case (path_cons w ev w1 evs w2)
  then have "live t w1" using step_threads_grow [OF path_cons.hyps(1)] by simp
  then show ?case using step_live_back path_cons by blast
qed

lemma path_guarded:
  "daemon_path K bdev et w evs w' \<Longrightarrow> tracked p t w \<Longrightarrow> list_all (ev_apart p) evs \<Longrightarrow> live t w' \<Longrightarrow>
     guarded p c t w \<Longrightarrow> unat (current_era (arcs w ! t)) + length evs < 2 ^ 32 \<Longrightarrow>
     tracked p t w' \<and> guarded p c t w' \<and> same_shape (arcs w ! t) (arcs w' ! t)"
proof (induction rule: daemon_path.induct)
  case (path_cons w ev w1 evs w2)
  have t: "t < length (threads w)" using path_cons.prems(1) by (simp add: tracked_def)
  then have t1: "t < length (threads w1)" using step_threads_grow [OF path_cons.hyps(1)] by simp
  have l1: "live t w1" by (rule path_live_back [OF path_cons.hyps(2) path_cons.prems(3) t1])
  have k: "keeps p t w w1"
    using step_keeps [OF path_cons.hyps(1) path_cons.prems(1) _ l1] path_cons.prems(2) by simp
  have g: "guarded p c t w1 \<and> unat (current_era (arcs w1 ! t)) \<le> unat (current_era (arcs w ! t)) + 1 \<and>
      same_shape (arcs w ! t) (arcs w1 ! t)"
    using k path_cons.prems(4,5) by (intro guarded_step) (simp_all add: keeps_def)
  have "tracked p t w1"
    using k path_cons.prems(1) t1 step_reg_ok [OF path_cons.hyps(1)]
    by (simp add: tracked_def keeps_def evolves_def)
  then have "tracked p t w2 \<and> guarded p c t w2 \<and> same_shape (arcs w1 ! t) (arcs w2 ! t)"
    using path_cons.IH path_cons.prems(2,3,5) g by simp
  then show ?case using g same_shape_trans by blast
qed simp

text \<open>
  Attaching over an unclean save \<open>x\<close>: the recovery is reported, and every cursor older than
  the saved era gets the whole device.
\<close>

lemma reattach_unclean:
  assumes "fs p = Some (meta_bytes False x)" and "era_wf x" and "0 < dev_size x"
    and "spec_meta spec = Some p" and "spec_granularity spec = granularity x"
    and "add_check env spec (fresh_daemon fs) = Inr (dev_size x)" and "good_env env dv"
  obtains w v where "add bdev env spec (fresh_daemon fs) = (w, Inr v)"
    and "jget ''recovered_unclean'' v = JBool True"
    and "map_of (devices (reap w)) dv = Some (new_entry dv spec (fresh_daemon fs))"
    and "arcs w = [mark_all_dirty x]" and "reg_ok w"
    and "\<And>since. since < current_era x \<Longrightarrow>
      \<exists>d. snd (dump dv since (Some (hex16 (generation x))) w) = Inr d \<and>
        jget ''ranges'' d = JArr [range_json \<lparr>dr_offset = 0, dr_len = dev_size x\<rparr>]"
proof -
  let ?f = "fresh_daemon fs" and ?x = "mark_all_dirty x"
  obtain rnd where rnd: "urandom env = Some rnd" using assms(7) by (auto simp: good_env_def)
  have chk: "add_check env spec (reap ?f) = Inr (dev_size x)" "length (arcs ?f) = length (threads ?f)"
    using assms(6) by (simp_all add: fresh_daemon_def reap_def)
  have at: "attach_state (urandom env) spec (dev_size x) (files ?f) = Inr (?x, True)"
    using attach_state_file [of spec p fs False x rnd] assms rnd by (simp add: fresh_daemon_def)
  note ok = add_success [OF chk(1) assms(7) at chk(2), where bdev = bdev]
  let ?w = "fst (add bdev env spec ?f)" and ?v = "add_reply dv spec (dev_size x) ?x True (bdev dv)"
  have arcs: "arcs ?w = [?x]" using ok(3) by (simp add: fresh_daemon_def)
  have "\<exists>d. snd (dump dv since (Some (hex16 (generation x))) ?w) = Inr d \<and>
      jget ''ranges'' d = JArr [range_json \<lparr>dr_offset = 0, dr_len = dev_size x\<rparr>]"
    if "since < current_era x" for since
  proof (intro exI conjI)
    show "snd (dump dv since (Some (hex16 (generation x))) ?w) = Inr (dump_reply dv ?x since)"
      using that ok(6) arcs by (simp add: dump_unfold parse_hex16 new_entry_def fresh_daemon_def not_le Let_def)
    show "jget ''ranges'' (dump_reply dv ?x since) =
        JArr [range_json \<lparr>dr_offset = 0, dr_len = dev_size x\<rparr>]"
      using all_dirty_ranges [OF assms(2,3) that] by (simp add: dump_reply_def Let_def)
  qed
  moreover have "reg_ok ?w" by (rule reg_ok_add) simp
  moreover have "jget ''recovered_unclean'' ?v = JBool True" by (simp add: add_reply_def Let_def)
  ultimately show thesis
    using that [of ?w ?v] ok(1,6) arcs by (simp add: prod_eq_iff)
qed

section \<open>Properties\<close>

text \<open>
  C19. The registry stays consistent: through any sequence of requests, completions and exits of
  supervisors from the start of the daemon, device ids are unique, no backing store is
  attached twice, every entry carries its own id and shares the map of its own supervisor, and
  every map is well-formed.
\<close>

theorem registry_invariant:
  assumes "daemon_path K bdev et (fresh_daemon fs) evs w"
  shows "distinct (map fst (devices w)) \<and> distinct (map (\<lambda>(_, m). m_backing m) (devices w)) \<and>
    (\<forall>(dv, m)\<in>set (devices w). m_dev_id m = dv \<and> m_supervisor m < length (threads w) \<and>
       th_arc (threads w ! m_supervisor m) = m_state m \<and>
       th_meta (threads w ! m_supervisor m) = m_meta m \<and> era_wf (arcs w ! m_state m))"
proof -
  have "reg_ok w" using path_reg_ok [OF assms] by simp
  then show ?thesis by (auto simp: reg_ok_def list_all_iff entry_wf_def maps_wf_def)
qed

theorem registry_invariant_witness:
  "distinct (map fst (devices (fst (add (\<lambda>_. ''b'') ex_env ex_spec (fresh_daemon Map.empty)))))"
proof -
  have "daemon_path linux_abi (\<lambda>_. ''b'') (\<lambda>_. ''e'') (fresh_daemon Map.empty) [EvAdd ex_env ex_spec]
      (fst (add (\<lambda>_. ''b'') ex_env ex_spec (fresh_daemon Map.empty)))"
    by (rule path_cons [OF step_add path_nil])
  from registry_invariant [OF this] show ?thesis by (rule conjunct1)
qed

text \<open>A checkpoint that saves its metadata leaves a file that guards every cursor up to the era it closed.\<close>

lemma checkpoint_guards:
  assumes "reg_ok w0" and "map_of (devices (reap w0)) dv = Some m" and "m_meta m = Some p"
    and "tmp_of p \<noteq> p" and "others_apart p (m_supervisor m) w0" and "s = arcs w0 ! m_state m"
    and "unat (current_era s) + 1 < 2 ^ 32" and w1_def: "w1 = fst (checkpoint_dev et None dv w0)"
  shows "guarded p (current_era s) (m_supervisor m) w1" and "tracked p (m_supervisor m) w1"
    and "arcs w1 ! m_supervisor m = fst (checkpoint s)" and "unat (current_era s + 1) = unat (current_era s) + 1"
proof -
  note reg = registered_wf [OF assms(1,2)]
  have w1: "w1 = fst (checkpoint_one et None m (reap w0))"
    using assms(2) by (simp add: w1_def checkpoint_dev_def lookup_def Let_def split: prod.split)
  show arc: "arcs w1 ! m_supervisor m = fst (checkpoint s)"
    using reg(3,8) assms(6) by (simp add: w1 checkpoint_one_arcs)
  have th: "threads w1 = threads w0" using reg(3,8) assms(6) by (simp add: w1 checkpoint_one_arcs)
  show e: "unat (current_era s + 1) = unat (current_era s) + 1"
    using assms(7) by (subst unat_add_no_overflow) simp_all
  have "files w1 p = Some (meta_bytes False (fst (checkpoint s)))"
    using assms(3,6) by (simp add: w1 checkpoint_one_arcs save_ok)
  then show "guarded p (current_era s) (m_supervisor m) w1"
    using e by (auto simp: guarded_def arc word_less_nat_alt)
  show "tracked p (m_supervisor m) w1"
    using assms(1,3-5) reg(2,4) reg_ok_checkpoint_dev [OF assms(1)] th
    by (simp add: tracked_def others_apart_def live_def w1_def)
qed

text \<open>
  C4. No change is lost when the daemon dies. Let a checkpoint of a device close era \<open>c\<close> with its
  metadata saved, and let the daemon live on through any requests, completions and exits that
  leave the device attached and do not reuse its metadata file, as long as the era counter does
  not wrap. If the daemon is killed then, a new one that attaches the same backing store
  reports an unclean recovery, and every cursor of that history up to \<open>c\<close> gets one range
  that covers the whole device.
\<close>

theorem killed_daemon_degrades_to_full:
  assumes "reg_ok w0" and "map_of (devices (reap w0)) dv = Some m" and "m_meta m = Some p"
    and "tmp_of p \<noteq> p" and "others_apart p (m_supervisor m) w0" and "s = arcs w0 ! m_state m"
    and "daemon_path K bdev et (fst (checkpoint_dev et None dv w0)) evs w" and "list_all (ev_apart p) evs"
    and "live (m_supervisor m) w" and "unat (current_era s) + 1 + length evs < 2 ^ 32"
    and "spec_meta spec = Some p" and "spec_granularity spec = granularity s"
    and "add_check env spec (fresh_daemon (files w)) = Inr (dev_size s)" and "good_env env dv'"
    and "since \<le> current_era s"
  shows "\<exists>w' v d. add bdev env spec (fresh_daemon (files w)) = (w', Inr v) \<and>
    jget ''recovered_unclean'' v = JBool True \<and>
    snd (dump dv' since (Some (hex16 (generation s))) w') = Inr d \<and>
    jget ''ranges'' d = JArr [range_json \<lparr>dr_offset = 0, dr_len = dev_size s\<rparr>]"
proof -
  let ?t = "m_supervisor m"
  note reg = registered_wf [OF assms(1,2)]
  have "unat (current_era s) + 1 < 2 ^ 32" using assms(10) by simp
  note cg = checkpoint_guards [where et = et, OF assms(1-6) this refl]
  have g: "guarded p (current_era s) ?t w" "same_shape (fst (checkpoint s)) (arcs w ! ?t)"
    using path_guarded [OF assms(7) _ assms(8,9)] assms(10) cg by auto
  then obtain x where x: "files w p = Some (meta_bytes False x)" "same_shape s x" "current_era s < current_era x"
    by (auto simp: guarded_def same_shape_def)
  have wf: "era_wf x" "0 < dev_size x" "dev_size x = dev_size s" "granularity x = granularity s"
      "generation x = generation s"
    using x(2) reg(5,6) assms(6) same_shape_wf by (auto simp: same_shape_def)
  have "spec_granularity spec = granularity x" "add_check env spec (fresh_daemon (files w)) = Inr (dev_size x)"
    using assms(12,13) wf(3,4) by simp_all
  from reattach_unclean [of "files w" p x spec env dv' bdev, OF x(1) wf(1,2) assms(11) this assms(14)]
  obtain w' v where ok: "add bdev env spec (fresh_daemon (files w)) = (w', Inr v)"
    "jget ''recovered_unclean'' v = JBool True"
    and d: "\<And>since. since < current_era x \<Longrightarrow>
      \<exists>d. snd (dump dv' since (Some (hex16 (generation x))) w') = Inr d \<and>
        jget ''ranges'' d = JArr [range_json \<lparr>dr_offset = 0, dr_len = dev_size x\<rparr>]"
    by blast
  have "since < current_era x" using assms(15) x(3) by (rule le_less_trans)
  from d [OF this] ok wf(3,5) show ?thesis by auto
qed

theorem killed_daemon_degrades_to_full_witness:
  "\<exists>w v d. add (\<lambda>_. ''b'') ex_env ex_spec
       (fresh_daemon (files (fst (checkpoint_dev (\<lambda>_. ''e'') None 0 ex_world)))) = (w, Inr v) \<and>
     snd (dump 3 1 (Some (hex16 7)) w) = Inr d \<and>
     jget ''ranges'' d = JArr [range_json \<lparr>dr_offset = 0, dr_len = 14336\<rparr>]"
proof -
  let ?m = "new_entry 0 ex_spec \<lparr>devices = [], arcs = [], threads = [], files = Map.empty\<rparr>"
  let ?p = "([], ''a.meta'') :: path" and ?w = "fst (checkpoint_dev (\<lambda>_. ''e'') None 0 ex_world)"
  have m: "map_of (devices (reap ex_world)) 0 = Some ?m" "m_meta ?m = Some ?p"
      "ex_era = arcs ex_world ! m_state ?m" "m_supervisor ?m = 0"
    by (simp_all add: ex_world_simps new_entry_def ex_spec_def)
  have th: "threads ?w = threads ex_world" by (simp add: checkpoint_threads)
  have "others_apart ?p (m_supervisor ?m) ex_world" "live (m_supervisor ?m) ?w"
    by (simp_all add: others_apart_def live_def th m(4)) (simp_all add: ex_world_def)
  moreover have "tmp_of ?p \<noteq> ?p" by (simp add: tmp_of_def with_extension_def file_stem_def)
  moreover have "add_check ex_env ex_spec (fresh_daemon (files ?w)) = Inr (dev_size ex_era)"
    by (simp add: add_check_def ex_env_def ex_spec_def default_dev_id_def backing_size_def
        fresh_daemon_def ex_era_simps)
  moreover have "spec_meta ex_spec = Some ?p" "spec_granularity ex_spec = granularity ex_era"
      "good_env ex_env 3"
    by (simp_all add: ex_spec_def good_env_def ex_env_def ex_era_simps)
  ultimately show ?thesis
    using killed_daemon_degrades_to_full [OF ex_world_ok m(1,2) _ _ m(3)
        path_nil, where spec = ex_spec and env = ex_env and dv' = 3 and since = 1 and
        et = "\<lambda>_. ''e''" and bdev = "\<lambda>_. ''b''"]
    by (auto simp: ex_era_def)
qed

section \<open>Limits\<close>

lemma ranges_since_none:
  assumes "\<forall>e\<in>set (eras s). e \<le> since"
  shows "ranges_since s since = []"
proof -
  have "fold (range_step s since) xs rs = rs" if "\<forall>(i, e)\<in>set xs. e \<le> since" for xs rs
    using that by (induction xs) (auto simp: range_step_def)
  moreover have "\<forall>(i, e)\<in>set (List.enumerate 0 (eras s)). e \<le> since"
    using assms by (auto simp: enumerate_as_upt)
  ultimately show ?thesis by (simp add: ranges_since_def)
qed

fun is_io :: "event \<Rightarrow> bool" where
  "is_io (EvIo t tag d cqe) = True"
| "is_io _ = False"

lemma io_path_files: "daemon_path K bdev et w evs w' \<Longrightarrow> list_all is_io evs \<Longrightarrow> files w' = files w"
proof (induction rule: daemon_path.induct)
  case (path_cons w ev w1 evs w2)
  then have "files w1 = files w" by (cases ev) (auto elim: daemon_step.cases)
  with path_cons show ?case by simp
qed simp

lemma checkpoint_dev_eq:
  "map_of (devices (reap w)) dv = Some m \<Longrightarrow> checkpoint_dev et fault dv w =
     (fst (checkpoint_one et fault m (reap w)), Inr (snd (checkpoint_one et fault m (reap w))))"
  by (simp add: checkpoint_dev_def lookup_def Let_def split_beta)

lemma checkpoint_one_reply:
  "jget ''ok'' (snd (checkpoint_one et fault m w)) = JBool True"
  "jget ''closed_era'' (snd (checkpoint_one et fault m w)) = u32_json (current_era (arcs w ! m_state m))"
  by (auto simp: checkpoint_one_def checkpoint_def Let_def jget_jset_other
      split: option.splits prod.splits sum.splits)

text \<open>
  An unclean file whose chunks are not newer than its era: once it is attached again and a checkpoint has
  closed that era, a cursor at the era is accepted and gets no ranges.
\<close>

lemma reattached_era_reported_empty:
  assumes "fs p = Some (meta_bytes False x)" and "era_wf x" and "0 < dev_size x"
    and "spec_meta spec = Some p" and "spec_granularity spec = granularity x"
    and "add_check env spec (fresh_daemon fs) = Inr (dev_size x)" and "good_env env dv'"
    and "\<forall>e\<in>set (eras x). e \<le> current_era x" and "current_era x < current_era x + 1"
  shows "\<exists>w2 v2 d. add bdev env spec (fresh_daemon fs) = (w2, Inr v2) \<and>
    snd (dump dv' (current_era x) (Some (hex16 (generation x))) (fst (checkpoint_dev et None dv' w2))) = Inr d \<and>
    jget ''ranges'' d = JArr []"
proof -
  from reattach_unclean [of fs p x spec env dv' bdev, OF assms(1-7)]
  obtain w2 v2 where w2: "add bdev env spec (fresh_daemon fs) = (w2, Inr v2)"
    "map_of (devices (reap w2)) dv' = Some (new_entry dv' spec (fresh_daemon fs))"
    "arcs w2 = [mark_all_dirty x]"
    by blast
  let ?y = "fst (checkpoint (mark_all_dirty x))" and ?w3 = "fst (checkpoint_dev et None dv' w2)"
  have w3: "arcs ?w3 = [?y]" "devices (reap ?w3) = devices (reap w2)"
    using w2(2,3) by (simp_all add: checkpoint_dev_eq checkpoint_one_arcs new_entry_def fresh_daemon_def)
      (simp add: reap_def checkpoint_one_arcs)
  have "e \<le> current_era x" if "e \<in> set (eras ?y)" for e
    using that assms(8) [unfolded all_set_conv_all_nth] by (auto simp: in_set_conv_nth nth_mark_all_dirty)
  then have none: "ranges_since ?y (current_era x) = []" by (simp add: ranges_since_none)
  have "snd (dump dv' (current_era x) (Some (hex16 (generation x))) ?w3) = Inr (dump_reply dv' ?y (current_era x))"
    using w2(2) w3 assms(9)
    by (simp add: dump_unfold parse_hex16 Let_def new_entry_def fresh_daemon_def not_le)
  moreover have "jget ''ranges'' (dump_reply dv' ?y (current_era x)) = JArr []"
    by (simp add: dump_reply_def none)
  ultimately show ?thesis using w2(1) by blast
qed

text \<open>
  C22. Where a checkpoint cannot save its metadata, its era is used twice. The checkpoint still
  answers \<open>ok\<close> with the closed era \<open>c\<close>; if the daemon is killed after any further writes,
  the next one starts again in era \<open>c\<close>, and once a new checkpoint has closed it, a \<open>dump\<close>
  with the cursor \<open>c\<close> that the consumer holds is accepted, generation included, and returns
  no range at all, whatever was written in between.
\<close>

theorem unsaved_checkpoint_reuses_era:
  assumes "reg_ok w0" and "map_of (devices (reap w0)) dv = Some m" and "m_meta m = Some p"
    and "tmp_of p \<noteq> p" and "s = arcs w0 ! m_state m" and "current_era s + 1 > current_era s"
    and "files w0 p = Some (meta_bytes False x)" and "same_shape s x" and "current_era x = current_era s"
    and "\<forall>e\<in>set (eras x). e \<le> current_era x"
    and "checkpoint_dev et (Some fault) dv w0 = (w1, r)"
    and "daemon_path K bdev et w1 evs w" and "list_all is_io evs"
    and "spec_meta spec = Some p" and "spec_granularity spec = granularity s"
    and "add_check env spec (fresh_daemon (files w)) = Inr (dev_size s)" and "good_env env dv'"
  shows "(\<exists>v. r = Inr v \<and> is_ok v \<and> jget ''closed_era'' v = u32_json (current_era s)) \<and>
    (\<exists>w2 v2 d. add bdev env spec (fresh_daemon (files w)) = (w2, Inr v2) \<and>
       snd (dump dv' (current_era s) (Some (hex16 (generation s)))
         (fst (checkpoint_dev et None dv' w2))) = Inr d \<and> jget ''ranges'' d = JArr [])"
proof
  have r: "r = Inr (snd (checkpoint_one et (Some fault) m (reap w0)))"
    and w1: "w1 = fst (checkpoint_one et (Some fault) m (reap w0))"
    using assms(11) by (simp_all add: checkpoint_dev_eq [OF assms(2)])
  then show "\<exists>v. r = Inr v \<and> is_ok v \<and> jget ''closed_era'' v = u32_json (current_era s)"
    by (simp add: checkpoint_one_reply is_ok_def assms(5))
  have "snd (save (Some fault) p False t fs) = Inl fault" for t fs
    by (cases fault) (simp_all add: save_def Let_def)
  then have "files w1 p = files w0 p"
    using save_failed_keeps [OF _ assms(4)] assms(3) by (simp add: w1 checkpoint_one_arcs)
  then have x: "files w p = Some (meta_bytes False x)"
    using io_path_files [OF assms(12,13)] assms(7) by simp
  have wf: "era_wf x" "0 < dev_size x" "dev_size x = dev_size s" "granularity x = granularity s"
      "generation x = generation s"
    using assms(5,8) registered_wf(5,6) [OF assms(1,2)] same_shape_wf by (auto simp: same_shape_def)
  have "\<exists>w2 v2 d. add bdev env spec (fresh_daemon (files w)) = (w2, Inr v2) \<and>
      snd (dump dv' (current_era x) (Some (hex16 (generation x))) (fst (checkpoint_dev et None dv' w2))) = Inr d \<and>
      jget ''ranges'' d = JArr []"
    by (rule reattached_era_reported_empty [where fs = "files w", OF x wf(1,2) assms(14)]) (use assms(6,9,10,15-17) wf(3,4) in simp_all)
  then show "\<exists>w2 v2 d. add bdev env spec (fresh_daemon (files w)) = (w2, Inr v2) \<and>
       snd (dump dv' (current_era s) (Some (hex16 (generation s)))
         (fst (checkpoint_dev et None dv' w2))) = Inr d \<and> jget ''ranges'' d = JArr []"
    using assms(9) wf(5) by simp
qed

theorem unsaved_checkpoint_reuses_era_witness:
  "\<exists>w2 v2 d. add (\<lambda>_. ''b'') ex_env ex_spec
       (fresh_daemon (files (fst (checkpoint_dev (\<lambda>_. ''e'') (Some CreateFails) 0 ex_world)))) = (w2, Inr v2) \<and>
     snd (dump 3 1 (Some (hex16 7)) (fst (checkpoint_dev (\<lambda>_. ''e'') None 3 w2))) = Inr d \<and>
     jget ''ranges'' d = JArr []"
proof -
  let ?m = "new_entry 0 ex_spec \<lparr>devices = [], arcs = [], threads = [], files = Map.empty\<rparr>"
  let ?p = "([], ''a.meta'') :: path"
  obtain w r where w: "checkpoint_dev (\<lambda>_. ''e'') (Some CreateFails) 0 ex_world = (w, r)" by fastforce
  have m: "map_of (devices (reap ex_world)) 0 = Some ?m" "m_meta ?m = Some ?p"
      "ex_era = arcs ex_world ! m_state ?m"
    by (simp_all add: ex_world_simps new_entry_def ex_spec_def)
  have "tmp_of ?p \<noteq> ?p" by (simp add: tmp_of_def with_extension_def file_stem_def)
  moreover have "add_check ex_env ex_spec (fresh_daemon (files w)) = Inr (dev_size ex_era)"
    by (simp add: add_check_def ex_env_def ex_spec_def default_dev_id_def backing_size_def
        fresh_daemon_def ex_era_simps)
  moreover have "spec_meta ex_spec = Some ?p" "spec_granularity ex_spec = granularity ex_era"
      "good_env ex_env 3" "files ex_world ?p = Some (meta_bytes False ex_era)"
    by (simp_all add: ex_spec_def good_env_def ex_env_def ex_era_simps ex_world_def)
  ultimately show ?thesis
    using unsaved_checkpoint_reuses_era [OF ex_world_ok m(1,2) _ m(3) _ _ same_shape_refl refl _ w
        path_nil, where spec = ex_spec and env = ex_env and dv' = 3 and bdev = "\<lambda>_. ''b''"] w
    by (auto simp: ex_era_def)
qed

text \<open>
  C23. \<open>add\<close> rejects a backing store that is attached already, but not a metadata file that is
  in use. A second device with the same size and granularity on the file of a live one
  continues that history, and its clean detach marks the file clean while the first device
  is still attached and written to: a daemon killed after that leaves a file that the next
  attach trusts, under the generation of the first device's cursors.
\<close>

theorem shared_meta_file_marked_clean:
  assumes "reg_ok w" and "map_of (devices (reap w)) dv = Some m" and "m_meta m = Some p"
    and "s = arcs w ! m_state m" and "files w p = Some (meta_bytes False x)" and "same_shape s x"
    and "spec_meta spec = Some p" and "spec_granularity spec = granularity s"
    and "add_check env spec (reap w) = Inr (dev_size s)" and "good_env env dv'"
  shows "\<exists>w1 v w2 r y. add bdev env spec w = (w1, Inr v) \<and> del True (Saves None) dv' w1 = (w2, r) \<and>
    live (m_supervisor m) w2 \<and> arcs w2 ! m_state m = s \<and>
    files w2 p = Some (meta_bytes True y) \<and> generation y = generation s"
proof -
  note reg = registered_wf [OF assms(1,2)]
  let ?n = "length (threads w)" and ?y = "mark_all_dirty x"
  have wf: "era_wf x" "dev_size x = dev_size s" "granularity x = granularity s" "generation x = generation s"
    using assms(4,6) reg(5) same_shape_wf by (auto simp: same_shape_def)
  obtain rnd where rnd: "urandom env = Some rnd" using assms(10) by (auto simp: good_env_def)
  have at: "attach_state (urandom env) spec (dev_size s) (files w) = Inr (?y, True)"
    using attach_state_file [of spec p "files w" False x rnd] assms(5,7,8) wf rnd by simp
  have len: "length (arcs w) = length (threads w)" using assms(1) by (simp add: reg_ok_def maps_wf_def)
  note ok = add_success [OF assms(9,10) at len, where bdev = bdev]
  let ?w1 = "fst (add bdev env spec w)" and ?e = "new_entry dv' spec w"
  let ?w0 = "(reap ?w1)\<lparr>devices := AList.delete dv' (devices (reap ?w1))\<rparr>"
  have ok1: "reg_ok ?w1" by (rule reg_ok_add [OF assms(1)])
  note reg1 = registered_wf [OF ok1 ok(6)]
  have e: "m_supervisor ?e = ?n" "m_state ?e = ?n" "m_meta ?e = Some p" "m_supervisor m < ?n"
    using reg(2) len assms(7) by (simp_all add: new_entry_def)
  have d: "fst (del True (Saves None) dv' ?w1) = final_save None ?n ?w0"
    using ok(6) e(1) by (simp add: del_def lookup_def supervise_exit_def Let_def)
  have "files (final_save None ?n ?w0) p = Some (meta_bytes True ?y)"
    using reg1(4,7) e ok(3) len by (subst final_save_ok) (simp_all add: nth_append)
  moreover have "live (m_supervisor m) w"
    using registered_live [OF assms(1) map_of_SomeD [OF assms(2)]] by simp
  then have "live (m_supervisor m) (final_save None ?n ?w0)"
    using e(4) by (simp add: live_final_save add_live)
  moreover have "arcs (final_save None ?n ?w0) ! m_state m = s"
    using ok(3) reg(8) assms(4) by (simp add: final_save_def Let_def nth_append)
  ultimately show ?thesis
    using ok(1) d wf(4) by (metis mark_all_dirty_simps(4) prod.collapse)
qed

theorem shared_meta_file_marked_clean_witness:
  "\<exists>w1 v w2 r y. add (\<lambda>_. ''b'') ex_env (ex_spec\<lparr>spec_backing := ''b.img''\<rparr>) ex_world = (w1, Inr v) \<and>
     del True (Saves None) 3 w1 = (w2, r) \<and> live 0 w2 \<and>
     files w2 ([], ''a.meta'') = Some (meta_bytes True y) \<and> generation y = 7"
proof -
  let ?m = "new_entry 0 ex_spec \<lparr>devices = [], arcs = [], threads = [], files = Map.empty\<rparr>"
  let ?p = "([], ''a.meta'') :: path" and ?spec = "ex_spec\<lparr>spec_backing := ''b.img''\<rparr>"
  have m: "map_of (devices (reap ex_world)) 0 = Some ?m" "m_meta ?m = Some ?p"
      "ex_era = arcs ex_world ! m_state ?m" "m_supervisor ?m = 0"
    by (simp_all add: ex_world_simps new_entry_def ex_spec_def)
  have "add_check ex_env ?spec (reap ex_world) = Inr (dev_size ex_era)"
    by (simp add: add_check_def ex_env_def ex_spec_def default_dev_id_def backing_size_def
        ex_world_simps new_entry_def ex_era_simps)
  moreover have "spec_meta ?spec = Some ?p" "spec_granularity ?spec = granularity ex_era"
      "good_env ex_env 3" "files ex_world ?p = Some (meta_bytes False ex_era)"
    by (simp_all add: ex_spec_def good_env_def ex_env_def ex_era_simps ex_world_def)
  ultimately show ?thesis
    using shared_meta_file_marked_clean [OF ex_world_ok m(1-3) _ same_shape_refl,
        where spec = ?spec and env = ex_env and dv' = 3 and bdev = "\<lambda>_. ''b''"] m(4)
    by (auto simp: ex_era_def)
qed

end
