(* ===== verification/Ctl.thy ===== *)
theory Ctl
  imports Daemon
begin

text \<open>
  The control interface (\<^verbatim>\<open>src/src/ctl.rs\<close>): the requests, one connection handled by
  \<open>handle\<close>, the accept loop \<open>serve\<close> with the detach of all devices at its end, and the
  socket that \<open>bind\<close> claims. serde_json is outside: what \<open>from_str\<close> made of the line is
  an argument, \<open>None\<close> where it failed, and so are the texts that anyhow makes of errors.
\<close>

section \<open>The code\<close>

datatype request =
    ReqAdd device_spec
  | ReqDel target
  | ReqList
  | ReqStatus target
  | ReqCheckpoint target
  | ReqCheckpointAll
  | ReqDump target u32 "string option"
  | ReqShutdown

text \<open>
  What the rest of the system answers during one request: the arguments of the operations of
  \<^verbatim>\<open>Manager\<close>.
\<close>

record answers =
  ans_add :: attach_env
  ans_del_ok :: "u32 \<Rightarrow> bool"
  ans_exit :: "u32 \<Rightarrow> sup_exit"
  ans_fault :: "u32 \<Rightarrow> save_fault option"
  ans_canon :: "string \<Rightarrow> string option"

record texts =
  tx_bdev :: "u32 \<Rightarrow> string"
  tx_path :: "path \<Rightarrow> string"
  tx_save :: "save_fault \<Rightarrow> string"
  tx_error :: "mgr_error \<Rightarrow> string"
  tx_bad_request :: string

definition with_target :: "answers \<Rightarrow> target \<Rightarrow> (u32 \<Rightarrow> world \<Rightarrow> world \<times> (mgr_error + json)) \<Rightarrow>
    world \<Rightarrow> world \<times> (mgr_error + json)" where
  "with_target a tg f w = (case resolve (ans_canon a) tg w of
      (w', Inl e) \<Rightarrow> (w', Inl e)
    | (w', Inr dv) \<Rightarrow> f dv w')"

definition dispatch :: "texts \<Rightarrow> answers \<Rightarrow> request \<Rightarrow> world \<Rightarrow> world \<times> (mgr_error + json)" where
  "dispatch tx a req w = (case req of
      ReqAdd spec \<Rightarrow> add (tx_bdev tx) (ans_add a) spec w
    | ReqDel tg \<Rightarrow> with_target a tg (\<lambda>dv. del (ans_del_ok a dv) (ans_exit a dv) dv) w
    | ReqList \<Rightarrow> (case list_devices (tx_bdev tx) (tx_path tx) w of (w', v) \<Rightarrow> (w', Inr v))
    | ReqStatus tg \<Rightarrow> with_target a tg (status (tx_bdev tx) (tx_path tx)) w
    | ReqCheckpoint tg \<Rightarrow>
        with_target a tg (\<lambda>dv. checkpoint_dev (tx_save tx) (ans_fault a dv) dv) w
    | ReqCheckpointAll \<Rightarrow>
        (case checkpoint_all (tx_save tx) (ans_fault a) w of (w', v) \<Rightarrow> (w', Inr v))
    | ReqDump tg since gen \<Rightarrow> with_target a tg (\<lambda>dv. dump dv since gen) w
    | ReqShutdown \<Rightarrow> (w, Inr (JObj [(''ok'', JBool True), (''shutdown'', JBool True)])))"

text \<open>
  \<open>handle\<close>: \<open>io_ok\<close> says whether reading the line and writing the two parts of the reply
  succeeded. The result is the reply that was built and \<open>Ok(shutdown)\<close>, or \<open>None\<close>
  for \<open>Err\<close>; a request whose line could not be read does nothing.
\<close>

record connection =
  read_ok :: bool
  parsed :: "request option"
  write_ok :: bool
  conn_answers :: answers

definition handle :: "texts \<Rightarrow> connection \<Rightarrow> world \<Rightarrow> world \<times> json option \<times> bool option" where
  "handle tx c w =
     (if \<not> read_ok c then (w, None, None)
      else let (w', resp, shutdown) = (case parsed c of
             None \<Rightarrow> (w, err_reply (tx_bad_request tx), False)
           | Some req \<Rightarrow> (case dispatch tx (conn_answers c) req w of
                 (w', Inr v) \<Rightarrow> (w', v, req = ReqShutdown)
               | (w', Inl e) \<Rightarrow> (w', err_reply (tx_error tx e), req = ReqShutdown)))
           in (w', Some resp, if write_ok c then Some shutdown else None))"

text \<open>
  \<open>serve\<close>: connections (\<open>None\<close>: an accept that failed) until a shutdown, then every device
  is detached and the socket removed. The result is the world at the end, whether the loop
  ended by a shutdown, and the connections left.
\<close>

fun serve_loop :: "texts \<Rightarrow> connection option list \<Rightarrow> world \<Rightarrow> world \<times> bool \<times> connection option list" where
  "serve_loop tx [] w = (w, False, [])"
| "serve_loop tx (None # cs) w = serve_loop tx cs w"
| "serve_loop tx (Some c # cs) w = (case handle tx c w of
      (w', _, Some True) \<Rightarrow> (w', True, cs)
    | (w', _, _) \<Rightarrow> serve_loop tx cs w')"

definition serve :: "texts \<Rightarrow> answers \<Rightarrow> connection option list \<Rightarrow> world \<Rightarrow> world \<times> bool" where
  "serve tx final cs w = (case serve_loop tx cs w of
      (w', True, _) \<Rightarrow> (shutdown_all (ans_del_ok final) (ans_exit final) w', True)
    | (w', False, _) \<Rightarrow> (w', False))"

text \<open>
  \<open>bind\<close>: the directory, whether a daemon answers on the socket, and whether the bind
  succeeds after the stale file was removed.
\<close>

datatype bind_error = CreateDir | AlreadyListening | BindFailed

definition bind :: "bool \<Rightarrow> bool \<Rightarrow> bool \<Rightarrow> bool \<Rightarrow> bind_error + unit" where
  "bind has_parent mkdir_ok connects bind_ok =
     (if has_parent \<and> \<not> mkdir_ok then Inl CreateDir
      else if connects then Inl AlreadyListening
      else if bind_ok then Inr () else Inl BindFailed)"

text \<open>
  \<open>client_request\<close>: one line out, one line back. The arguments say whether the connection and
  the two writes succeeded and what the reply line was: \<open>None\<close> if it could not be read, \<open>Inl\<close>
  with the parser's message if it is not JSON.
\<close>

datatype client_error = NotConnected | NotSent | NoReply | NotJson string

definition client_request :: "bool \<Rightarrow> bool \<Rightarrow> (string + json) option \<Rightarrow> client_error + json" where
  "client_request connected sent reply =
     (if \<not> connected then Inl NotConnected
      else if \<not> sent then Inl NotSent
      else case reply of
          None \<Rightarrow> Inl NoReply
        | Some (Inl e) \<Rightarrow> Inl (NotJson e)
        | Some (Inr v) \<Rightarrow> Inr v)"

section \<open>Requests as steps of the daemon\<close>

lemma path_append:
  "daemon_path K bdev et w evs w1 \<Longrightarrow> daemon_path K bdev et w1 evs' w2 \<Longrightarrow>
     daemon_path K bdev et w (evs @ evs') w2"
  by (induction rule: daemon_path.induct) (auto intro: path_cons)

lemma path_one: "daemon_step K bdev et w ev w' \<Longrightarrow> \<exists>evs. daemon_path K bdev et w evs w'"
  by (blast intro: path_cons path_nil)

lemma path_empty: "\<exists>evs. daemon_path K bdev et w evs w"
  by (blast intro: path_nil)

lemma resolve_path: "\<exists>evs. daemon_path K bdev et w evs (fst (resolve canon tg w))"
proof -
  have "fst (resolve canon tg w) = w \<or> fst (resolve canon tg w) = reap w"
    by (auto simp: resolve_def Let_def split: option.splits)
  then show ?thesis using path_one [OF step_reap] path_nil by metis
qed

lemma with_target_path:
  assumes "\<And>dv w. \<exists>evs. daemon_path K bdev et w evs (fst (f dv w))"
  shows "\<exists>evs. daemon_path K bdev et w evs (fst (with_target a tg f w))"
proof -
  obtain w1 res where r: "resolve (ans_canon a) tg w = (w1, res)" by fastforce
  obtain evs where evs: "daemon_path K bdev et w evs w1"
    using resolve_path [of K bdev et w "ans_canon a" tg] r by auto
  show ?thesis
  proof (cases res)
    case (Inl e)
    with r evs show ?thesis by (auto simp: with_target_def)
  next
    case (Inr dv)
    from assms obtain evs' where "daemon_path K bdev et w1 evs' (fst (f dv w1))" by blast
    with evs r Inr show ?thesis by (auto simp: with_target_def intro: path_append)
  qed
qed

lemma reap_only:
  "fst (status bdev disp dv w) = reap w" "fst (dump dv since gen w) = reap w"
  "fst (list_devices bdev disp w) = reap w"
  by (simp_all add: status_def dump_def list_devices_def Let_def)

lemma dispatch_path: "\<exists>evs. daemon_path K (tx_bdev tx) (tx_save tx) w evs (fst (dispatch tx a req w))"
proof (cases req)
  case (ReqAdd spec)
  then show ?thesis using path_one [OF step_add] by (simp add: dispatch_def)
next
  case (ReqDel tg)
  then show ?thesis
    using with_target_path [of K _ _ "\<lambda>dv. del (ans_del_ok a dv) (ans_exit a dv) dv", OF path_one [OF step_del]]
    by (simp add: dispatch_def)
next
  case ReqList
  then show ?thesis using path_one [OF step_reap] by (simp add: dispatch_def reap_only split_beta)
next
  case (ReqStatus tg)
  have "\<exists>evs. daemon_path K (tx_bdev tx) (tx_save tx) w evs (fst (status (tx_bdev tx) (tx_path tx) dv w))" for dv w
    using path_one [OF step_reap] by (simp add: reap_only)
  from with_target_path [OF this] ReqStatus show ?thesis by (simp add: dispatch_def)
next
  case (ReqCheckpoint tg)
  then show ?thesis
    using with_target_path [of K _ _ "\<lambda>dv. checkpoint_dev (tx_save tx) (ans_fault a dv) dv",
        OF path_one [OF step_checkpoint]]
    by (simp add: dispatch_def)
next
  case ReqCheckpointAll
  then show ?thesis
    using path_one [OF step_checkpoint_all] by (simp add: dispatch_def split_beta)
next
  case (ReqDump tg since gen)
  have "\<exists>evs. daemon_path K (tx_bdev tx) (tx_save tx) w evs (fst (dump dv since gen w))" for dv w
    using path_one [OF step_reap] by (simp add: reap_only)
  from with_target_path [OF this] ReqDump show ?thesis by (simp add: dispatch_def)
next
  case ReqShutdown
  then show ?thesis by (simp add: dispatch_def path_empty)
qed

lemma handle_path: "\<exists>evs. daemon_path K (tx_bdev tx) (tx_save tx) w evs (fst (handle tx c w))"
proof (cases "read_ok c \<and> parsed c \<noteq> None")
  case True
  then obtain req where req: "parsed c = Some req" by auto
  obtain w1 r where d: "dispatch tx (conn_answers c) req w = (w1, r)" by fastforce
  then have "fst (handle tx c w) = w1"
    using True req by (cases r) (simp_all add: handle_def)
  with dispatch_path [of K tx w "conn_answers c" req] d show ?thesis by simp
next
  case False
  then have "fst (handle tx c w) = w" by (auto simp: handle_def)
  then show ?thesis using path_nil by metis
qed

lemma serve_loop_path: "\<exists>evs. daemon_path K (tx_bdev tx) (tx_save tx) w evs (fst (serve_loop tx cs w))"
proof (induction tx cs w rule: serve_loop.induct)
  case (1 tx w)
  then show ?case by (simp add: path_empty)
next
  case (2 tx cs w)
  then show ?case by simp
next
  case (3 tx c cs w)
  obtain w1 resp sd where h: "handle tx c w = (w1, resp, sd)" using prod_cases3 by blast
  obtain evs where evs: "daemon_path K (tx_bdev tx) (tx_save tx) w evs w1"
    using handle_path [of K tx w c] h by auto
  show ?case
  proof (cases "sd = Some True")
    case True
    then show ?thesis using evs h by auto
  next
    case False
    then have "\<exists>evs. daemon_path K (tx_bdev tx) (tx_save tx) w1 evs (fst (serve_loop tx cs w1))"
      using 3 h by (cases sd) auto
    moreover have "serve_loop tx (Some c # cs) w = serve_loop tx cs w1"
      using False h by (cases sd) auto
    ultimately show ?thesis using evs path_append by metis
  qed
qed

section \<open>Detaching everything\<close>

lemma del_all_devices:
  assumes "set (devices w) \<subseteq> D"
  shows "set (devices (fst (del del_ok ex dv w))) \<subseteq> D \<and>
    dv \<notin> fst ` set (devices (fst (del del_ok ex dv w)))"
proof -
  have sub: "set (devices (reap w)) \<subseteq> D" using assms by (auto simp: reap_def)
  show ?thesis
  proof (cases "map_of (devices (reap w)) dv")
    case None
    then have "fst (del del_ok ex dv w) = reap w" by (simp add: del_def lookup_def Let_def)
    then show ?thesis using sub None by (simp add: map_of_eq_None_iff)
  next
    case (Some m)
    then have "devices (fst (del del_ok ex dv w)) = AList.delete dv (devices (reap w))"
      by (auto simp: del_def lookup_def Let_def split: sup_exit.split)
    then show ?thesis using sub by (auto simp: delete_as_filter)
  qed
qed

lemma del_each_devices:
  "fst ` set (devices w) \<subseteq> set dvs \<Longrightarrow> devices (del_each del_ok exits dvs w) = []"
proof (induction dvs arbitrary: w)
  case (Cons dv dvs)
  let ?w = "fst (del (del_ok dv) (exits dv) dv w)"
  have "fst ` set (devices ?w) \<subseteq> set dvs"
    using del_all_devices [of w "set (devices w)" "del_ok dv" "exits dv" dv] Cons.prems by fastforce
  from Cons.IH [OF this] show ?case by simp
qed simp

text \<open>
  One \<open>del\<close> of a list: before a device's own turn its file and map are kept, its turn writes
  the clean save, and after it the file is kept.
\<close>

definition waiting :: "path \<Rightarrow> managed \<Rightarrow> era_state \<Rightarrow> world \<Rightarrow> bool" where
  "waiting p m s w \<longleftrightarrow> reg_ok w \<and> others_apart p (m_supervisor m) w \<and>
     map_of (devices (reap w)) (m_dev_id m) = Some m \<and> m_meta m = Some p \<and> arcs w ! m_state m = s"

lemma del_saving:
  assumes "map_of (devices (reap w)) dv = Some m"
  shows "fst (del True (Saves None) dv w) = final_save None (m_supervisor m)
    ((reap w)\<lparr>devices := AList.delete dv (devices (reap w))\<rparr>)"
  using assms by (simp add: del_def lookup_def supervise_exit_def Let_def)

lemma del_missing: "map_of (devices (reap w)) dv = None \<Longrightarrow> fst (del ok ex dv w) = reap w"
  by (simp add: del_def lookup_def Let_def)

lemma map_of_filter_keep:
  "map_of ds k = Some v \<Longrightarrow> distinct (map fst ds) \<Longrightarrow> P (k, v) \<Longrightarrow> map_of (filter P ds) k = Some v"
  by (induction ds) (auto simp: map_of_eq_None_iff image_iff split: if_splits)

lemma final_save_threads: "th_meta (threads (final_save fault t w) ! i) = th_meta (threads w ! i)"
  by (simp add: final_save_def Let_def)

lemma del_others:
  assumes "waiting p m s w" and "dv \<noteq> m_dev_id m"
  shows "waiting p m s (fst (del True (Saves None) dv w))"
proof (cases "map_of (devices (reap w)) dv")
  case None
  then show ?thesis
    using assms(1) by (simp add: del_missing waiting_def reg_ok_reap others_apart_def)
next
  case (Some m')
  let ?w = "(reap w)\<lparr>devices := AList.delete dv (devices (reap w))\<rparr>" and ?t = "m_supervisor m'"
  let ?w' = "final_save None ?t ?w"
  have reg: "reg_ok w" and m: "map_of (devices (reap w)) (m_dev_id m) = Some m"
    using assms(1) by (simp_all add: waiting_def)
  have "?t \<noteq> m_supervisor m"
  proof
    assume eq: "?t = m_supervisor m"
    have "distinct (map (\<lambda>(_, m). m_supervisor m) (devices (reap w)))"
      using reg_ok_reap [OF reg] by (simp add: reg_ok_def)
    with map_of_SomeD [OF Some] map_of_SomeD [OF m] eq have "(dv, m') = (m_dev_id m, m)"
      by (auto simp: distinct_map inj_on_def)
    with assms(2) show False by simp
  qed
  then have "live (m_supervisor m) ?w'"
    using registered_live [OF reg map_of_SomeD [OF m]] by (simp add: live_final_save)
  moreover have "map_of (devices ?w) (m_dev_id m) = Some m"
    using m assms(2) by simp
  moreover have "distinct (map fst (devices ?w))"
    using reg_ok_reap [OF reg] by (simp add: reg_ok_def distinct_delete)
  ultimately have "map_of (devices (reap ?w')) (m_dev_id m) = Some m"
    unfolding reap_def by (simp add: final_save_def Let_def live_def map_of_filter_keep)
  moreover have "reg_ok ?w'"
    using reg by (simp add: reg_ok_final_save delete_as_filter reg_ok_filter reg_ok_reap)
  moreover have "others_apart p (m_supervisor m) w" using assms(1) by (simp add: waiting_def)
  then have "others_apart p (m_supervisor m) ?w'"
    by (rule others_apart_mono) (auto simp: live_final_save final_save_threads)
  ultimately show ?thesis
    using assms(1) by (simp add: del_saving [OF Some] waiting_def) (simp add: final_save_def Let_def)
qed


definition saved :: "path \<Rightarrow> nat \<Rightarrow> u8 list \<Rightarrow> world \<Rightarrow> bool" where
  "saved p t bs w \<longleftrightarrow> reg_ok w \<and> \<not> live t w \<and> others_apart p t w \<and> files w p = Some bs"

lemma del_after:
  assumes "saved p t bs w"
  shows "saved p t bs (fst (del True (Saves None) dv w))"
proof (cases "map_of (devices (reap w)) dv")
  case None
  then show ?thesis
    using assms by (simp add: del_missing saved_def reg_ok_reap others_apart_def)
next
  case (Some m)
  let ?w = "(reap w)\<lparr>devices := AList.delete dv (devices (reap w))\<rparr>" and ?t = "m_supervisor m"
  let ?w' = "final_save None ?t ?w"
  have reg: "reg_ok w" and oth: "others_apart p t w" using assms by (simp_all add: saved_def)
  have l: "live ?t w" using registered_live [OF reg map_of_SomeD [OF Some]] by simp
  then have "meta_apart p (th_meta (threads w ! ?t))"
    using assms by (auto simp: saved_def others_apart_def)
  then have "files ?w' p = files w p"
    using exit_frame(2) [of p ?w ?t "Saves None"] by (simp add: supervise_exit_def)
  moreover have "\<not> live t ?w'" using assms by (simp add: saved_def live_final_save)
  moreover have "others_apart p t ?w'"
    using oth by (rule others_apart_mono) (auto simp: live_final_save final_save_threads)
  moreover have "reg_ok ?w'"
    using reg by (simp add: reg_ok_final_save delete_as_filter reg_ok_filter reg_ok_reap)
  ultimately show ?thesis using assms by (simp add: del_saving [OF Some] saved_def)
qed

lemma del_own:
  assumes "waiting p m s w"
  shows "saved p (m_supervisor m) (meta_bytes True s) (fst (del True (Saves None) (m_dev_id m) w))"
proof -
  have reg: "reg_ok w" and m: "map_of (devices (reap w)) (m_dev_id m) = Some m"
    using assms by (simp_all add: waiting_def)
  let ?w = "(reap w)\<lparr>devices := AList.delete (m_dev_id m) (devices (reap w))\<rparr>"
  let ?w' = "final_save None (m_supervisor m) ?w"
  note r = registered_wf [OF reg m]
  have "files ?w' p = Some (meta_bytes True s)"
    using r(4,7) assms by (subst final_save_ok) (simp_all add: waiting_def)
  moreover have "others_apart p (m_supervisor m) w" using assms by (simp add: waiting_def)
  then have "others_apart p (m_supervisor m) ?w'"
    by (rule others_apart_mono) (auto simp: live_final_save final_save_threads)
  moreover have "reg_ok ?w'"
    using reg by (simp add: reg_ok_final_save delete_as_filter reg_ok_filter reg_ok_reap)
  ultimately show ?thesis by (simp add: del_saving [OF m] saved_def live_final_save)
qed

lemma del_each_saved: "saved p t bs w \<Longrightarrow> saved p t bs (del_each (\<lambda>_. True) (\<lambda>_. Saves None) dvs w)"
  by (induction dvs arbitrary: w) (simp_all add: del_after)

lemma del_each_saves:
  "waiting p m s w \<Longrightarrow> m_dev_id m \<in> set dvs \<Longrightarrow>
     saved p (m_supervisor m) (meta_bytes True s) (del_each (\<lambda>_. True) (\<lambda>_. Saves None) dvs w)"
proof (induction dvs arbitrary: w)
  case (Cons dv dvs)
  show ?case
  proof (cases "dv = m_dev_id m")
    case True
    then show ?thesis using del_own [OF Cons.prems(1)] del_each_saved by simp
  next
    case False
    then show ?thesis using Cons del_others by simp
  qed
qed simp

section \<open>Replies\<close>

lemma with_target_ok:
  assumes "\<And>dv w v. snd (f dv w) = Inr v \<Longrightarrow> is_ok v" and "snd (with_target a tg f w) = Inr v"
  shows "is_ok v"
  using assms by (auto simp: with_target_def split: prod.splits sum.splits)

lemma add_ok_reply: "snd (add bdev env spec w) = Inr v \<Longrightarrow> is_ok v"
proof (cases rule: add_cases [of bdev env spec w])
  case (started dsize s rec fs)
  assume "snd (add bdev env spec w) = Inr v"
  then obtain dv where "v = add_reply dv spec dsize s rec (bdev dv)"
    using started by (cases "startup env") (auto simp: add_start_eq Let_def)
  then show ?thesis by (simp add: add_reply_def is_ok_def Let_def)
qed simp

lemma dispatch_ok: "snd (dispatch tx a req w) = Inr v \<Longrightarrow> is_ok v"
proof (cases req)
  case (ReqAdd spec)
  assume "snd (dispatch tx a req w) = Inr v"
  then show ?thesis using ReqAdd add_ok_reply by (simp add: dispatch_def)
next
  case (ReqDel tg)
  have "is_ok v" if "snd (del ok ex dv w) = Inr v" for ok ex dv w v
    using that by (auto simp: del_def Let_def is_ok_def split: sum.splits if_splits sup_exit.splits)
  moreover assume "snd (dispatch tx a req w) = Inr v"
  ultimately show ?thesis using ReqDel by (simp add: dispatch_def) (erule with_target_ok [rotated], blast)
next
  case (ReqStatus tg)
  have "is_ok v" if "snd (status bdev disp dv w) = Inr v" for bdev disp dv w v
    using that by (auto simp: status_def Let_def and_then_ok is_ok_def device_status_def)
  moreover assume "snd (dispatch tx a req w) = Inr v"
  ultimately show ?thesis using ReqStatus
    by (simp add: dispatch_def) (erule with_target_ok [rotated], blast)
next
  case (ReqCheckpoint tg)
  have "is_ok v" if "snd (checkpoint_dev et fault dv w) = Inr v" for et fault dv w v
    using that checkpoint_one_reply(1)
    by (auto simp: checkpoint_dev_def Let_def is_ok_def split_beta split: sum.splits)
  moreover assume "snd (dispatch tx a req w) = Inr v"
  ultimately show ?thesis using ReqCheckpoint
    by (simp add: dispatch_def) (erule with_target_ok [rotated], blast)
next
  case (ReqDump tg since gen)
  have "is_ok v" if "snd (dump dv since gen w) = Inr v" for dv w v
    using that by (auto simp: dump_def Let_def and_then_ok is_ok_def dump_reply_def split: if_splits)
  moreover assume "snd (dispatch tx a req w) = Inr v"
  ultimately show ?thesis using ReqDump
    by (simp add: dispatch_def) (erule with_target_ok [rotated], blast)
qed (auto simp: dispatch_def list_devices_def checkpoint_all_def is_ok_def Let_def split_beta)

section \<open>Properties\<close>


text \<open>
  Every request that could be read gets exactly one reply, and the reply says \<open>ok\<close> exactly
  when the request was understood and its operation succeeded. The loop ends only for a
  shutdown request whose reply was delivered.
\<close>

theorem reply_reports_outcome:
  assumes "read_ok c"
  shows "\<exists>v. fst (snd (handle tx c w)) = Some v \<and>
    (is_ok v \<longleftrightarrow> (\<exists>req x. parsed c = Some req \<and> snd (dispatch tx (conn_answers c) req w) = Inr x)) \<and>
    (snd (snd (handle tx c w)) = Some True \<longleftrightarrow> parsed c = Some ReqShutdown \<and> write_ok c)"
proof -
  have shut: "dispatch tx (conn_answers c) ReqShutdown w =
      (w, Inr (JObj [(''ok'', JBool True), (''shutdown'', JBool True)]))"
    by (simp add: dispatch_def)
  show ?thesis
  proof (cases "parsed c")
    case None
    then show ?thesis using assms by (auto simp: handle_def)
  next
    case (Some req)
    obtain w1 r where d: "dispatch tx (conn_answers c) req w = (w1, r)" by fastforce
    show ?thesis
    proof (cases r)
      case (Inl e)
      then have "req \<noteq> ReqShutdown" using d shut by auto
      with Inl d Some assms show ?thesis by (simp add: handle_def)
    next
      case (Inr v)
      then have "is_ok v" using dispatch_ok [of tx "conn_answers c" req w v] d by simp
      with Inr d Some assms show ?thesis by (simp add: handle_def)
    qed
  qed
qed

definition ex_texts :: texts where
  "ex_texts = \<lparr>tx_bdev = (\<lambda>_. ''b''), tx_path = (\<lambda>_. ''p''), tx_save = (\<lambda>_. ''e''),
     tx_error = (\<lambda>_. ''x''), tx_bad_request = ''bad''\<rparr>"

definition ex_answers :: answers where
  "ex_answers = \<lparr>ans_add = ex_env, ans_del_ok = (\<lambda>_. True), ans_exit = (\<lambda>_. Saves None),
     ans_fault = (\<lambda>_. None), ans_canon = (\<lambda>_. None)\<rparr>"

theorem reply_reports_outcome_witness:
  "\<exists>v. fst (snd (handle ex_texts \<lparr>read_ok = True, parsed = None, write_ok = True,
     conn_answers = ex_answers\<rparr> ex_world)) = Some v \<and> \<not> is_ok v"
  using reply_reports_outcome [of "\<lparr>read_ok = True, parsed = None, write_ok = True,
      conn_answers = ex_answers\<rparr>" ex_texts ex_world] by auto

text \<open>
  C20. A shutdown detaches every device and closes its history: when libublk deletes the devices
  and the final saves succeed, the registry is empty afterwards, and the metadata file of
  every device that shares it with no other is a clean save of the map the device ended with.
\<close>

theorem shutdown_saves_all:
  assumes "reg_ok w" and "map_of (devices (reap w)) dv = Some m" and "m_meta m = Some p"
    and "others_apart p (m_supervisor m) w"
  shows "devices (shutdown_all (\<lambda>_. True) (\<lambda>_. Saves None) w) = [] \<and>
    files (shutdown_all (\<lambda>_. True) (\<lambda>_. Saves None) w) p = Some (meta_bytes True (arcs w ! m_state m))"
proof -
  have dv: "m_dev_id m = dv" by (rule registered_wf(1) [OF assms(1,2)])
  have "(dv, m) \<in> set (devices w)" using map_of_SomeD [OF assms(2)] by (simp add: reap_devices)
  then have "m_dev_id m \<in> set (map fst (devices w))" using dv by force
  moreover have "waiting p m (arcs w ! m_state m) w" using assms dv by (simp add: waiting_def)
  ultimately show ?thesis
    using del_each_saves [of p m "arcs w ! m_state m" w "map fst (devices w)"] del_each_devices [of w]
    by (simp add: shutdown_all_def saved_def)
qed

theorem shutdown_saves_all_witness:
  "files (shutdown_all (\<lambda>_. True) (\<lambda>_. Saves None) ex_world) ([], ''a.meta'') = Some (meta_bytes True ex_era)"
proof -
  let ?m = "new_entry 0 ex_spec \<lparr>devices = [], arcs = [], threads = [], files = Map.empty\<rparr>"
  have m: "map_of (devices (reap ex_world)) 0 = Some ?m" "m_meta ?m = Some ([], ''a.meta'')"
      "arcs ex_world ! m_state ?m = ex_era" "m_supervisor ?m = 0"
    by (simp_all add: ex_world_simps new_entry_def ex_spec_def)
  have "others_apart ([], ''a.meta'') (m_supervisor ?m) ex_world"
    by (simp add: others_apart_def live_def m(4)) (simp add: ex_world_def)
  from shutdown_saves_all [OF ex_world_ok m(1,2) this] show ?thesis by (simp add: m(3))
qed

end
