(* ===== verification/Fault_Server.thy ===== *)
theory Fault_Server
  imports Fault_Model Target Json Io_Queue
begin

text \<open>
  The server around the fault model (\<^verbatim>\<open>src/ublkfault/src/main.rs\<close>): the checks of
  \<open>serve\<close>, one request performed on the model, the queue handler that completes or parks
  a request and releases the parked ones when the eventfd fires, and the control commands.
  A panic is \<open>None\<close>.
\<close>

section \<open>The code\<close>

definition POLL_TAG :: u16 where
  "POLL_TAG = 0xFFF"

definition UBLK_IO_OP_WRITE_ZEROES :: u32 where
  "UBLK_IO_OP_WRITE_ZEROES = 5"

text \<open>\<open>u32::is_power_of_two\<close>, \<open>trailing_zeros\<close> and the checks of the \<open>serve\<close> command.\<close>

definition is_power_of_two32 :: "u32 \<Rightarrow> bool" where
  "is_power_of_two32 w \<longleftrightarrow> length (filter (bit w) [0..<32]) = 1"

definition trailing_zeros :: "u32 \<Rightarrow> nat" where
  "trailing_zeros w = length (takeWhile (\<lambda>i. \<not> bit w i) [0..<32])"

definition serve_check :: "u64 \<Rightarrow> u32 \<Rightarrow> bool option" where
  "serve_check sz bs =
     (if sz = 0 then Some False
      else if bs = 0 then None
      else Some (\<not> (sz mod ucast bs \<noteq> 0 \<or> \<not> is_power_of_two32 bs \<or> bs < 512)))"

definition fault_params :: "abi \<Rightarrow> u32 \<Rightarrow> u64 \<Rightarrow> u32 \<Rightarrow> ublk_params" where
  "fault_params K max_io_buf_bytes sz bs =
     (let shift = of_nat (trailing_zeros bs) in
      \<lparr>types = PARAM_TYPE_BASIC K OR PARAM_TYPE_DISCARD K,
       attrs = UBLK_ATTR_VOLATILE_CACHE,
       logical_bs_shift = shift, physical_bs_shift = shift, io_opt_shift = 12,
       io_min_shift = shift, max_sectors = drop_bit 9 max_io_buf_bytes,
       dev_sectors = drop_bit 9 sz, discard_granularity = bs,
       max_discard_sectors = push_bit 22 1, max_write_zeroes_sectors = push_bit 22 1,
       max_discard_segments = 1\<rparr>)"

record shared =
  sh_model :: model
  parked :: "u16 list"
  thaw_result :: i32
  efd :: u64

definition serve_shared :: "u64 \<Rightarrow> u32 \<Rightarrow> u64 \<Rightarrow> u64 \<Rightarrow> policy \<Rightarrow> shared" where
  "serve_shared sz bs seed cache pol =
     \<lparr>sh_model = model_new sz bs cache seed pol, parked = [], thaw_result = 0, efd = 0\<rparr>"

text \<open>\<open>perform\<close>: the completion result, the model and the buffer after the request.\<close>

definition perform :: "abi \<Rightarrow> u32 \<Rightarrow> u64 \<Rightarrow> u64 \<Rightarrow> u8 list \<Rightarrow> model \<Rightarrow> (i32 \<times> model \<times> u8 list) option" where
  "perform K op off len buf m =
     (if op = IO_OP_READ K then
        (if length buf < unat len then None
         else map_option (\<lambda>(out, m'). (ucast len, m', out @ drop (unat len) buf))
                (model_read off (unat len) m))
      else if op = IO_OP_WRITE K then
        (if length buf < unat len then None
         else map_option (\<lambda>(res, m'). (res, m', buf))
                (model_write (EIO K) off (take (unat len) buf) m))
      else if op = IO_OP_FLUSH K then map_option (\<lambda>m'. (0, m', buf)) (model_flush m)
      else if op = IO_OP_DISCARD K \<or> op = UBLK_IO_OP_WRITE_ZEROES then
        map_option (\<lambda>m'. (0, m', buf)) (model_discard off len m)
      else Some (- EINVAL K, m, buf))"

text \<open>
  A queue: the descriptor of every tag, one buffer per slot (\<open>alloc_queue_io_bufs\<close>), and whether
  a one-shot poll on the eventfd is submitted. The handler returns the completions it issued on
  this queue, in order. A tag without a buffer is an index out of range.
\<close>

record queue =
  q_iod :: "u16 \<Rightarrow> iod"
  q_bufs :: "u8 list list"
  armed :: bool

type_synonym completion = "u16 \<times> i32"

definition has_buf :: "queue \<Rightarrow> u16 \<Rightarrow> bool" where
  "has_buf q t \<longleftrightarrow> unat t < length (q_bufs q)"

abbreviation q_buf :: "queue \<Rightarrow> u16 \<Rightarrow> u8 list" where
  "q_buf q t \<equiv> q_bufs q ! unat t"

definition submit_poll :: "queue \<Rightarrow> queue" where
  "submit_poll q = q\<lparr>armed := True\<rparr>"

definition serve_tag :: "abi \<Rightarrow> u16 \<Rightarrow> queue \<Rightarrow> model \<Rightarrow> (i32 \<times> queue \<times> model) option" where
  "serve_tag K t q m =
     map_option (\<lambda>(res, m', buf). (res, q\<lparr>q_bufs := (q_bufs q)[unat t := buf]\<rparr>, m'))
       (perform K (iod_op (q_iod q t)) (iod_off (q_iod q t)) (iod_bytes (q_iod q t)) (q_buf q t) m)"

fun thaw_tags :: "abi \<Rightarrow> i32 \<Rightarrow> u16 list \<Rightarrow> queue \<Rightarrow> model \<Rightarrow> (completion list \<times> queue \<times> model) option" where
  "thaw_tags K thaw [] q m = Some ([], q, m)"
| "thaw_tags K thaw (t # ts) q m =
     (if \<not> has_buf q t then None
      else case (if thaw = 0 then serve_tag K t q m else Some (thaw, q, m)) of
        None \<Rightarrow> None
      | Some (res, q', m') \<Rightarrow>
          map_option (\<lambda>(cs, q'', m''). ((t, res) # cs, q'', m'')) (thaw_tags K thaw ts q' m'))"

definition handler :: "abi \<Rightarrow> u16 \<Rightarrow> bool \<Rightarrow> queue \<Rightarrow> shared \<Rightarrow> (completion list \<times> queue \<times> shared) option" where
  "handler K tag tgt_io q sh =
     (if tgt_io \<and> tag = POLL_TAG then
        map_option (\<lambda>(cs, q', m'). (cs, submit_poll q', sh\<lparr>sh_model := m', parked := [], efd := 0\<rparr>))
          (thaw_tags K (thaw_result sh) (parked sh) q (sh_model sh))
      else if \<not> has_buf q tag then None
      else
        (let m = sh_model sh in
         case rng_hit (hang_pm (policy m)) (rng m) of
           (True, r) \<Rightarrow> Some ([], q, sh\<lparr>sh_model := m\<lparr>rng := r,
               stats := (stats m)\<lparr>hangs := hangs (stats m) + 1\<rparr>\<rparr>, parked := parked sh @ [tag]\<rparr>)
         | (False, r) \<Rightarrow> map_option (\<lambda>(res, q', m'). ([(tag, res)], q', sh\<lparr>sh_model := m'\<rparr>))
             (serve_tag K tag q (m\<lparr>rng := r\<rparr>))))"

text \<open>The control commands. Error messages quote the offending word.\<close>

definition quoted :: "string \<Rightarrow> string" where
  "quoted s = CHR 0x27 # s @ [CHR 0x27]"

definition policy_json :: "policy \<Rightarrow> json" where
  "policy_json pol = JObj [(''error_pm'', JNum (uint (error_pm pol))),
     (''flush_lie_pm'', JNum (uint (flush_lie_pm pol))), (''hang_pm'', JNum (uint (hang_pm pol)))]"

definition stats_json :: "stats \<Rightarrow> json" where
  "stats_json st = JObj [(''reads'', JNum (uint (reads st))), (''writes'', JNum (uint (writes st))),
     (''flushes'', JNum (uint (flushes st))), (''discards'', JNum (uint (discards st))),
     (''errors_injected'', JNum (uint (errors_injected st))),
     (''flush_lies'', JNum (uint (flush_lies st))), (''hangs'', JNum (uint (hangs st))),
     (''crashes'', JNum (uint (crashes st))),
     (''autonomous_writebacks'', JNum (uint (autonomous_writebacks st)))]"

definition report_json :: "crash_report \<Rightarrow> json" where
  "report_json rep = JObj [(''committed'', JNum (uint (rep_committed rep))),
     (''dropped'', JNum (uint (rep_dropped rep))), (''torn'', JNum (uint (rep_torn rep)))]"

text \<open>
  The loop of \<open>set\<close> over the three keys, each with the update of its field: the value is
  stored before the next key is looked at, and a value over 1000 returns at once.
\<close>

type_synonym policy_field = "string \<times> (u32 \<Rightarrow> policy \<Rightarrow> policy)"

definition policy_fields :: "policy_field list" where
  "policy_fields = [(''error_pm'', \<lambda>v pol. pol\<lparr>error_pm := v\<rparr>),
     (''flush_lie_pm'', \<lambda>v pol. pol\<lparr>flush_lie_pm := v\<rparr>), (''hang_pm'', \<lambda>v pol. pol\<lparr>hang_pm := v\<rparr>)]"

fun set_fields :: "json \<Rightarrow> policy_field list \<Rightarrow> policy \<Rightarrow> policy \<times> string option" where
  "set_fields req [] pol = (pol, None)"
| "set_fields req ((key, upd) # fs) pol = (case as_u64 (jget key req) of
      None \<Rightarrow> set_fields req fs pol
    | Some v \<Rightarrow> if 1000 < v then (pol, Some (key @ '' > 1000''))
                else set_fields req fs (upd (of_int v) pol))"

definition ctl_set :: "json \<Rightarrow> shared \<Rightarrow> shared \<times> json" where
  "ctl_set req sh = (case set_fields req policy_fields (policy (sh_model sh)) of (pol, err) \<Rightarrow>
     (sh\<lparr>sh_model := (sh_model sh)\<lparr>policy := pol\<rparr>\<rparr>,
      case err of Some e \<Rightarrow> err_reply e
      | None \<Rightarrow> JObj [(''ok'', JBool True), (''policy'', policy_json pol)]))"

definition ctl_crash :: "json \<Rightarrow> shared \<Rightarrow> (shared \<times> json) option" where
  "ctl_crash req sh =
     (let run = (\<lambda>mode. map_option (\<lambda>(rep, m). (sh\<lparr>sh_model := m\<rparr>,
            JObj [(''ok'', JBool True), (''report'', report_json rep)])) (model_crash mode (sh_model sh)))
      in case as_str (jget ''mode'' req) of
           None \<Rightarrow> run Seeded
         | Some s \<Rightarrow> if s = ''drop'' then run Drop
             else if s = ''seeded'' then run Seeded
             else Some (sh, err_reply (''unknown mode '' @ quoted s)))"

definition ctl_thaw :: "abi \<Rightarrow> json \<Rightarrow> shared \<Rightarrow> shared \<times> json" where
  "ctl_thaw K req sh =
     (let fire = (\<lambda>res. (sh\<lparr>thaw_result := res, efd := efd sh + 1\<rparr>,
            JObj [(''ok'', JBool True), (''parked'', JNum (int (length (parked sh))))]))
      in case as_str (jget ''result'' req) of
           None \<Rightarrow> fire 0
         | Some s \<Rightarrow> if s = ''ok'' then fire 0
             else if s = ''eio'' then fire (- EIO K)
             else (sh, err_reply (''unknown result '' @ quoted s)))"

text \<open>\<open>handle_ctl\<close>; the request is \<open>Inl\<close> with the parser's message where the line is not JSON.\<close>

definition handle_ctl :: "abi \<Rightarrow> string + json \<Rightarrow> shared \<Rightarrow> (shared \<times> json) option" where
  "handle_ctl K req sh = (case req of
      Inl e \<Rightarrow> Some (sh, err_reply (''bad request: '' @ e))
    | Inr v \<Rightarrow>
        (let m = sh_model sh in
         case as_str (jget ''cmd'' v) of
           None \<Rightarrow> Some (sh, err_reply ''unknown cmd (status/set/crash/thaw)'')
         | Some c \<Rightarrow>
             if c = ''status'' then Some (sh, JObj [(''ok'', JBool True),
               (''policy'', policy_json (policy m)), (''stats'', stats_json (stats m)),
               (''volatile_bytes'', JNum (uint (volatile_bytes m))),
               (''parked'', JNum (int (length (parked sh))))])
             else if c = ''set'' then Some (ctl_set v sh)
             else if c = ''crash'' then ctl_crash v sh
             else if c = ''thaw'' then Some (ctl_thaw K v sh)
             else Some (sh, err_reply ''unknown cmd (status/set/crash/thaw)'')))"

section \<open>Requests\<close>

text \<open>A request the driver may send: inside the device, with a buffer that holds it.\<close>

definition req_ok :: "model \<Rightarrow> iod \<Rightarrow> u8 list \<Rightarrow> bool" where
  "req_ok m d buf \<longleftrightarrow> unat (iod_off d) + unat (iod_bytes d) \<le> length (committed m) \<and>
     unat (iod_bytes d) \<le> length buf"

lemma frame_trans: "frame m m' \<Longrightarrow> frame m' m'' \<Longrightarrow> frame m m''"
  by (simp add: frame_def)

lemma perform_ok:
  assumes "model_wf m" and "req_ok m d buf"
  shows "\<exists>res m' buf'. perform K (iod_op d) (iod_off d) (iod_bytes d) buf m = Some (res, m', buf') \<and>
    model_wf m' \<and> frame m m' \<and> length buf' = length buf"
proof -
  let ?off = "iod_off d" and ?len = "unat (iod_bytes d)"
  have r: "unat ?off + ?len \<le> length (committed m)" "?len \<le> length buf"
    using assms(2) by (simp_all add: req_ok_def)
  have w: "unat ?off + length (take ?len buf) \<le> length (committed m)" using r by simp
  obtain out m1 where "model_read ?off ?len m = Some (out, m1)" "model_wf m1" "frame m m1" "length out = ?len"
    using model_read_ok [OF assms(1) r(1)] r assms(1) by simp
  moreover obtain res m2 where "model_write (EIO K) ?off (take ?len buf) m = Some (res, m2)"
      "model_wf m2" "frame m m2"
    using model_write_ok [OF assms(1) w, of "EIO K"] by (auto dest!: storedD)
  moreover obtain m3 where "model_flush m = Some m3" "model_wf m3" "frame m m3"
    using model_flush_ok [OF assms(1)] by auto
  moreover obtain m4 where "model_discard ?off (iod_bytes d) m = Some m4" "model_wf m4" "frame m m4"
    using model_discard_ok [OF assms(1), of ?off "iod_bytes d"] r(1) by (auto dest!: storedD)
  ultimately show ?thesis
    using assms(1) r(2) by (simp add: perform_def)
qed

text \<open>
  Serving a tag leaves the shape of the queue alone: descriptors, buffer sizes and the poll.
\<close>

definition same_bufs :: "queue \<Rightarrow> queue \<Rightarrow> bool" where
  "same_bufs q q' \<longleftrightarrow> q_iod q' = q_iod q \<and> armed q' = armed q \<and>
     map length (q_bufs q') = map length (q_bufs q)"

definition tag_ok :: "queue \<Rightarrow> model \<Rightarrow> u16 \<Rightarrow> bool" where
  "tag_ok q m t \<longleftrightarrow> has_buf q t \<and> req_ok m (q_iod q t) (q_buf q t)"

lemma same_bufs_refl [simp]: "same_bufs q q"
  by (simp add: same_bufs_def)

lemma same_bufs_trans: "same_bufs a b \<Longrightarrow> same_bufs b c \<Longrightarrow> same_bufs a c"
  by (simp add: same_bufs_def)

lemma same_bufs_nth:
  assumes "same_bufs q q'"
  shows "has_buf q' t = has_buf q t" and "has_buf q t \<Longrightarrow> length (q_buf q' t) = length (q_buf q t)"
proof -
  have eq: "map length (q_bufs q') = map length (q_bufs q)" using assms by (simp add: same_bufs_def)
  then have len: "length (q_bufs q') = length (q_bufs q)" by (metis length_map)
  then show "has_buf q' t = has_buf q t" by (simp add: has_buf_def)
  show "has_buf q t \<Longrightarrow> length (q_buf q' t) = length (q_buf q t)"
    using eq len by (metis has_buf_def nth_map)
qed

lemma tag_ok_frame:
  assumes "same_bufs q q'" and "length (committed m') = length (committed m)"
  shows "tag_ok q' m' t = tag_ok q m t"
proof -
  have "q_iod q' = q_iod q" using assms(1) by (simp add: same_bufs_def)
  with same_bufs_nth [OF assms(1), of t] assms(2) show ?thesis
    by (auto simp: tag_ok_def req_ok_def)
qed

lemma serve_tag_ok:
  assumes "model_wf m" and "tag_ok q m t"
  shows "\<exists>res q' m'. serve_tag K t q m = Some (res, q', m') \<and> model_wf m' \<and> frame m m' \<and> same_bufs q q'"
proof -
  have "req_ok m (q_iod q t) (q_buf q t)" using assms(2) by (simp add: tag_ok_def)
  from perform_ok [OF assms(1) this, of K] obtain res m' buf' where
    "perform K (iod_op (q_iod q t)) (iod_off (q_iod q t)) (iod_bytes (q_iod q t)) (q_buf q t) m
       = Some (res, m', buf')" "model_wf m'" "frame m m'" "length buf' = length (q_buf q t)"
    by blast
  moreover from this(4) have "same_bufs q (q\<lparr>q_bufs := (q_bufs q)[unat t := buf']\<rparr>)"
    using assms(2) by (simp add: same_bufs_def map_update tag_ok_def has_buf_def list_update_same_conv)
  ultimately show ?thesis by (simp add: serve_tag_def)
qed

lemma thaw_tags_ok:
  "model_wf m \<Longrightarrow> list_all (tag_ok q m) ts \<Longrightarrow>
     \<exists>cs q' m'. thaw_tags K thaw ts q m = Some (cs, q', m') \<and> model_wf m' \<and> frame m m' \<and>
       same_bufs q q' \<and> map fst cs = ts"
proof (induction ts arbitrary: q m)
  case (Cons t ts)
  have "\<exists>res q1 m1. (if thaw = 0 then serve_tag K t q m else Some (thaw, q, m)) = Some (res, q1, m1) \<and>
      model_wf m1 \<and> frame m m1 \<and> same_bufs q q1"
    using serve_tag_ok [of m q t K] Cons.prems by auto
  then obtain res q1 m1 where s: "(if thaw = 0 then serve_tag K t q m else Some (thaw, q, m)) = Some (res, q1, m1)"
      "model_wf m1" "frame m m1" "same_bufs q q1"
    by blast
  have "list_all (tag_ok q1 m1) ts"
    using Cons.prems(2) tag_ok_frame [OF s(4), of m1 m] s(3) by (simp add: list_all_iff frame_def)
  from Cons.IH [OF s(2) this] obtain cs q2 m2 where
    "thaw_tags K thaw ts q1 m1 = Some (cs, q2, m2)" "model_wf m2" "frame m1 m2" "same_bufs q1 q2" "map fst cs = ts"
    by blast
  moreover have "has_buf q t" using Cons.prems(2) by (simp add: tag_ok_def)
  ultimately show ?case using s(1,3,4) frame_trans same_bufs_trans by auto
qed simp

section \<open>A queue over time\<close>

text \<open>
  What happens on a queue: the driver hands over a request (its descriptor and, for a write,
  its data are in place), the submitted poll completes because the eventfd fired, or a control
  command arrives.
\<close>

datatype q_event = QReq u16 iod "u8 list" | QPoll | QCtl "string + json"

fun q_step :: "abi \<Rightarrow> q_event \<Rightarrow> queue \<times> shared \<Rightarrow> (completion list \<times> queue \<times> shared) option" where
  "q_step K (QReq t d buf) (q, sh) =
     handler K t False (q\<lparr>q_iod := (q_iod q)(t := d), q_bufs := (q_bufs q)[unat t := buf]\<rparr>) sh"
| "q_step K QPoll (q, sh) = handler K POLL_TAG True (q\<lparr>armed := False\<rparr>) sh"
| "q_step K (QCtl req) (q, sh) = map_option (\<lambda>(sh', _). ([], q, sh')) (handle_ctl K req sh)"

text \<open>
  The queue thread: the buffers and the mapped descriptors are given, the fetch commands are
  submitted (or fail, and the thread ends), the poll is armed, and events are handled until the
  queue goes down.
\<close>

definition fault_queue :: "u8 list list \<Rightarrow> (u16 \<Rightarrow> iod) \<Rightarrow> queue" where
  "fault_queue bufs iods = submit_poll \<lparr>q_iod = iods, q_bufs = bufs, armed = False\<rparr>"

definition fault_queue_fn :: "abi \<Rightarrow> u8 list list \<Rightarrow> (u16 \<Rightarrow> iod) \<Rightarrow> bool \<Rightarrow> q_event list \<Rightarrow> shared \<Rightarrow>
    (completion list \<times> queue option \<times> shared) option" where
  "fault_queue_fn K bufs iods setup_ok es sh =
     (if \<not> setup_ok then Some ([], None, sh)
      else map_option (\<lambda>(cs, q, sh'). (cs, Some q, sh'))
        (run_events (q_step K) es (fault_queue bufs iods, sh)))"

fun q_arrives :: "q_event \<Rightarrow> u16 list" where
  "q_arrives (QReq t d buf) = [t]"
| "q_arrives _ = []"

text \<open>
  The driver uses the tags of the queue, reuses none before its request is completed, and
  a poll only completes when it was submitted.
\<close>

fun q_allowed :: "q_event \<Rightarrow> queue \<times> shared \<Rightarrow> bool" where
  "q_allowed (QReq t d buf) s \<longleftrightarrow> has_buf (fst s) t \<and> t \<notin> set (parked (snd s)) \<and>
     req_ok (sh_model (snd s)) d buf"
| "q_allowed QPoll s \<longleftrightarrow> armed (fst s)"
| "q_allowed (QCtl req) s \<longleftrightarrow> True"

abbreviation q_run :: "abi \<Rightarrow> q_event list \<Rightarrow> queue \<times> shared \<Rightarrow> (completion list \<times> queue \<times> shared) option" where
  "q_run K \<equiv> run_events (q_step K)"

abbreviation q_valid :: "abi \<Rightarrow> q_event list \<Rightarrow> queue \<times> shared \<Rightarrow> bool" where
  "q_valid K \<equiv> valid_events (q_step K) q_allowed"

definition q_wf :: "queue \<times> shared \<Rightarrow> bool" where
  "q_wf s \<longleftrightarrow> armed (fst s) \<and> model_wf (sh_model (snd s)) \<and>
     list_all (tag_ok (fst s) (sh_model (snd s))) (parked (snd s))"

lemma model_wf_policy [simp]: "model_wf (m\<lparr>policy := x\<rparr>) = model_wf m"
  by (simp add: model_wf_def)

lemma handle_ctl_ok:
  assumes "model_wf (sh_model sh)"
  shows "\<exists>sh' v. handle_ctl K req sh = Some (sh', v) \<and> model_wf (sh_model sh') \<and> parked sh' = parked sh \<and>
    length (committed (sh_model sh')) = length (committed (sh_model sh))"
proof -
  have crash: "\<exists>rep m'. model_crash mode (sh_model sh) = Some (rep, m') \<and> model_wf m' \<and>
      length (committed m') = length (committed (sh_model sh))" for mode
    using model_crash_ok [OF assms, of mode] by (auto simp: frame_def)
  have "\<exists>sh' v. ctl_crash r sh = Some (sh', v) \<and> model_wf (sh_model sh') \<and> parked sh' = parked sh \<and>
      length (committed (sh_model sh')) = length (committed (sh_model sh))" for r
    using crash [of Drop] crash [of Seeded] assms
    by (auto simp: ctl_crash_def Let_def split: option.splits)
  moreover have "\<exists>sh' v. ctl_set r sh = (sh', v) \<and> model_wf (sh_model sh') \<and> parked sh' = parked sh \<and>
      length (committed (sh_model sh')) = length (committed (sh_model sh))" for r
    using assms by (auto simp: ctl_set_def split: prod.splits)
  moreover have "\<exists>sh' v. ctl_thaw K r sh = (sh', v) \<and> model_wf (sh_model sh') \<and> parked sh' = parked sh \<and>
      length (committed (sh_model sh')) = length (committed (sh_model sh))" for r
    using assms by (auto simp: ctl_thaw_def Let_def split: option.splits)
  ultimately show ?thesis
    using assms by (auto simp: handle_ctl_def Let_def split: sum.splits option.splits)
qed

lemma q_wf_frame:
  assumes "list_all (tag_ok q m) ts" and "same_bufs q q'"
    and "length (committed m') = length (committed m)"
  shows "list_all (tag_ok q' m') ts"
  using assms tag_ok_frame [OF assms(2,3)] by (simp add: list_all_iff)

text \<open>
  One event: no panic, the invariant holds after it, and the tags completed or still parked
  are those parked before and the one that arrived.
\<close>

lemma q_poll_ok:
  assumes "q_wf (q, sh)"
  shows "\<exists>cs q' sh'. q_step K QPoll (q, sh) = Some (cs, q', sh') \<and> q_wf (q', sh') \<and>
    parked sh' = [] \<and> map fst cs = parked sh"
proof -
  have "tag_ok (q\<lparr>armed := False\<rparr>) m t = tag_ok q m t" for m t
    by (simp add: tag_ok_def has_buf_def)
  then have "list_all (tag_ok (q\<lparr>armed := False\<rparr>) (sh_model sh)) (parked sh)"
    using assms by (simp add: q_wf_def list_all_iff)
  moreover have "model_wf (sh_model sh)" using assms by (simp add: q_wf_def)
  ultimately show ?thesis
    using thaw_tags_ok [of "sh_model sh" "q\<lparr>armed := False\<rparr>" "parked sh" K "thaw_result sh"]
    by (auto simp: q_wf_def handler_def submit_poll_def)
qed

lemma tag_ok_other:
  assumes "x \<noteq> t"
  shows "tag_ok (q\<lparr>q_iod := (q_iod q)(t := d), q_bufs := (q_bufs q)[unat t := buf]\<rparr>) m x = tag_ok q m x"
proof -
  have "unat t \<noteq> unat x" using assms by (auto dest: unsigned_word_eqI)
  then show ?thesis using assms by (simp add: tag_ok_def has_buf_def)
qed

lemma q_req_ok:
  assumes "q_wf (q, sh)" and "q_allowed (QReq t d buf) (q, sh)"
  shows "\<exists>cs q' sh'. q_step K (QReq t d buf) (q, sh) = Some (cs, q', sh') \<and> q_wf (q', sh') \<and>
    mset (map fst cs) + mset (parked sh') = add_mset t (mset (parked sh))"
proof -
  let ?q = "q\<lparr>q_iod := (q_iod q)(t := d), q_bufs := (q_bufs q)[unat t := buf]\<rparr>" and ?m = "sh_model sh"
  obtain hang r where hit: "rng_hit (hang_pm (policy ?m)) (rng ?m) = (hang, r)" by fastforce
  have wf: "model_wf ?m" and arm: "armed ?q" using assms(1) by (simp_all add: q_wf_def)
  have own: "tag_ok ?q ?m t" using assms(2) by (simp add: tag_ok_def has_buf_def)
  have "tag_ok ?q ?m x" if "x \<in> set (parked sh)" for x
    using that assms tag_ok_other [of x t q buf d ?m] by (auto simp: q_wf_def list_all_iff)
  then have others: "list_all (tag_ok ?q ?m) (parked sh)" by (simp add: list_all_iff)
  have buf: "has_buf ?q t" using own by (simp add: tag_ok_def)
  show ?thesis
  proof (cases hang)
    case True
    have "tag_ok ?q (?m\<lparr>rng := r, stats := x\<rparr>) = tag_ok ?q ?m" for x
      by (simp add: tag_ok_def req_ok_def fun_eq_iff)
    then show ?thesis
      using True hit wf arm own others buf by (simp add: handler_def q_wf_def Let_def)
  next
    case False
    have "tag_ok ?q (?m\<lparr>rng := r\<rparr>) t" using own by (simp add: tag_ok_def req_ok_def)
    then obtain res q' m' where s: "serve_tag K t ?q (?m\<lparr>rng := r\<rparr>) = Some (res, q', m')" "model_wf m'"
        "frame (?m\<lparr>rng := r\<rparr>) m'" "same_bufs ?q q'"
      using serve_tag_ok [of "?m\<lparr>rng := r\<rparr>" ?q t K] wf by auto
    have "list_all (tag_ok q' m') (parked sh)"
      by (rule q_wf_frame [OF others s(4)]) (use s(3) in \<open>simp add: frame_def\<close>)
    moreover have "armed q'" using s(4) arm by (simp add: same_bufs_def)
    ultimately show ?thesis using False hit s(1,2) buf by (simp add: handler_def q_wf_def)
  qed
qed

lemma q_ctl_ok:
  assumes "q_wf (q, sh)"
  shows "\<exists>sh'. q_step K (QCtl req) (q, sh) = Some ([], q, sh') \<and> q_wf (q, sh') \<and> parked sh' = parked sh"
proof -
  obtain sh' v where "handle_ctl K req sh = Some (sh', v)" "model_wf (sh_model sh')"
      "parked sh' = parked sh" "length (committed (sh_model sh')) = length (committed (sh_model sh))"
    using handle_ctl_ok [of sh K req] assms by (auto simp: q_wf_def)
  then show ?thesis
    using assms q_wf_frame [of q "sh_model sh" "parked sh" q "sh_model sh'"] by (simp add: q_wf_def)
qed

interpretation fq: io_queue "q_step K" q_allowed q_wf q_arrives "\<lambda>s. mset (parked (snd s))" fst for K
proof
  fix s e
  assume inv: "q_wf s" and ok: "q_allowed e s"
  obtain q sh where s: "s = (q, sh)" by (cases s)
  show "\<exists>cs s'. q_step K e s = Some (cs, s') \<and> q_wf s' \<and>
      mset (map fst cs) + mset (parked (snd s')) = mset (parked (snd s)) + mset (q_arrives e)"
  proof (cases e)
    case (QReq t d buf)
    then show ?thesis using q_req_ok [of q sh t d buf K] inv ok unfolding s by auto
  next
    case QPoll
    then show ?thesis using q_poll_ok [of q sh K] inv by (auto simp: s simp del: mset_map)
  next
    case (QCtl req)
    then show ?thesis using q_ctl_ok [of q sh K req] inv by (auto simp: s)
  qed
qed

section \<open>Control commands\<close>

definition policy_ok :: "policy \<Rightarrow> bool" where
  "policy_ok pol \<longleftrightarrow> error_pm pol \<le> 1000 \<and> flush_lie_pm pol \<le> 1000 \<and> hang_pm pol \<le> 1000"

lemma small_u32: "0 \<le> v \<Longrightarrow> v \<le> 1000 \<Longrightarrow> of_int v \<le> (1000 :: u32)"
  by (simp add: word_le_def unsigned_of_int take_bit_int_eq_self)

definition field_ok :: "policy_field \<Rightarrow> bool" where
  "field_ok f \<longleftrightarrow> (\<forall>v\<le>1000. \<forall>pol. policy_ok pol \<longrightarrow> policy_ok (snd f v pol))"

lemma set_fields_bounds:
  "list_all field_ok fs \<Longrightarrow> policy_ok pol \<Longrightarrow> policy_ok (fst (set_fields req fs pol))"
proof (induction fs arbitrary: pol)
  case (Cons f fs)
  obtain key upd where f: "f = (key, upd)" by (cases f)
  show ?case
  proof (cases "as_u64 (jget key req)")
    case None
    then show ?thesis using Cons by (simp add: f)
  next
    case (Some v)
    then have "0 \<le> v" by (auto simp: as_u64_def split: json.splits if_splits)
    then have "policy_ok (upd (of_int v) pol)" if "v \<le> 1000"
      using Cons.prems that small_u32 by (simp add: f field_ok_def)
    then show ?thesis using Some Cons by (simp add: f)
  qed
qed simp

lemma policy_fields_ok: "list_all field_ok policy_fields"
  by (simp add: policy_fields_def field_ok_def policy_ok_def)

lemma model_crash_policy: "model_crash mode m = Some (rep, m') \<Longrightarrow> policy m' = policy m"
  by (auto simp: model_crash_def)

lemma handle_ctl_policy:
  assumes "policy_ok (policy (sh_model sh))" and "handle_ctl K req sh = Some (sh', v)"
  shows "policy_ok (policy (sh_model sh')) \<and> parked sh' = parked sh"
proof -
  have "policy_ok (policy (sh_model (fst (ctl_set r sh)))) \<and> parked (fst (ctl_set r sh)) = parked sh" for r
    using set_fields_bounds [OF policy_fields_ok assms(1)]
    by (simp add: ctl_set_def split_beta)
  moreover have "policy_ok (policy (sh_model x)) \<and> parked x = parked sh" if "ctl_crash r sh = Some (x, y)" for r x y
    using that assms(1) model_crash_policy
    by (auto simp: ctl_crash_def Let_def split: option.splits if_splits)
  moreover have "policy_ok (policy (sh_model (fst (ctl_thaw K r sh)))) \<and> parked (fst (ctl_thaw K r sh)) = parked sh" for r
    using assms(1) by (simp add: ctl_thaw_def Let_def split: option.split)
  ultimately show ?thesis
    using assms by (auto simp: handle_ctl_def Let_def split: sum.splits option.splits if_splits) (metis fst_conv)+
qed

text \<open>
  A rejected \<open>set\<close> is not undone: the keys before the one out of range are already stored.
\<close>

lemma set_is_not_atomic:
  assumes "as_u64 (jget ''error_pm'' req) = Some a" and "a \<le> 1000"
    and "as_u64 (jget ''flush_lie_pm'' req) = None" and "as_u64 (jget ''hang_pm'' req) = Some h" and "1000 < h"
  shows "\<not> is_ok (snd (ctl_set req sh)) \<and> error_pm (policy (sh_model (fst (ctl_set req sh)))) = of_int a"
  using assms by (simp add: ctl_set_def policy_fields_def)

section \<open>Properties\<close>

text \<open>
  C29. No request of a queue is lost or answered twice. From a fresh device, through any mix of
  requests inside the device, hangs, thaws with either result, power losses, policy changes
  and malformed commands, the queue thread does not panic, and once the eventfd has fired the
  tags it completed are exactly the tags that arrived, each as often as it arrived, nothing is
  parked, and the one-shot poll is submitted again, so that the next thaw is seen as well.
\<close>

theorem every_request_answered_once:
  assumes "model_wf (sh_model sh)" and "parked sh = []"
    and "valid_events (q_step K) q_allowed es (fault_queue bufs iods, sh)"
  shows "\<exists>cs q sh'. fault_queue_fn K bufs iods True (es @ [QPoll]) sh = Some (cs, Some q, sh') \<and>
    mset (map fst cs) = mset (concat (map q_arrives es)) \<and> parked sh' = [] \<and> armed q \<and>
    model_wf (sh_model sh')"
proof -
  have wf: "q_wf (fault_queue bufs iods, sh)"
    using assms(1,2) by (simp add: q_wf_def fault_queue_def submit_poll_def)
  from fq.run_handled [OF this assms(3)] obtain cs q1 sh1 where
    r: "q_run K es (fault_queue bufs iods, sh) = Some (cs, q1, sh1)" "q_wf (q1, sh1)"
      "mset (map fst cs) + mset (parked sh1) = mset (concat (map q_arrives es))"
    using assms(2) by auto
  from q_poll_ok [OF r(2), of K] obtain cs' q2 sh2 where
    p: "q_step K QPoll (q1, sh1) = Some (cs', q2, sh2)" "q_wf (q2, sh2)" "parked sh2 = []"
      "map fst cs' = parked sh1"
    by blast
  have "mset (map fst (cs @ cs')) = mset (concat (map q_arrives es))"
    using r(3) p(4) by (simp del: mset_map)
  moreover have "fault_queue_fn K bufs iods True (es @ [QPoll]) sh = Some (cs @ cs', Some q2, sh2)"
    using run_events_snoc [of "q_step K", OF r(1) p(1)] by (simp add: fault_queue_fn_def)
  ultimately show ?thesis using p(2,3) by (auto simp: q_wf_def)
qed

definition ex_bufs :: "u8 list list" where
  "ex_bufs = replicate 8 (replicate 512 7)"

definition ex_shared :: shared where
  "ex_shared = serve_shared 8192 512 1 1024 \<lparr>error_pm = 0, flush_lie_pm = 0, hang_pm = 1000\<rparr>"

theorem every_request_answered_once_witness:
  "\<exists>cs q sh'. fault_queue_fn linux_abi ex_bufs (\<lambda>_. ex_iod) True
     [QReq 5 \<lparr>op_flags = 1, start_sector = 0, nr_sectors = 1\<rparr> (replicate 512 7), QPoll] ex_shared
     = Some (cs, Some q, sh') \<and> map fst cs = [5]"
proof -
  let ?d = "\<lparr>op_flags = 1, start_sector = 0, nr_sectors = 1\<rparr>" and ?b = "replicate 512 7 :: u8 list"
  have wf: "model_wf (sh_model ex_shared)" "parked ex_shared = []"
    by (simp_all add: ex_shared_def serve_shared_def model_new_def model_wf_def)
  have "req_ok (sh_model ex_shared) ?d ?b"
    by (simp add: req_ok_def ex_shared_def serve_shared_def model_new_def iod_off_def iod_bytes_def)
  then have "valid_events (q_step linux_abi) q_allowed [QReq 5 ?d ?b]
      (fault_queue ex_bufs (\<lambda>_. ex_iod), ex_shared)"
    using wf(2) by (simp add: fault_queue_def submit_poll_def has_buf_def ex_bufs_def split: option.split)
  from every_request_answered_once [OF wf this] obtain cs q sh' where
    "fault_queue_fn linux_abi ex_bufs (\<lambda>_. ex_iod) True [QReq 5 ?d ?b, QPoll] ex_shared
       = Some (cs, Some q, sh')" "mset (map fst cs) = mset [5]"
    by auto
  moreover from this(2) have "map fst cs = [5]" by (metis mset_single_iff mset_single_iff_right mset.simps)
  ultimately show ?thesis by auto
qed

text \<open>
  C33. A parked request does not remember its queue. With more than one queue, a request that
  hangs on one queue is released by whichever queue sees the eventfd first: that queue
  completes its own request of the same tag, which may be idle or still in flight, and the
  request that hung is never completed.
\<close>

theorem thaw_completes_on_the_wrong_queue:
  assumes "parked sh = []" and "fst (rng_hit (hang_pm (policy (sh_model sh))) (rng (sh_model sh)))"
    and "thaw_result sh \<noteq> 0" and "has_buf q0 tag" and "has_buf q1 tag"
  shows "\<exists>sh1 sh2. handler K tag False q0 sh = Some ([], q0, sh1) \<and> parked sh1 = [tag] \<and>
    handler K POLL_TAG True q1 sh1 = Some ([(tag, thaw_result sh)], submit_poll q1, sh2) \<and>
    parked sh2 = [] \<and> (\<exists>sh3. handler K POLL_TAG True q0 sh2 = Some ([], submit_poll q0, sh3))"
proof -
  obtain r where "rng_hit (hang_pm (policy (sh_model sh))) (rng (sh_model sh)) = (True, r)"
    using assms(2) by (cases "rng_hit (hang_pm (policy (sh_model sh))) (rng (sh_model sh))") auto
  then show ?thesis using assms(1,3-5) by (simp add: handler_def Let_def)
qed

theorem thaw_completes_on_the_wrong_queue_witness:
  "\<exists>sh1 sh2. handler linux_abi 5 False (fault_queue ex_bufs (\<lambda>_. ex_iod)) (ex_shared\<lparr>thaw_result := - 5\<rparr>)
       = Some ([], fault_queue ex_bufs (\<lambda>_. ex_iod), sh1) \<and>
     handler linux_abi POLL_TAG True (fault_queue (rev ex_bufs) (\<lambda>_. ex_iod)) sh1 =
       Some ([(5, - 5)], submit_poll (fault_queue (rev ex_bufs) (\<lambda>_. ex_iod)), sh2)"
proof -
  have "fst (rng_hit 1000 1)" by (simp add: rng_hit_def rng_below_def split_beta word_less_nat_alt unat_mod_distrib)
  then have "fst (rng_hit (hang_pm (policy (sh_model (ex_shared\<lparr>thaw_result := - 5\<rparr>))))
      (rng (sh_model (ex_shared\<lparr>thaw_result := - 5\<rparr>))))"
    by (simp add: ex_shared_def serve_shared_def model_new_def)
  moreover have "has_buf (fault_queue ex_bufs (\<lambda>_. ex_iod)) 5" "has_buf (fault_queue (rev ex_bufs) (\<lambda>_. ex_iod)) 5"
    by (simp_all add: has_buf_def fault_queue_def submit_poll_def ex_bufs_def)
  ultimately show ?thesis
    using thaw_completes_on_the_wrong_queue [of "ex_shared\<lparr>thaw_result := - 5\<rparr>"
      "fault_queue ex_bufs (\<lambda>_. ex_iod)" 5 "fault_queue (rev ex_bufs) (\<lambda>_. ex_iod)" linux_abi]
    by (auto simp: ex_shared_def serve_shared_def)
qed

text \<open>
  The control commands keep the fault policy in its range: if every probability is at most
  1000 per mill, it is so after any command, malformed ones and out-of-range values included,
  and no command touches the parked requests.
\<close>

theorem ctl_keeps_policy_bounds:
  assumes "policy_ok (policy (sh_model sh))" and "handle_ctl K req sh = Some (sh', v)"
  shows "policy_ok (policy (sh_model sh')) \<and> parked sh' = parked sh"
  by (rule handle_ctl_policy [OF assms])

theorem ctl_keeps_policy_bounds_witness:
  "policy_ok (policy (sh_model (fst (the (handle_ctl linux_abi
     (Inr (JObj [(''cmd'', JStr ''set''), (''hang_pm'', JNum 2000)])) ex_shared)))))"
proof -
  have "policy_ok (policy (sh_model ex_shared))"
    by (simp add: policy_ok_def ex_shared_def serve_shared_def model_new_def)
  moreover obtain sh' v where "handle_ctl linux_abi
      (Inr (JObj [(''cmd'', JStr ''set''), (''hang_pm'', JNum 2000)])) ex_shared = Some (sh', v)"
    by (simp add: handle_ctl_def as_str_def ctl_set_def split_beta)
  ultimately show ?thesis using ctl_keeps_policy_bounds by fastforce
qed

end
