(* ===== verification/Scenario.thy ===== *)
theory Scenario
  imports Fault_Server "HOL-Library.AList" "HOL-Library.Char_ord" "HOL-Library.List_Lexorder"
    "HOL-Library.Product_Lexorder"
begin

text \<open>
  The scenario runner of ublkfault (\<^verbatim>\<open>src/ublkfault/src/scenario.rs\<close>): the line parser, the
  test patterns, and the execution of a step against a device and the control socket. The
  device, the socket and the shell are parameters, a record of functions on their state.
\<close>

section \<open>The code\<close>

datatype step =
    Write u64 u64 string bool bool
  | Expect u64 u64 string
  | Flush
  | Crash string
  | Set "(string \<times> u64) list"
  | Thaw string
  | Sleep u64
  | Run string bool

datatype parse_error =
    MissingCommand string
  | MissingArg string string
  | BadSize string
  | BadNumber string
  | NoPairs
  | UnknownVerb string

definition need :: "string \<Rightarrow> (string \<times> string) list \<Rightarrow> string \<Rightarrow> parse_error + string" where
  "need verb args k = (case map_of args k of None \<Rightarrow> Inl (MissingArg verb k) | Some v \<Rightarrow> Inr v)"

definition size_arg :: "string \<Rightarrow> parse_error + u64" where
  "size_arg s = (case parse_size_raw s of None \<Rightarrow> Inl (BadSize s) | Some n \<Rightarrow> Inr n)"

definition number_arg :: "string \<Rightarrow> parse_error + u64" where
  "number_arg s = (case parse_u64 s of None \<Rightarrow> Inl (BadNumber s) | Some n \<Rightarrow> Inr n)"

text \<open>The tokens after the verb: \<open>key=value\<close> arguments (the last one of a key wins) and flags.\<close>

fun tokens :: "string list \<Rightarrow> (string \<times> string) list \<times> string list \<Rightarrow>
    (string \<times> string) list \<times> string list" where
  "tokens [] acc = acc"
| "tokens (tok # toks) (args, flags) = (case split_once (\<lambda>c. c = CHR ''='') tok of
      Some (k, v) \<Rightarrow> tokens toks (AList.update k v args, flags)
    | None \<Rightarrow> tokens toks (args, flags @ [tok]))"

fun parse_pairs :: "(string \<times> string) list \<Rightarrow> parse_error + (string \<times> u64) list" where
  "parse_pairs [] = Inr []"
| "parse_pairs ((k, v) # kvs) =
     and_then (number_arg v) (\<lambda>n. and_then (parse_pairs kvs) (\<lambda>ps. Inr ((k, n) # ps)))"

definition parse_verb :: "string \<Rightarrow> (string \<times> string) list \<Rightarrow> string list \<Rightarrow> parse_error + step" where
  "parse_verb verb args flags =
     (if verb = ''write'' \<or> verb = ''write-fails'' then
        and_then (and_then (need verb args ''off'') size_arg) (\<lambda>off.
        and_then (and_then (need verb args ''len'') size_arg) (\<lambda>len.
        and_then (need verb args ''pattern'') (\<lambda>pat.
          Inr (Write off len pat (''fsync'' \<in> set flags) (verb = ''write-fails'')))))
      else if verb = ''expect'' then
        and_then (and_then (need verb args ''off'') size_arg) (\<lambda>off.
        and_then (and_then (need verb args ''len'') size_arg) (\<lambda>len.
        and_then (need verb args ''pattern'') (\<lambda>pat. Inr (Expect off len pat))))
      else if verb = ''flush'' then Inr Flush
      else if verb = ''crash'' then and_then (need verb args ''mode'') (\<lambda>mode. Inr (Crash mode))
      else if verb = ''set'' then
        and_then (parse_pairs args) (\<lambda>ps. if ps = [] then Inl NoPairs else Inr (Set (sort ps)))
      else if verb = ''thaw'' then and_then (need verb args ''result'') (\<lambda>r. Inr (Thaw r))
      else if verb = ''sleep'' then
        and_then (and_then (need verb args ''ms'') number_arg) (\<lambda>ms. Inr (Sleep ms))
      else Inl (UnknownVerb verb))"

definition parse_line :: "string \<Rightarrow> parse_error + step option" where
  "parse_line text =
     (let line = trim (takeWhile (\<lambda>c. c \<noteq> CHR ''#'') text) in
      if line = [] then Inr None
      else case (case split_once is_whitespace line of None \<Rightarrow> (line, []) | Some x \<Rightarrow> x) of (verb, rest0) \<Rightarrow>
        let rest = trim rest0 in
        if verb = ''run'' \<or> verb = ''fail'' then
          (if rest = [] then Inl (MissingCommand verb) else Inr (Some (Run rest (verb = ''run''))))
        else case tokens (split_whitespace rest) ([], []) of (args, flags) \<Rightarrow>
          and_then (parse_verb verb args flags) (\<lambda>st. Inr (Some st)))"

text \<open>
  \<open>fill_pattern\<close> of a buffer of \<open>n\<close> bytes: the FNV hash of the name, and per block of 4096
  bytes a generator seeded with the hash and the number of the block on the device.
\<close>

definition name_hash :: "string \<Rightarrow> u64" where
  "name_hash name = fold (\<lambda>c h. (h XOR of_nat (of_char c)) * 0x100000001b3) name 0xcbf29ce484222325"

function fill_block :: "u64 \<Rightarrow> nat \<Rightarrow> u8 list" where
  "fill_block s n = (if n = 0 then []
     else case rng_next s of (v, s') \<Rightarrow> take (min 8 n) (le_u64 v) @ fill_block s' (n - 8))"
  by pat_completeness auto
termination
  by (relation "measure snd") auto

function fill_blocks :: "u64 \<Rightarrow> u64 \<Rightarrow> nat \<Rightarrow> nat \<Rightarrow> u8 list" where
  "fill_blocks h blk i n = (if n = 0 then []
     else fill_block (h XOR (blk + of_nat i)) (min 4096 n) @ fill_blocks h blk (Suc i) (n - 4096))"
  by pat_completeness auto
termination
  by (relation "measure (\<lambda>(h, blk, i, n). n)") auto

declare fill_block.simps [simp del] fill_blocks.simps [simp del]

definition fill_pattern :: "string \<Rightarrow> u64 \<Rightarrow> nat \<Rightarrow> u8 list" where
  "fill_pattern name dev_off n =
     (if name = ''zero'' then replicate n 0 else fill_blocks (name_hash name) (dev_off div 4096) 0 n)"

text \<open>
  The outside of the runner: \<open>write_all_at\<close>, \<open>read_exact_at\<close>, \<open>sync_all\<close>, one exchange
  on the control socket (\<open>None\<close>: no answer) and a shell command (\<open>None\<close>: not started).
\<close>

record 'd outside =
  dev_write :: "u64 \<Rightarrow> u8 list \<Rightarrow> 'd \<Rightarrow> bool \<times> 'd"
  dev_read :: "u64 \<Rightarrow> nat \<Rightarrow> 'd \<Rightarrow> u8 list option \<times> 'd"
  dev_sync :: "'d \<Rightarrow> bool \<times> 'd"
  ctl_call :: "json \<Rightarrow> 'd \<Rightarrow> json option \<times> 'd"
  shell :: "string \<Rightarrow> 'd \<Rightarrow> bool option \<times> 'd"

datatype exec_error =
    Unaligned
  | FsyncFailed
  | WriteFailed
  | WriteSucceeded
  | ReadFailed
  | ContentMismatch u64
  | CtlFailed
  | ShellNotStarted
  | ShellStatus bool

text \<open>\<open>ctl\<close>: an answer that is not \<open>ok\<close> is an error.\<close>

definition ctl :: "'d outside \<Rightarrow> json \<Rightarrow> 'd \<Rightarrow> (exec_error + unit) \<times> 'd" where
  "ctl out req d = (case ctl_call out req d of (resp, d') \<Rightarrow>
     (case resp of None \<Rightarrow> Inl CtlFailed | Some v \<Rightarrow> if is_ok v then Inr () else Inl CtlFailed, d'))"

definition first_diff :: "u8 list \<Rightarrow> u8 list \<Rightarrow> nat" where
  "first_diff xs ys = length (takeWhile (\<lambda>(a, b). a = b) (zip xs ys))"

text \<open>The loop of \<open>expect\<close>, in pieces of 1 MiB.\<close>

function expect_loop :: "'d outside \<Rightarrow> u64 \<Rightarrow> u8 list \<Rightarrow> nat \<Rightarrow> 'd \<Rightarrow> (exec_error + unit) \<times> 'd" where
  "expect_loop out off want pos d =
     (if length want \<le> pos then (Inr (), d)
      else let n = min (length want - pos) (2 ^ 20) in
        case dev_read out (off + of_nat pos) n d of
          (None, d') \<Rightarrow> (Inl ReadFailed, d')
        | (Some buf, d') \<Rightarrow>
            let piece = take n (drop pos want) in
            if buf \<noteq> piece then (Inl (ContentMismatch (off + of_nat (pos + first_diff buf piece))), d')
            else expect_loop out off want (pos + n) d')"
  by pat_completeness auto
termination
  by (relation "measure (\<lambda>(out, off, want, pos, d). length want - pos)") auto

declare expect_loop.simps [simp del]

definition exec :: "'d outside \<Rightarrow> step \<Rightarrow> 'd \<Rightarrow> (exec_error + unit) \<times> 'd" where
  "exec out st d = (case st of
      Write off len pat fsync expect_error \<Rightarrow>
        if off mod 4096 \<noteq> 0 then (Inl Unaligned, d)
        else (case dev_write out off (fill_pattern pat off (unat len)) d of (ok, d') \<Rightarrow>
          (case (ok, expect_error) of
             (True, False) \<Rightarrow>
               if fsync then (case dev_sync out d' of (s, d'') \<Rightarrow> (if s then Inr () else Inl FsyncFailed, d''))
               else (Inr (), d')
           | (False, False) \<Rightarrow> (Inl WriteFailed, d')
           | (False, True) \<Rightarrow> (Inr (), d')
           | (True, True) \<Rightarrow> (Inl WriteSucceeded, d')))
    | Expect off len pat \<Rightarrow>
        if off mod 4096 \<noteq> 0 then (Inl Unaligned, d)
        else expect_loop out off (fill_pattern pat off (unat len)) 0 d
    | Flush \<Rightarrow> (case dev_sync out d of (s, d') \<Rightarrow> (if s then Inr () else Inl FsyncFailed, d'))
    | Crash mode \<Rightarrow> ctl out (JObj [(''cmd'', JStr ''crash''), (''mode'', JStr mode)]) d
    | Set pairs \<Rightarrow> ctl out (fold (\<lambda>(k, v) req. jset k (JNum (uint v)) req) pairs
        (JObj [(''cmd'', JStr ''set'')])) d
    | Thaw r \<Rightarrow> ctl out (JObj [(''cmd'', JStr ''thaw''), (''result'', JStr r)]) d
    | Sleep ms \<Rightarrow> (Inr (), d)
    | Run cmd expect_ok \<Rightarrow> (case shell out cmd d of
          (None, d') \<Rightarrow> (Inl ShellNotStarted, d')
        | (Some ok, d') \<Rightarrow> (if ok = expect_ok then Inr () else Inl (ShellStatus ok), d')))"

text \<open>
  The loop of \<open>run_file\<close>: the lines in order up to the first error, with its line number; the
  number of steps at the end.
\<close>

datatype run_error = AtLine nat "parse_error + exec_error"

fun run_lines :: "'d outside \<Rightarrow> nat \<Rightarrow> string list \<Rightarrow> nat \<Rightarrow> 'd \<Rightarrow> (run_error + nat) \<times> 'd" where
  "run_lines out lno [] steps d = (Inr steps, d)"
| "run_lines out lno (line # lines) steps d = (case parse_line line of
      Inl e \<Rightarrow> (Inl (AtLine (Suc lno) (Inl e)), d)
    | Inr None \<Rightarrow> run_lines out (Suc lno) lines steps d
    | Inr (Some st) \<Rightarrow> (case exec out st d of
          (Inl e, d') \<Rightarrow> (Inl (AtLine (Suc lno) (Inr e)), d')
        | (Inr _, d') \<Rightarrow> run_lines out (Suc lno) lines (Suc steps) d'))"

text \<open>
  \<open>str::lines\<close>: the pieces between line feeds, without the line feed and a carriage return before
  it; a line feed at the end does not start another line.
\<close>

definition strip_cr :: "string \<Rightarrow> string" where
  "strip_cr l = (if l \<noteq> [] \<and> last l = CHR 0x0D then butlast l else l)"

lemma split_once_shorter: "split_once p s = Some (l, rest) \<Longrightarrow> length rest < length s"
  using length_dropWhile_le [of "\<lambda>c. \<not> p c" s] by (auto simp: split_once_def split: list.splits)

function str_lines :: "string \<Rightarrow> string list" where
  "str_lines s =
     (if s = [] then []
      else case split_once (\<lambda>c. c = CHR 0x0A) s of
          None \<Rightarrow> [s]
        | Some (l, rest) \<Rightarrow> strip_cr l # str_lines rest)"
  by pat_completeness auto
termination
  by (relation "measure length") (auto dest: split_once_shorter)

declare str_lines.simps [simp del]

text \<open>
  \<open>run_file\<close>: the text of the file (\<open>None\<close>: unreadable), whether the device could be opened for
  direct I/O, and the run of its lines.
\<close>

datatype file_error = ScenarioUnreadable | DeviceNotOpened | LineFailed run_error

definition run_file :: "'d outside \<Rightarrow> string option \<Rightarrow> bool \<Rightarrow> 'd \<Rightarrow> (file_error + nat) \<times> 'd" where
  "run_file out text opened d = (case text of
      None \<Rightarrow> (Inl ScenarioUnreadable, d)
    | Some t \<Rightarrow>
        if \<not> opened then (Inl DeviceNotOpened, d)
        else (case run_lines out 0 (str_lines t) 0 d of
            (Inl e, d') \<Rightarrow> (Inl (LineFailed e), d')
          | (Inr n, d') \<Rightarrow> (Inr n, d')))"

section \<open>Lines\<close>

lemma str_lines_Nil [simp]: "str_lines [] = []"
  by (simp add: str_lines.simps)

lemma str_lines_Cons:
  assumes "CHR 0x0A \<notin> set l"
  shows "str_lines (l @ CHR 0x0A # rest) = strip_cr l # str_lines rest"
proof -
  have "takeWhile (\<lambda>c. c \<noteq> CHR 0x0A) (l @ CHR 0x0A # rest) = l"
    "dropWhile (\<lambda>c. c \<noteq> CHR 0x0A) (l @ CHR 0x0A # rest) = CHR 0x0A # rest"
    using assms by (auto simp: takeWhile_append dropWhile_append)
  then show ?thesis by (subst str_lines.simps) (simp add: split_once_def)
qed

text \<open>A text written line by line is read back line by line.\<close>

lemma str_lines_unlines:
  "list_all (\<lambda>l. CHR 0x0A \<notin> set l \<and> strip_cr l = l) ls \<Longrightarrow>
     str_lines (concat (map (\<lambda>l. l @ [CHR 0x0A]) ls)) = ls"
  by (induction ls) (simp_all add: str_lines_Cons)

text \<open>The outcome of one line, and how it decides the run.\<close>

definition line_result :: "'d outside \<Rightarrow> string \<Rightarrow> 'd \<Rightarrow> ((parse_error + exec_error) + bool) \<times> 'd" where
  "line_result out line d = (case parse_line line of
      Inl e \<Rightarrow> (Inl (Inl e), d)
    | Inr None \<Rightarrow> (Inr False, d)
    | Inr (Some st) \<Rightarrow> (case exec out st d of (Inl e, d') \<Rightarrow> (Inl (Inr e), d') | (Inr _, d') \<Rightarrow> (Inr True, d')))"

lemma run_lines_Cons:
  "run_lines out lno (line # ls) steps d = (case line_result out line d of
      (Inl e, d') \<Rightarrow> (Inl (AtLine (Suc lno) e), d')
    | (Inr b, d') \<Rightarrow> run_lines out (Suc lno) ls (steps + (if b then 1 else 0)) d')"
  by (simp add: line_result_def split: sum.split option.split prod.split)

declare run_lines.simps(2) [simp del]

lemma run_lines_stops:
  "run_lines out lno ls steps d = (Inl (AtLine k e), d') \<Longrightarrow>
     \<exists>i n d1. i < length ls \<and> k = Suc (lno + i) \<and> run_lines out lno (take i ls) steps d = (Inr n, d1) \<and>
       line_result out (ls ! i) d1 = (Inl e, d')"
proof (induction ls arbitrary: lno steps d)
  case (Cons line ls)
  obtain r d1 where r: "line_result out line d = (r, d1)" by fastforce
  show ?case
  proof (cases r)
    case (Inl x)
    with Cons.prems r show ?thesis by (intro exI [of _ "0 :: nat"] exI [of _ steps] exI [of _ d]) (simp add: run_lines_Cons)
  next
    case (Inr b)
    with Cons.prems r have "run_lines out (Suc lno) ls (steps + (if b then 1 else 0)) d1 = (Inl (AtLine k e), d')"
      by (simp add: run_lines_Cons)
    from Cons.IH [OF this] obtain i n d2 where "i < length ls" "k = Suc (Suc lno + i)"
        "run_lines out (Suc lno) (take i ls) (steps + (if b then 1 else 0)) d1 = (Inr n, d2)"
        "line_result out (ls ! i) d2 = (Inl e, d')"
      by blast
    then show ?thesis using r Inr
      by (intro exI [of _ "Suc i"] exI [of _ n] exI [of _ d2]) (simp add: run_lines_Cons)
  qed
qed simp

section \<open>Patterns\<close>

lemma fill_block_take: "m \<le> n \<Longrightarrow> take m (fill_block s n) = fill_block s m"
proof (induction s n arbitrary: m rule: fill_block.induct)
  case (1 s n)
  show ?case
  proof (cases "m = 0")
    case True
    then show ?thesis by (simp add: fill_block.simps [of s 0])
  next
    case False
    obtain v s' where v: "rng_next s = (v, s')" by fastforce
    have n: "n \<noteq> 0" "m \<noteq> 0" using False 1(2) by simp_all
    have "take m (fill_block s n) = take (min 8 m) (le_u64 v) @ take (m - 8) (fill_block s' (n - 8))"
      using n 1(2) v by (simp add: fill_block.simps [of s n] min_def)
    also have "take (m - 8) (fill_block s' (n - 8)) = fill_block s' (m - 8)"
      using 1(1) [OF n(1) v [symmetric]] 1(2) by simp
    finally show ?thesis using n v by (simp add: fill_block.simps [of s m])
  qed
qed

lemma length_fill_block [simp]: "length (fill_block s n) = n"
proof (induction s n rule: fill_block.induct)
  case (1 s n)
  then show ?case
    by (subst fill_block.simps) (auto split: prod.split)
qed

lemma length_fill_blocks [simp]: "length (fill_blocks h blk i n) = n"
proof (induction h blk i n rule: fill_blocks.induct)
  case (1 h blk i n)
  then show ?case by (subst fill_blocks.simps) auto
qed

lemma nth_fill_blocks:
  "j < n \<Longrightarrow> fill_blocks h blk i n ! j =
     fill_block (h XOR (blk + of_nat (i + j div 4096))) 4096 ! (j mod 4096)"
proof (induction h blk i n arbitrary: j rule: fill_blocks.induct)
  case (1 h blk i n)
  have eq: "fill_blocks h blk i n = fill_block (h XOR (blk + of_nat i)) (min 4096 n) @
      fill_blocks h blk (Suc i) (n - 4096)"
    using 1(2) by (subst fill_blocks.simps) simp
  show ?case
  proof (cases "j < 4096")
    case True
    then have "fill_blocks h blk i n ! j = fill_block (h XOR (blk + of_nat i)) (min 4096 n) ! j"
      using 1(2) by (simp add: eq nth_append)
    also have "\<dots> = take (min 4096 n) (fill_block (h XOR (blk + of_nat i)) 4096) ! j"
      by (simp add: fill_block_take)
    also have "\<dots> = fill_block (h XOR (blk + of_nat i)) 4096 ! j" using True 1(2) by simp
    finally show ?thesis using True by simp
  next
    case False
    then obtain k where k: "j = 4096 + k" by (metis le_Suc_ex not_less)
    then have "fill_blocks h blk i n ! j = fill_blocks h blk (Suc i) (n - 4096) ! k"
      using 1(2) by (simp add: eq nth_append)
    also have "\<dots> = fill_block (h XOR (blk + of_nat (Suc i + k div 4096))) 4096 ! (k mod 4096)"
      using 1(1) [of k] 1(2) k by simp
    finally have "fill_blocks h blk i n ! j =
        fill_block (h XOR (blk + of_nat (Suc i + k div 4096))) 4096 ! (k mod 4096)" .
    moreover have "Suc i + k div 4096 = i + j div 4096" "k mod 4096 = j mod 4096"
      by (simp_all add: k div_add1_eq)
    ultimately show ?thesis by (simp only:)
  qed
qed

text \<open>The byte a pattern has at a place of the device.\<close>

definition pattern_byte :: "string \<Rightarrow> nat \<Rightarrow> u8" where
  "pattern_byte name x = (if name = ''zero'' then 0
     else fill_block (name_hash name XOR of_nat (x div 4096)) 4096 ! (x mod 4096))"

lemma length_fill_pattern [simp]: "length (fill_pattern name off n) = n"
  by (simp add: fill_pattern_def)

lemma nth_fill_pattern:
  assumes "off mod 4096 = 0" and "j < n"
  shows "fill_pattern name off n ! j = pattern_byte name (unat off + j)"
proof (cases "name = ''zero''")
  case False
  have "unat (off mod 4096) = unat off mod 4096" by (simp add: unat_mod_distrib)
  then have "unat off mod 4096 = 0" using assms(1) by simp
  then have "(unat off + j) div 4096 = unat off div 4096 + j div 4096" "(unat off + j) mod 4096 = j mod 4096"
    by (simp_all add: div_add1_eq) (simp add: mod_add_eq [symmetric])
  moreover have "off div 4096 = of_nat (unat off div 4096)"
    by (simp add: word_arith_nat_div)
  ultimately show ?thesis
    using False assms(2) by (simp add: fill_pattern_def nth_fill_blocks pattern_byte_def)
qed (use assms(2) in \<open>simp add: fill_pattern_def pattern_byte_def\<close>)

section \<open>Reading back\<close>

lemma first_diff_ok:
  assumes "length xs = length ys" and "xs \<noteq> ys"
  shows "first_diff xs ys < length ys \<and> xs ! first_diff xs ys \<noteq> ys ! first_diff xs ys \<and>
    (\<forall>i<first_diff xs ys. xs ! i = ys ! i)"
  using assms
proof (induction xs ys rule: list_induct2)
  case (Cons x xs y ys)
  then show ?case by (cases "x = y") (auto simp: first_diff_def nth_Cons split: nat.split)
qed simp

text \<open>
  A device whose reads return what it holds: what \<open>expect\<close> relies on. The runner's verdict
  is proved once for all of them.
\<close>

definition verdict :: "u64 \<Rightarrow> u8 list \<Rightarrow> u8 list \<Rightarrow> (exec_error + unit) \<Rightarrow> bool" where
  "verdict off have want r \<longleftrightarrow> (if have = want then r = Inr ()
     else \<exists>k<length want. r = Inl (ContentMismatch (off + of_nat k)) \<and> have ! k \<noteq> want ! k \<and>
       (\<forall>i<k. have ! i = want ! i))"

lemma mismatch_verdict:
  assumes "length xs = length want" and "take pos xs = take pos want"
    and "take n (drop pos xs) \<noteq> take n (drop pos want)" and "pos + n \<le> length want"
  shows "verdict off xs want
    (Inl (ContentMismatch (off + of_nat (pos + first_diff (take n (drop pos xs)) (take n (drop pos want))))))"
proof -
  let ?a = "take n (drop pos xs)" and ?b = "take n (drop pos want)"
  let ?k = "first_diff ?a ?b"
  have lens: "length ?a = length ?b" "length ?b = n" using assms(1,4) by simp_all
  have k: "?k < n" "?a ! ?k \<noteq> ?b ! ?k" "\<forall>i<?k. ?a ! i = ?b ! i"
    using first_diff_ok [OF lens(1) assms(3)] unfolding lens(2) by blast+
  have at: "xs ! (pos + i) = ?a ! i" "want ! (pos + i) = ?b ! i" if "i < n" for i
    using that assms(1,4) by simp_all
  have "xs ! i = want ! i" if "i < pos + ?k" for i
  proof (cases "i < pos")
    case True
    then have "xs ! i = take pos xs ! i" "want ! i = take pos want ! i" by simp_all
    then show ?thesis using assms(2) by simp
  next
    case False
    then obtain j where j: "i = pos + j" by (metis le_Suc_ex not_less)
    then have "j < ?k" "j < n" using that k(1) by simp_all
    then show ?thesis using at [of j] k(3) by (simp only: j)
  qed
  moreover have "xs ! (pos + ?k) \<noteq> want ! (pos + ?k)" using at [OF k(1)] k(2) by simp
  moreover from this have "xs \<noteq> want" by metis
  moreover have "pos + ?k < length want" using k(1) assms(4) by linarith
  ultimately show ?thesis unfolding verdict_def by auto
qed

locale readable_device =
  fixes out :: "'d outside" and content :: "'d \<Rightarrow> u8 list" and ok :: "'d \<Rightarrow> bool"
  assumes read_law: "ok d \<Longrightarrow> unat off + n \<le> length (content d) \<Longrightarrow>
      \<exists>d'. dev_read out off n d = (Some (take n (drop (unat off) (content d))), d') \<and> ok d' \<and>
        content d' = content d"
    and size_law: "ok d \<Longrightarrow> length (content d) < 2 ^ 64"
begin

lemma prefix_grows:
  assumes "take p xs = take p ys" and "take n (drop p xs) = take n (drop p ys)"
  shows "take (p + n) xs = take (p + n) ys"
  using assms by (simp add: take_add)

lemma expect_loop_verdict:
  assumes "ok d" and "unat off + length want \<le> length (content d)" and "pos \<le> length want"
    and "take pos (drop (unat off) (content d)) = take pos want"
  shows "\<exists>r d'. expect_loop out off want pos d = (r, d') \<and> ok d' \<and> content d' = content d \<and>
    verdict off (take (length want) (drop (unat off) (content d))) want r"
  using assms
proof (induction "length want - pos" arbitrary: pos d rule: less_induct)
  case less
  let ?c = "content d" and ?H = "take (length want) (drop (unat off) (content d))"
  show ?case
  proof (cases "length want \<le> pos")
    case True
    then have "?H = want" using less.prems(3,4) by simp
    with True less.prems(1) show ?thesis by (subst expect_loop.simps) (simp add: verdict_def)
  next
    case False
    let ?n = "min (length want - pos) (2 ^ 20)"
    let ?buf = "take ?n (drop (unat off + pos) ?c)" and ?piece = "take ?n (drop pos want)"
    have u: "unat (off + of_nat pos) = unat off + pos"
      using less.prems size_law [OF less.prems(1)] by (intro unat_add_of_nat) simp
    have "unat (off + of_nat pos) + ?n \<le> length ?c" using u less.prems(2) False by simp
    from read_law [OF less.prems(1) this] obtain d1 where
      d1: "dev_read out (off + of_nat pos) ?n d = (Some ?buf, d1)" "ok d1" "content d1 = ?c"
      by (auto simp: u)
    have H: "?buf = take ?n (drop pos ?H)" "length ?H = length want" "take pos ?H = take pos want"
      using less.prems(2-4) False by (simp_all add: drop_take min_def add.commute) linarith
    show ?thesis
    proof (cases "?buf = ?piece")
      case True
      have pre: "take (pos + ?n) (drop (unat off) (content d1)) = take (pos + ?n) want"
        unfolding d1(3) by (rule prefix_grows [OF less.prems(4)]) (use True in \<open>simp add: add.commute\<close>)
      have n: "0 < ?n" using False by simp
      have "\<exists>r d'. expect_loop out off want (pos + ?n) d1 = (r, d') \<and> ok d' \<and> content d' = content d1 \<and>
          verdict off (take (length want) (drop (unat off) (content d1))) want r"
        by (rule less.hyps [OF _ d1(2) _ _ pre]) (use n False less.prems(2) d1(3) in simp_all)
      moreover have "expect_loop out off want pos d = expect_loop out off want (pos + ?n) d1"
        using False d1(1) True by (subst expect_loop.simps) (simp add: Let_def)
      ultimately show ?thesis using d1(3) by simp
    next
      case ne: False
      have "expect_loop out off want pos d = (Inl (ContentMismatch (off + of_nat (pos + first_diff ?buf ?piece))), d1)"
        using False d1(1) ne by (subst expect_loop.simps) (simp add: Let_def)
      moreover have "verdict off ?H want (Inl (ContentMismatch (off + of_nat (pos + first_diff ?buf ?piece))))"
        unfolding H(1) by (rule mismatch_verdict [OF H(2,3)]) (use ne False in \<open>simp_all only: H(1) [symmetric]\<close>, simp_all)
      ultimately show ?thesis using d1(2,3) by auto
    qed
  qed
qed

lemma expect_verdict:
  assumes "ok d" and "unat off + unat len \<le> length (content d)" and "off mod 4096 = 0"
  shows "\<exists>r d'. exec out (Expect off len pat) d = (r, d') \<and> ok d' \<and> content d' = content d \<and>
    verdict off (take (unat len) (drop (unat off) (content d))) (fill_pattern pat off (unat len)) r"
  using expect_loop_verdict [of d off "fill_pattern pat off (unat len)" 0] assms
  by (simp add: exec_def)

end

section \<open>The fault device\<close>

text \<open>
  A scenario run against a ublkfault device itself: the device requests reach the model, the
  control requests \<open>handle_ctl\<close>. A write counts as done when it returns its length.
\<close>

definition fault_device :: "abi \<Rightarrow> (string \<Rightarrow> bool option) \<Rightarrow> shared outside" where
  "fault_device K sh_run = \<lparr>
     dev_write = (\<lambda>off data s. case model_write (EIO K) off data (sh_model s) of
        None \<Rightarrow> (False, s)
      | Some (res, m) \<Rightarrow> (res = of_nat (length data), s\<lparr>sh_model := m\<rparr>)),
     dev_read = (\<lambda>off n s. case model_read off n (sh_model s) of
        None \<Rightarrow> (None, s) | Some (buf, m) \<Rightarrow> (Some buf, s\<lparr>sh_model := m\<rparr>)),
     dev_sync = (\<lambda>s. case model_flush (sh_model s) of
        None \<Rightarrow> (False, s) | Some m \<Rightarrow> (True, s\<lparr>sh_model := m\<rparr>)),
     ctl_call = (\<lambda>req s. case handle_ctl K (Inr req) s of
        None \<Rightarrow> (None, s) | Some (s', v) \<Rightarrow> (Some v, s')),
     shell = (\<lambda>cmd s. (sh_run cmd, s))\<rparr>"

interpretation fdev: readable_device "fault_device K sh_run" "\<lambda>s. view (sh_model s)" "\<lambda>s. model_wf (sh_model s)"
  for K sh_run
proof
  fix d :: shared and off :: u64 and n :: nat
  assume "model_wf (sh_model d)" "unat off + n \<le> length (view (sh_model d))"
  then show "\<exists>d'. dev_read (fault_device K sh_run) off n d =
      (Some (take n (drop (unat off) (view (sh_model d)))), d') \<and> model_wf (sh_model d') \<and>
      view (sh_model d') = view (sh_model d)"
    by (simp add: fault_device_def model_read_ok)
next
  fix d :: shared
  assume "model_wf (sh_model d)"
  then show "length (view (sh_model d)) < 2 ^ 64" by (simp add: model_wf_def view_def)
qed

lemma crash_command:
  assumes "model_wf (sh_model s)" and "volatile (sh_model s) = []" and "mode = ''drop'' \<or> mode = ''seeded''"
  shows "\<exists>s'. exec (fault_device K sh_run) (Crash mode) s = (Inr (), s') \<and> model_wf (sh_model s') \<and>
    view (sh_model s') = view (sh_model s)"
proof -
  have "\<exists>rep m'. model_crash c (sh_model s) = Some (rep, m') \<and> model_wf m' \<and> view m' = view (sh_model s)" for c
  proof -
    obtain rep m' ps where m': "model_crash c (sh_model s) = Some (rep, m')" "model_wf m'" "volatile m' = []"
        "committed m' = fold put ps (committed (sh_model s))" "subseq ps (cache_blocks (sh_model s))"
      using model_crash_ok [OF assms(1), of c] by blast
    have "ps = []" using m'(5) assms(2) by (simp add: cache_blocks_def)
    then show ?thesis using m' assms(2) by (simp add: view_def)
  qed
  from this [of Drop] this [of Seeded] show ?thesis using assms(3)
    by (auto simp: exec_def ctl_def fault_device_def handle_ctl_def as_str_def ctl_crash_def is_ok_def)
qed

section \<open>Properties\<close>

text \<open>
  C32. Patterns are anchored to the device: the buffer filled for a 4K-aligned offset holds at
  every position the byte that the pattern has at that place of the device, so writes and
  checks of the same pattern agree however they are split.
\<close>

theorem fill_pattern_anchored:
  assumes "off mod 4096 = 0"
  shows "fill_pattern name off n = map (pattern_byte name) [unat off..<unat off + n]"
  using nth_fill_pattern [OF assms] by (intro nth_equalityI) simp_all

theorem fill_pattern_anchored_witness:
  "fill_pattern ''p'' 8192 100 = map (pattern_byte ''p'') [8192..<8292]"
  using fill_pattern_anchored [of 8192 "''p''" 100] by simp

text \<open>
  C31. \<open>expect\<close> decides: on the fault device, for an aligned range inside it, the step succeeds
  exactly when every byte a reader sees there is the pattern's, and otherwise fails with the
  offset of the first byte that differs; it changes nothing a reader sees. Lengths over the
  1 MiB piece are included.
\<close>

theorem expect_decides:
  assumes "model_wf (sh_model s)" and "unat off + unat len \<le> length (view (sh_model s))"
    and "off mod 4096 = 0"
  shows "\<exists>r s'. exec (fault_device K sh_run) (Expect off len pat) s = (r, s') \<and>
    view (sh_model s') = view (sh_model s) \<and>
    (let here = take (unat len) (drop (unat off) (view (sh_model s)));
         want = fill_pattern pat off (unat len)
     in if here = want then r = Inr ()
        else \<exists>k<unat len. r = Inl (ContentMismatch (off + of_nat k)) \<and> here ! k \<noteq> want ! k \<and>
          (\<forall>i<k. here ! i = want ! i))"
proof -
  from fdev.expect_verdict [OF assms, where K = K and sh_run = sh_run and pat = pat]
  obtain r s' where "exec (fault_device K sh_run) (Expect off len pat) s = (r, s')"
      "view (sh_model s') = view (sh_model s)"
      "verdict off (take (unat len) (drop (unat off) (view (sh_model s)))) (fill_pattern pat off (unat len)) r"
    by blast
  then show ?thesis unfolding verdict_def Let_def length_fill_pattern
    by (intro exI [of _ r] exI [of _ s'] conjI)
qed

theorem expect_decides_witness:
  "\<exists>r s'. exec (fault_device linux_abi (\<lambda>_. None)) (Expect 4096 4096 ''zero'') ex_shared = (r, s') \<and> r = Inr ()"
proof -
  have wf: "model_wf (sh_model ex_shared)"
    by (simp add: ex_shared_def serve_shared_def model_new_def model_wf_def)
  have v: "view (sh_model ex_shared) = replicate 8192 0"
    by (simp add: ex_shared_def serve_shared_def model_new_def view_def)
  have "fill_pattern ''zero'' 4096 (unat (4096 :: u64)) =
      take (unat (4096 :: u64)) (drop (unat (4096 :: u64)) (view (sh_model ex_shared)))"
    by (simp add: fill_pattern_def v)
  with expect_decides [OF wf, of 4096 4096 linux_abi "\<lambda>_. None" "''zero''"] v show ?thesis
    by (auto simp: Let_def)
qed



end
