(* ===== verification/Fault_Cli.thy ===== *)
theory Fault_Cli
  imports Scenario
begin

text \<open>
  The command line of ublkfault (\<^verbatim>\<open>src/ublkfault/src/main.rs\<close>): the subcommands as clap
  hands them to \<open>main\<close>, the start of the server with the order of its effects, the control
  requests the others send and the verdict on the answer, and the control loop of the server
  with its connections.
\<close>

section \<open>The code\<close>

datatype fault_cmd =
    FServe u64 u32 u64 u64 string policy u16 u16
  | FStatus
  | FSet "u32 option" "u32 option" "u32 option"
  | FCrash string
  | FThaw string
  | FScenario "string list"

definition fault_parse_size :: "string \<Rightarrow> u64 option" where
  "fault_parse_size s = (case size_suffix (trim s) of (num, mul) \<Rightarrow>
     map_option (\<lambda>n. n * mul) (parse_u64 num))"

text \<open>A missing option is serialised as null.\<close>

definition opt_num :: "u32 option \<Rightarrow> json" where
  "opt_num v = (case v of None \<Rightarrow> JNull | Some n \<Rightarrow> JNum (uint n))"

definition client_req :: "fault_cmd \<Rightarrow> json option" where
  "client_req c = (case c of
      FStatus \<Rightarrow> Some (JObj [(''cmd'', JStr ''status'')])
    | FSet e f h \<Rightarrow> Some (JObj [(''cmd'', JStr ''set''), (''error_pm'', opt_num e),
        (''flush_lie_pm'', opt_num f), (''hang_pm'', opt_num h)])
    | FCrash mode \<Rightarrow> Some (JObj [(''cmd'', JStr ''crash''), (''mode'', JStr mode)])
    | FThaw res \<Rightarrow> Some (JObj [(''cmd'', JStr ''thaw''), (''result'', JStr res)])
    | _ \<Rightarrow> None)"

text \<open>\<open>request\<close>: the answer (\<open>None\<close>: no connection or no JSON) must be \<open>ok\<close>.\<close>

definition request_ok :: "json option \<Rightarrow> bool" where
  "request_ok resp = (case resp of None \<Rightarrow> False | Some v \<Rightarrow> is_ok v)"

text \<open>
  The \<open>scenario\<close> subcommand: the files in order, each given by what reading it returned, up to
  the first one that fails.
\<close>

fun run_files :: "'d outside \<Rightarrow> bool \<Rightarrow> string option list \<Rightarrow> 'd \<Rightarrow> (file_error + unit) \<times> 'd" where
  "run_files out opened [] d = (Inr (), d)"
| "run_files out opened (f # fs) d = (case run_file out f opened d of
      (Inl e, d') \<Rightarrow> (Inl e, d')
    | (Inr _, d') \<Rightarrow> run_files out opened fs d')"

text \<open>
  \<open>serve\<close>: its effects in order. The environment answers whether the eventfd and the socket
  could be made, the buffer limit of the new control device, and what \<open>run_target\<close> did: the id
  under which the device became ready, if it did, and whether it returned without an error.
\<close>

datatype serve_action =
    RemoveFile string
  | BindSocket string
  | SpawnControlLoop shared
  | BuildDevice string i32 u16 u16 u32
  | RunTarget u64 ublk_params
  | PrintReady json

datatype serve_error = BadGeometry | EventfdFailed | SocketFailed | DeviceFailed | TargetFailed

record serve_env =
  se_efd :: bool
  se_bind :: bool
  se_build :: "u32 option"
  se_ready :: "u32 option"
  se_run :: bool

definition ready_json :: "u32 \<Rightarrow> u64 \<Rightarrow> u32 \<Rightarrow> u64 \<Rightarrow> json" where
  "ready_json i sz bs seed = JObj [(''ok'', JBool True), (''dev_id'', JNum (uint i)),
     (''bdev'', JStr (''/dev/ublkb'' @ decimal (unat i))), (''size'', JNum (uint sz)),
     (''lbs'', JNum (uint bs)), (''seed'', JNum (uint seed))]"

definition fault_serve :: "abi \<Rightarrow> serve_env \<Rightarrow> u64 \<Rightarrow> u32 \<Rightarrow> u64 \<Rightarrow> u64 \<Rightarrow> string \<Rightarrow> policy \<Rightarrow>
    u16 \<Rightarrow> u16 \<Rightarrow>
    serve_action list \<times> (serve_error + unit)" where
  "fault_serve K env sz bs seed cache sock pol queues depth =
     (if \<not> se_efd env then ([], Inl EventfdFailed)
      else if \<not> se_bind env then ([RemoveFile sock], Inl SocketFailed)
      else let started = [RemoveFile sock, BindSocket sock, SpawnControlLoop (serve_shared sz bs seed cache pol)] in
        case se_build env of
          None \<Rightarrow> (started, Inl DeviceFailed)
        | Some max_io \<Rightarrow>
            (started @ [BuildDevice ''ublkfault'' (- 1) queues depth (512 * 1024),
                RunTarget sz (fault_params K max_io sz bs)] @
               (case se_ready env of None \<Rightarrow> [] | Some i \<Rightarrow> [PrintReady (ready_json i sz bs seed)]),
             if se_run env then Inr () else Inl TargetFailed))"

text \<open>\<open>main\<close>: the exit status, with the actions of a server; \<open>None\<close> is a panic.\<close>

record 'd fault_env =
  fe_serve :: serve_env
  fe_reply :: "json \<Rightarrow> json option"
  fe_text :: "string \<Rightarrow> string option"
  fe_open :: bool
  fe_outside :: "'d outside"

definition fault_main :: "abi \<Rightarrow> 'd fault_env \<Rightarrow> fault_cmd \<Rightarrow> 'd \<Rightarrow> (bool \<times> serve_action list \<times> 'd) option" where
  "fault_main K env c d = (case c of
      FServe sz bs seed cache sock pol queues depth \<Rightarrow>
        (case serve_check sz bs of
           None \<Rightarrow> None
         | Some False \<Rightarrow> Some (False, [], d)
         | Some True \<Rightarrow> (case fault_serve K (fe_serve env) sz bs seed cache sock pol queues depth of
             (acts, r) \<Rightarrow> Some (\<not> is_err r, acts, d)))
    | FScenario files \<Rightarrow>
        (case run_files (fe_outside env) (fe_open env) (map (fe_text env) files) d of
           (r, d') \<Rightarrow> Some (\<not> is_err r, [], d'))
    | _ \<Rightarrow> Some (request_ok (Option.bind (client_req c) (fe_reply env)), [], d))"

text \<open>
  \<open>control_loop\<close>: a connection is the lines that can be read from it, each with the answer
  whether the reply could be written; the first reply that cannot be written ends it.
  A connection that cannot be cloned (\<open>None\<close>) is skipped. The replies that were written
  are returned in order.
\<close>

fun conn_loop :: "abi \<Rightarrow> ((string + json) \<times> bool) list \<Rightarrow> shared \<Rightarrow> (shared \<times> json list) option" where
  "conn_loop K [] sh = Some (sh, [])"
| "conn_loop K ((req, written) # ls) sh = (case handle_ctl K req sh of
      None \<Rightarrow> None
    | Some (sh', resp) \<Rightarrow>
        if written then map_option (\<lambda>(sh'', rs). (sh'', resp # rs)) (conn_loop K ls sh')
        else Some (sh', []))"

fun control_loop :: "abi \<Rightarrow> ((string + json) \<times> bool) list option list \<Rightarrow> shared \<Rightarrow>
    (shared \<times> json list list) option" where
  "control_loop K [] sh = Some (sh, [])"
| "control_loop K (None # cs) sh = control_loop K cs sh"
| "control_loop K (Some ls # cs) sh = (case conn_loop K ls sh of
      None \<Rightarrow> None
    | Some (sh', rs) \<Rightarrow> map_option (\<lambda>(sh'', rss). (sh'', rs # rss)) (control_loop K cs sh'))"

section \<open>The loop never panics\<close>

definition sh_ok :: "shared \<Rightarrow> bool" where
  "sh_ok sh \<longleftrightarrow> model_wf (sh_model sh) \<and> policy_ok (policy (sh_model sh))"

definition sh_same :: "shared \<Rightarrow> shared \<Rightarrow> bool" where
  "sh_same sh sh' \<longleftrightarrow> parked sh' = parked sh \<and>
     length (committed (sh_model sh')) = length (committed (sh_model sh))"

lemma handle_ctl_keeps:
  assumes "sh_ok sh"
  shows "\<exists>sh' v. handle_ctl K req sh = Some (sh', v) \<and> sh_ok sh' \<and> sh_same sh sh'"
proof -
  obtain sh' v where v: "handle_ctl K req sh = Some (sh', v)" "model_wf (sh_model sh')"
      "parked sh' = parked sh" "length (committed (sh_model sh')) = length (committed (sh_model sh))"
    using handle_ctl_ok [of sh K req] assms by (auto simp: sh_ok_def)
  moreover from v(1) have "policy_ok (policy (sh_model sh'))"
    using handle_ctl_policy assms by (auto simp: sh_ok_def)
  ultimately show ?thesis by (simp add: sh_ok_def sh_same_def)
qed

lemma sh_same_trans: "sh_same a b \<Longrightarrow> sh_same b c \<Longrightarrow> sh_same a c"
  by (simp add: sh_same_def)

definition answered :: "((string + json) \<times> bool) list \<Rightarrow> json list \<Rightarrow> bool" where
  "answered ls rs \<longleftrightarrow> length rs = length (takeWhile snd ls)"

lemma conn_loop_total:
  "sh_ok sh \<Longrightarrow> \<exists>sh' rs. conn_loop K ls sh = Some (sh', rs) \<and> sh_ok sh' \<and> sh_same sh sh' \<and> answered ls rs"
proof (induction ls arbitrary: sh)
  case Nil
  then show ?case by (simp add: sh_same_def answered_def)
next
  case (Cons l ls)
  obtain req written where l: "l = (req, written)" by (cases l)
  obtain sh1 v where v: "handle_ctl K req sh = Some (sh1, v)" "sh_ok sh1" "sh_same sh sh1"
    using handle_ctl_keeps [OF Cons.prems] by blast
  from Cons.IH [OF v(2)] obtain sh2 rs where "conn_loop K ls sh1 = Some (sh2, rs)" "sh_ok sh2"
      "sh_same sh1 sh2" "answered ls rs"
    by blast
  with v show ?case using sh_same_trans by (auto simp: l answered_def)
qed

section \<open>Properties\<close>

text \<open>
  C34. The control loop of the fault device survives its clients: for every sequence of
  connections, lines that are not JSON, unknown commands, out-of-range values and replies
  that cannot be written, no command panics, the policy stays in its range, the size of the
  device and the parked requests are untouched, and every connection gets one reply per
  line up to the first reply that cannot be written.
\<close>

theorem control_loop_total:
  assumes "sh_ok sh"
  shows "\<exists>sh' rss. control_loop K cs sh = Some (sh', rss) \<and> sh_ok sh' \<and> sh_same sh sh' \<and>
    list_all2 answered (List.map_filter (\<lambda>c. c) cs) rss"
  using assms
proof (induction cs arbitrary: sh)
  case Nil
  then show ?case by (simp add: sh_same_def map_filter_simps)
next
  case (Cons c cs)
  show ?case
  proof (cases c)
    case None
    then show ?thesis using Cons by (simp add: map_filter_simps)
  next
    case (Some ls)
    obtain sh1 rs where c: "conn_loop K ls sh = Some (sh1, rs)" "sh_ok sh1" "sh_same sh sh1" "answered ls rs"
      using conn_loop_total [OF Cons.prems] by blast
    from Cons.IH [OF c(2)] obtain sh2 rss where "control_loop K cs sh1 = Some (sh2, rss)" "sh_ok sh2"
        "sh_same sh1 sh2" "list_all2 answered (List.map_filter (\<lambda>c. c) cs) rss"
      by blast
    with c Some show ?thesis using sh_same_trans by (auto simp: map_filter_simps)
  qed
qed

theorem control_loop_total_witness:
  "\<exists>sh' rss. control_loop linux_abi [Some [(Inl ''eof'', True), (Inr JNull, False)], None] ex_shared = Some (sh', rss) \<and>
     map length rss = [1]"
proof -
  have "sh_ok ex_shared"
    by (simp add: sh_ok_def ex_shared_def serve_shared_def model_new_def model_wf_def policy_ok_def)
  from control_loop_total [OF this, of linux_abi "[Some [(Inl ''eof'', True), (Inr JNull, False)], None]"]
  show ?thesis by (auto simp: map_filter_simps answered_def list_all2_Cons1)
qed

text \<open>
  \<open>ublkfault set\<close> changes exactly what it was given: the server answers ok iff every given
  value is at most 1000, and then the given fields of the policy have the given values and
  the fields left out, the cache, the statistics and the parked requests are as before; a
  rejected command changes at most the policy.
\<close>

theorem set_command_effect:
  shows "\<exists>sh' v. handle_ctl K (Inr (the (client_req (FSet e f h)))) sh = Some (sh', v) \<and>
    (is_ok v \<longleftrightarrow> list_all (\<lambda>x. x \<le> 1000) (List.map_filter (\<lambda>x. x) [e, f, h])) \<and>
    (if is_ok v then sh' = sh\<lparr>sh_model := (sh_model sh)\<lparr>policy :=
       (let pol = policy (sh_model sh) in
        \<lparr>error_pm = case_option (error_pm pol) (\<lambda>x. x) e,
         flush_lie_pm = case_option (flush_lie_pm pol) (\<lambda>x. x) f,
         hang_pm = case_option (hang_pm pol) (\<lambda>x. x) h\<rparr>)\<rparr>\<rparr>
     else sh'\<lparr>sh_model := (sh_model sh')\<lparr>policy := x\<rparr>\<rparr> = sh\<lparr>sh_model := (sh_model sh)\<lparr>policy := x\<rparr>\<rparr>)"
proof -
  have num: "as_u64 (opt_num v) = map_option uint v" for v
    using uint_lt2p [where x = "the v"] by (cases v) (simp_all add: opt_num_def as_u64_def, fastforce?)
  have le: "1000 < uint x \<longleftrightarrow> \<not> x \<le> 1000" for x :: u32
    by (simp add: word_le_def not_le)
  show ?thesis
    by (cases e; cases f; cases h)
      (simp_all add: client_req_def handle_ctl_def as_str_def ctl_set_def policy_fields_def num le
        map_filter_simps is_ok_def err_reply_def Let_def)
qed

lemma fault_parse_size_eq: "fault_parse_size s = parse_size s"
  by (simp add: fault_parse_size_def parse_size_def parse_size_raw_def)

section \<open>The announced geometry\<close>

lemma power_of_two32:
  assumes "is_power_of_two32 w"
  obtains k where "k < 32" and "w = 2 ^ k"
proof -
  from assms obtain k where f: "filter (bit w) [0..<32] = [k]"
    unfolding is_power_of_two32_def by (metis length_0_conv length_Suc_conv One_nat_def)
  have "set (filter (bit w) [0..<32]) = {i. i < 32 \<and> bit w i}" by auto
  then have bits: "{i. i < 32 \<and> bit w i} = {k}" unfolding f by simp
  then have k: "k < 32" by blast
  have "w = 2 ^ k"
  proof (rule bit_word_eqI)
    fix n assume "n < LENGTH(32)"
    then show "bit w n \<longleftrightarrow> bit (2 ^ k :: u32) n" using bits k by (auto simp: bit_exp_iff)
  qed
  with k show ?thesis by (rule that)
qed

lemma trailing_zeros_exp:
  assumes "k < 32"
  shows "trailing_zeros (2 ^ k) = k"
proof -
  have up: "[0..<32] = [0..<k] @ k # [Suc k..<32]"
    using upt_add_eq_append [of 0 k "32 - k"] upt_conv_Cons [of k 32] assms by simp
  have "takeWhile (\<lambda>i. \<not> bit (2 ^ k :: u32) i) [0..<32] = [0..<k]"
    unfolding up using assms by (subst takeWhile_append2) (auto simp: bit_exp_iff)
  then show ?thesis by (simp add: trailing_zeros_def)
qed

lemma geometry_block:
  assumes "k < 32" and "bs = (2 ^ k :: u32)"
  shows "unat bs = 2 ^ k"
proof -
  have "(2 :: nat) ^ k < 2 ^ 32" using assms(1) by (rule power_strict_increasing) simp
  then show ?thesis using unat_of_nat_less [where 'a = 32, of "2 ^ k"] assms(2) by simp
qed

lemma serve_check_geometry:
  assumes "serve_check sz bs = Some True"
  obtains k where "9 \<le> k" and "k < 32" and "bs = 2 ^ k" and "unat sz mod 2 ^ k = 0" and "sz \<noteq> 0"
proof -
  from assms have c: "sz \<noteq> 0" "sz mod ucast bs = 0" "is_power_of_two32 bs" "512 \<le> bs"
    by (auto simp: serve_check_def split: if_splits)
  from power_of_two32 [OF c(3)] obtain k where k: "k < 32" "bs = 2 ^ k" by blast
  have bs: "unat bs = 2 ^ k" by (rule geometry_block [OF k])
  then have "2 ^ 9 \<le> (2 :: nat) ^ k" using c(4) by (simp add: word_le_nat_alt)
  then have nine: "9 \<le> k" by (simp only: power_increasing_iff one_less_numeral_iff semiring_norm)
  have "unat (ucast bs :: u64) = 2 ^ k"
    using unat_u32_less [of bs] unfolding bs [symmetric] by (simp add: unsigned_ucast_eq take_bit_nat_eq_self)
  then have rem: "unat sz mod 2 ^ k = 0" using arg_cong [OF c(2), of unat] by (simp add: unat_mod_distrib)
  show ?thesis by (rule that [OF nine k rem c(1)])
qed

text \<open>
  C37. What a started fault device announces is what was asked for. When \<open>serve\<close> prints its ready
  line, the arguments passed the checks, and before that line it has bound the socket, started
  the control loop and started the target, in this order; the announced block size is the
  argument \<open>lbs\<close>, a power of two of at least 512, the sectors are the whole size, discards have the
  granularity of a block, the line carries the id under which the device exists, and the model
  behind it is well-formed, has the policy that was asked for and no parked request.
\<close>

theorem serve_announces_geometry:
  assumes "fault_main K env (FServe sz bs seed cache sock pol queues depth) d = Some (ok, acts, d')"
    and "PrintReady v \<in> set acts" and "unat sz + unat cache + 1 < 2 ^ 64"
  shows "\<exists>max_io i p sh. se_build (fe_serve env) = Some max_io \<and> se_ready (fe_serve env) = Some i \<and>
    acts = [RemoveFile sock, BindSocket sock, SpawnControlLoop sh,
      BuildDevice ''ublkfault'' (- 1) queues depth (512 * 1024), RunTarget sz p, PrintReady v] \<and>
    v = ready_json i sz bs seed \<and> p = fault_params K max_io sz bs \<and>
    unat bs = 2 ^ unat (logical_bs_shift p) \<and> 512 \<le> bs \<and> unat (dev_sectors p) * 512 = unat sz \<and>
    discard_granularity p = bs \<and> model_wf (sh_model sh) \<and> policy (sh_model sh) = pol \<and> parked sh = []"
proof -
  have chk: "serve_check sz bs = Some True"
    using assms(1,2) by (auto simp: fault_main_def split: option.splits bool.splits)
  have srv: "acts = fst (fault_serve K (fe_serve env) sz bs seed cache sock pol queues depth)"
    using assms(1) chk by (simp add: fault_main_def split_beta)
  from assms(2) obtain max_io i where env: "se_efd (fe_serve env)" "se_bind (fe_serve env)"
      "se_build (fe_serve env) = Some max_io" "se_ready (fe_serve env) = Some i"
    unfolding srv by (cases "se_ready (fe_serve env)") (auto simp: fault_serve_def Let_def split: if_splits option.splits)
  from serve_check_geometry [OF chk] obtain k where k: "9 \<le> k" "k < 32" "bs = 2 ^ k"
      "unat sz mod 2 ^ k = 0" "sz \<noteq> 0" by blast
  have bs: "unat bs = 2 ^ k" by (rule geometry_block [OF k(2,3)])
  have "unat sz mod 512 = 0"
    using dvd_trans [OF le_imp_power_dvd [OF k(1), of "2 :: nat"], of "unat sz"] k(4)
    by (simp add: dvd_eq_mod_eq_0)
  then have sec: "unat (drop_bit 9 sz) * 512 = unat sz"
    by (simp add: drop_bit_eq_div unat_div_distrib mod_0_imp_dvd)
  let ?sh = "serve_shared sz bs seed cache pol"
  have "model_wf (sh_model ?sh)" "policy (sh_model ?sh) = pol" "parked ?sh = []"
    using assms(3) k(2,3) bs by (auto simp: model_wf_def serve_shared_def model_new_def)
  moreover have "512 \<le> bs"
    using chk by (auto simp: serve_check_def split: if_splits)
  ultimately show ?thesis
    using env bs sec k(2,3) trailing_zeros_exp [OF k(2)] assms(2) unfolding srv
    by (auto simp: fault_serve_def fault_params_def Let_def unat_of_nat_less)
qed

definition ex_serve_env :: serve_env where
  "ex_serve_env = \<lparr>se_efd = True, se_bind = True, se_build = Some 524288, se_ready = Some 3, se_run = True\<rparr>"

definition ex_fault_env :: "shared fault_env" where
  "ex_fault_env = \<lparr>fe_serve = ex_serve_env, fe_reply = (\<lambda>_. None), fe_text = (\<lambda>_. None), fe_open = True,
     fe_outside = fault_device linux_abi (\<lambda>_. None)\<rparr>"

theorem serve_announces_geometry_witness:
  "\<exists>p. RunTarget 8192 p \<in> set (fst (snd (the (fault_main linux_abi ex_fault_env
     (FServe 8192 512 1 1024 ''s'' \<lparr>error_pm = 0, flush_lie_pm = 0, hang_pm = 0\<rparr> 1 64) ex_shared)))) \<and>
   unat (dev_sectors p) * 512 = 8192 \<and> 512 = (2 :: nat) ^ unat (logical_bs_shift p)"
proof -
  let ?c = "FServe 8192 512 1 1024 ''s'' \<lparr>error_pm = 0, flush_lie_pm = 0, hang_pm = 0\<rparr> 1 64"
  have two: "is_power_of_two32 512" by (simp add: is_power_of_two32_def upt_rec)
  have chk: "serve_check 8192 512 = Some True" using two by (simp add: serve_check_def)
  obtain ok acts d' where m: "fault_main linux_abi ex_fault_env ?c ex_shared = Some (ok, acts, d')"
      "PrintReady (ready_json 3 8192 512 1) \<in> set acts"
    using chk by (simp add: fault_main_def fault_serve_def ex_fault_env_def ex_serve_env_def Let_def)
  from serve_announces_geometry [OF m] show ?thesis unfolding m(1) by auto
qed



end
