(* ===== verification/Fault_Tests.thy ===== *)
theory Fault_Tests
  imports Scenario Era_Tests
begin

text \<open>
  The unit tests of \<^verbatim>\<open>src/ublkfault/src/model.rs\<close> and \<^verbatim>\<open>src/ublkfault/src/scenario.rs\<close>, translated
  as in \<open>Era_Tests\<close>, and that they pass on the model.
\<close>

section \<open>The tests of the model\<close>

definition default_policy :: policy where
  "default_policy = \<lparr>error_pm = 0, flush_lie_pm = 0, hang_pm = 0\<rparr>"

definition test_model :: "u64 \<Rightarrow> policy \<Rightarrow> model" where
  "test_model seed pol = model_new (2 ^ 20) 4096 (2 ^ 19) seed pol"

definition read_at :: "u64 \<Rightarrow> nat \<Rightarrow> model \<Rightarrow> (u8 list \<times> model) option" where
  "read_at off n m = model_read off n m"

definition test_read_your_writes :: "i32 \<Rightarrow> unit option" where
  "test_read_your_writes eio = do {
     let m = test_model 1 default_policy;
     (_, m) \<leftarrow> model_write eio 8192 (replicate 4096 7) m;
     (buf, m) \<leftarrow> read_at 8192 4096 m;
     assert_that (buf = replicate 4096 7);
     (_, m) \<leftarrow> model_write eio 8192 (replicate 4096 9) m;
     (buf, m) \<leftarrow> read_at 8192 4096 m;
     assert_that (buf = replicate 4096 9)
   }"

definition test_unflushed_may_vanish :: "i32 \<Rightarrow> unit option" where
  "test_unflushed_may_vanish eio = do {
     let m = test_model 1 default_policy;
     (_, m) \<leftarrow> model_write eio 0 (replicate 4096 1) m;
     m \<leftarrow> model_flush m;
     (_, m) \<leftarrow> model_write eio 4096 (replicate 4096 2) m;
     (_, m) \<leftarrow> model_crash Drop m;
     (buf, m) \<leftarrow> read_at 0 4096 m;
     assert_that (buf = replicate 4096 1);
     (buf, m) \<leftarrow> read_at 4096 4096 m;
     assert_that (buf = replicate 4096 0)
   }"

definition test_flush_lie :: "i32 \<Rightarrow> unit option" where
  "test_flush_lie eio = do {
     let m = test_model 1 (default_policy\<lparr>flush_lie_pm := 1000\<rparr>);
     (_, m) \<leftarrow> model_write eio 0 (replicate 4096 1) m;
     m \<leftarrow> model_flush m;
     assert_that (flush_lies (stats m) = 1);
     (_, m) \<leftarrow> model_crash Drop m;
     (buf, m) \<leftarrow> read_at 0 4096 m;
     assert_that (buf = replicate 4096 0)
   }"

definition uniform :: "u8 list \<Rightarrow> bool" where
  "uniform block = list_all (\<lambda>x. x = block ! 0) block"

fun write_fills :: "i32 \<Rightarrow> nat list \<Rightarrow> model \<Rightarrow> model option" where
  "write_fills eio [] m = Some m"
| "write_fills eio (i # is) m = do {
     (_, m) \<leftarrow> model_write eio (of_nat i * 8192) (replicate 8192 (of_nat (i + 1))) m;
     write_fills eio is m
   }"

definition seeded_run :: "i32 \<Rightarrow> u64 \<Rightarrow> u8 list option" where
  "seeded_run eio seed = do {
     m \<leftarrow> write_fills eio [0..<32] (test_model seed default_policy);
     (_, m) \<leftarrow> model_crash Seeded m;
     (img, m) \<leftarrow> read_at 0 (2 ^ 20) m;
     Some img
   }"

definition test_seeded_crash :: "i32 \<Rightarrow> unit option" where
  "test_seeded_crash eio = do {
     a \<leftarrow> seeded_run eio 42;
     b \<leftarrow> seeded_run eio 42;
     assert_that (a = b);
     c \<leftarrow> seeded_run eio 43;
     assert_that (a \<noteq> c);
     assert_that (list_all uniform (chunks 4096 a))
   }"

definition test_errored_write :: "i32 \<Rightarrow> unit option" where
  "test_errored_write eio = do {
     let m = test_model 7 (default_policy\<lparr>error_pm := 1000\<rparr>);
     (res, m) \<leftarrow> model_write eio 0 (replicate 32768 5) m;
     assert_that (res = - eio);
     m \<leftarrow> model_flush m;
     (img, m) \<leftarrow> read_at 0 32768 m;
     assert_that (list_all uniform (chunks 4096 img))
   }"

fun write_big :: "i32 \<Rightarrow> nat list \<Rightarrow> model \<Rightarrow> model option" where
  "write_big eio [] m = Some m"
| "write_big eio (i # is) m = do {
     (_, m) \<leftarrow> model_write eio (of_nat i * 2 ^ 17) (replicate (2 ^ 17) (of_nat (i + 1))) m;
     write_big eio is m
   }"

definition test_cache_cap :: "i32 \<Rightarrow> unit option" where
  "test_cache_cap eio = do {
     m \<leftarrow> write_big eio [0, 1, 2, 3, 4, 5] (test_model 1 default_policy);
     assert_that (0 < autonomous_writebacks (stats m));
     (_, m) \<leftarrow> model_crash Drop m;
     (buf, m) \<leftarrow> read_at 0 (2 ^ 17) m;
     assert_that (buf = replicate (2 ^ 17) 1)
   }"

definition test_discard_undone :: "i32 \<Rightarrow> unit option" where
  "test_discard_undone eio = do {
     let m = test_model 1 default_policy;
     (_, m) \<leftarrow> model_write eio 0 (replicate 8192 3) m;
     m \<leftarrow> model_flush m;
     m \<leftarrow> model_discard 0 8192 m;
     (buf, m) \<leftarrow> read_at 0 8192 m;
     assert_that (buf = replicate 8192 0);
     (_, m) \<leftarrow> model_crash Drop m;
     (buf, m) \<leftarrow> read_at 0 8192 m;
     assert_that (buf = replicate 8192 3)
   }"

section \<open>The tests of the scenario runner\<close>

definition test_parses_basic_verbs :: bool where
  "test_parses_basic_verbs \<longleftrightarrow>
     parse_line ''write off=4K len=1M pattern=base fsync'' = Inr (Some (Write 4096 (2 ^ 20) ''base'' True False)) \<and>
     parse_line ''crash mode=drop # power loss'' = Inr (Some (Crash ''drop'')) \<and>
     parse_line ''set error_pm=1000'' = Inr (Some (Set [(''error_pm'', 1000)])) \<and>
     parse_line ''run ublkera checkpoint -n 0'' = Inr (Some (Run ''ublkera checkpoint -n 0'' True)) \<and>
     parse_line ''  # comment only '' = Inr None \<and> parse_line '''' = Inr None"

definition test_rejects_bad_input :: bool where
  "test_rejects_bad_input \<longleftrightarrow> is_err (parse_line ''write len=1M pattern=x'') \<and>
     is_err (parse_line ''frobnicate off=0'') \<and> is_err (parse_line ''set'') \<and> is_err (parse_line ''run'')"

definition test_patterns_distinct :: bool where
  "test_patterns_distinct \<longleftrightarrow> fill_pattern ''alpha'' 0 8192 = fill_pattern ''alpha'' 0 8192 \<and>
     fill_pattern ''alpha'' 0 8192 \<noteq> fill_pattern ''beta'' 0 8192 \<and>
     fill_pattern ''zero'' 0 64 = replicate 64 0"

definition test_patterns_anchored :: bool where
  "test_patterns_anchored \<longleftrightarrow>
     drop (64 * 1024) (fill_pattern ''p'' 0 (256 * 1024)) = fill_pattern ''p'' (64 * 1024) (192 * 1024)"

section \<open>The states of the tests\<close>

lemma take_drop_write_at [simp]:
  "i \<le> length xs \<Longrightarrow> n = length ds \<Longrightarrow> take n (drop i (write_at i ds xs)) = ds"
  by (simp add: write_at_def)

text \<open>What a write that is not failed and fits into the cache leaves, and what a read leaves.\<close>

definition cached :: "u64 \<Rightarrow> u8 list \<Rightarrow> model \<Rightarrow> model" where
  "cached off data m = m\<lparr>stats := (stats m)\<lparr>writes := writes (stats m) + 1\<rparr>,
     volatile_bytes := volatile_bytes m + of_nat (length data), volatile := volatile m @ [(off, data)]\<rparr>"

definition seen :: "model \<Rightarrow> model" where
  "seen m = m\<lparr>stats := (stats m)\<lparr>reads := reads (stats m) + 1\<rparr>\<rparr>"

definition fits_cache :: "u64 \<Rightarrow> u8 list \<Rightarrow> model \<Rightarrow> bool" where
  "fits_cache off data m \<longleftrightarrow> unat off + length data \<le> length (committed m) \<and>
     unat (volatile_bytes m) + length data \<le> unat (cache_cap m)"

lemma cached_simps [simp]:
  "policy (cached off data m) = policy m" "cache_cap (cached off data m) = cache_cap m"
  "lbs (cached off data m) = lbs m" "committed (cached off data m) = committed m" "rng (cached off data m) = rng m"
  "volatile (cached off data m) = volatile m @ [(off, data)]"
  "volatile_bytes (cached off data m) = volatile_bytes m + of_nat (length data)"
  "view (cached off data m) = put (off, data) (view m)"
  by (simp_all add: cached_def view_def)

lemma seen_simps [simp]:
  "policy (seen m) = policy m" "cache_cap (seen m) = cache_cap m" "lbs (seen m) = lbs m"
  "committed (seen m) = committed m" "rng (seen m) = rng m" "volatile (seen m) = volatile m"
  "volatile_bytes (seen m) = volatile_bytes m" "view (seen m) = view m" "model_wf (seen m) = model_wf m"
  by (simp_all add: seen_def view_def model_wf_def)

lemma test_model_simps [simp]:
  "policy (test_model seed pol) = pol" "cache_cap (test_model seed pol) = 524288"
  "lbs (test_model seed pol) = 4096" "committed (test_model seed pol) = replicate 1048576 0"
  "rng (test_model seed pol) = seed" "volatile (test_model seed pol) = []"
  "volatile_bytes (test_model seed pol) = 0" "view (test_model seed pol) = replicate 1048576 0"
  "stats (test_model seed pol) = no_stats" "model_wf (test_model seed pol)"
  by (simp_all add: test_model_def model_new_def view_def model_wf_def)

lemma default_policy_simps [simp]:
  "error_pm default_policy = 0" "flush_lie_pm default_policy = 0"
  by (simp_all add: default_policy_def)

lemma fits_bytes:
  assumes "fits_cache off data m"
  shows "unat (volatile_bytes m + of_nat (length data)) = unat (volatile_bytes m) + length data"
proof (rule unat_add_of_nat)
  have "unat (cache_cap m) < 2 ^ 64" using unsigned_less [of "cache_cap m", where 'a = nat] by simp
  then show "unat (volatile_bytes m) + length data < 2 ^ LENGTH(64)" using assms by (simp add: fits_cache_def)
qed

lemma push_fits:
  assumes "fits_cache off data m"
  shows "push_volatile off data m = Some (m\<lparr>volatile_bytes := volatile_bytes m + of_nat (length data),
    volatile := volatile m @ [(off, data)]\<rparr>)"
proof -
  have "\<not> cache_cap m < volatile_bytes m + of_nat (length data)"
    using assms fits_bytes [OF assms] by (simp add: word_less_nat_alt fits_cache_def)
  then show ?thesis by (simp add: push_volatile_def drain.simps)
qed

lemma write_cached [simp]:
  assumes "error_pm (policy m) = 0" and "fits_cache off data m"
  shows "model_write eio off data m = Some (of_nat (length data), cached off data m)"
proof -
  have "fits_cache off data (m\<lparr>stats := st\<rparr>)" for st using assms(2) by (simp add: fits_cache_def)
  from push_fits [OF this] assms(1) show ?thesis
    by (simp add: model_write_def rng_hit_def cached_def Let_def)
qed

lemma model_wf_cached [simp]:
  assumes "model_wf m" and "fits_cache off data m"
  shows "model_wf (cached off data m)"
  using assms fits_bytes [OF assms(2)]
  by (simp add: model_wf_def entry_ok_pair fits_cache_def word_le_nat_alt)

lemma read_seen [simp]:
  "model_wf m \<Longrightarrow> unat off + n \<le> length (committed m) \<Longrightarrow>
     read_at off n m = Some (take n (drop (unat off) (view m)), seen m)"
  by (simp add: read_at_def model_read_ok seen_def)

lemma discard_fits:
  assumes "model_wf m" and "fits_cache off (replicate (unat n) 0) m"
  shows "\<exists>m'. model_discard off n m = Some m' \<and> model_wf m' \<and> committed m' = committed m \<and>
    view m' = put (off, replicate (unat n) 0) (view m)"
proof -
  have "fits_cache off (replicate (unat n) 0) (m\<lparr>stats := st\<rparr>)" for st using assms(2) by (simp add: fits_cache_def)
  from push_fits [OF this] model_wf_cached [OF assms] show ?thesis
    by (simp add: model_discard_def view_def model_wf_def)
qed

section \<open>Power loss without a surviving block, and flushes\<close>

lemma crash_drop:
  assumes "model_wf m"
  shows "\<exists>rep m'. model_crash Drop m = Some (rep, m') \<and> model_wf m' \<and> view m' = committed m \<and>
    committed m' = committed m"
  using model_crash_ok [OF assms, of Drop] by (auto simp: view_def)

lemma flush_honest:
  assumes "model_wf m" and "flush_lie_pm (policy m) = 0"
  shows "\<exists>m'. model_flush m = Some m' \<and> model_wf m' \<and> view m' = view m \<and> committed m' = view m \<and>
    volatile m' = [] \<and> volatile_bytes m' = 0 \<and> cache_cap m' = cache_cap m \<and> policy m' = policy m \<and> lbs m' = lbs m"
proof -
  from model_flush_ok [OF assms(1)] assms(2) obtain m' where
    "model_flush m = Some m'" "model_wf m'" "view m' = view m" "frame m m'" "committed m' = view m" "volatile m' = []"
    by (auto simp: rng_hit_def)
  moreover from this have "unat (volatile_bytes m') = 0" by (simp add: model_wf_def)
  ultimately show ?thesis by (auto simp: frame_def unat_eq_zero)
qed

section \<open>The model tests pass\<close>

lemma read_your_writes_passes: "test_read_your_writes eio = Some ()"
  by (simp add: test_read_your_writes_def fits_cache_def put_pair)

lemma unflushed_may_vanish_passes: "test_unflushed_may_vanish eio = Some ()"
proof -
  let ?m = "cached 0 (replicate 4096 1) (test_model 1 default_policy)"
  have "model_wf ?m" by (simp add: fits_cache_def)
  from flush_honest [OF this] obtain m1 where m1: "model_flush ?m = Some m1" "model_wf m1"
      "committed m1 = write_at 0 (replicate 4096 1) (replicate 1048576 0)" "volatile_bytes m1 = 0"
      "cache_cap m1 = 524288" "policy m1 = default_policy" "lbs m1 = 4096"
    by (auto simp: put_pair)
  have f: "fits_cache 4096 (replicate 4096 2) m1" using m1 by (simp add: fits_cache_def)
  obtain rep m2 where m2: "model_crash Drop (cached 4096 (replicate 4096 2) m1) = Some (rep, m2)" "model_wf m2"
      "view m2 = committed m1" "committed m2 = committed m1"
    using crash_drop [of "cached 4096 (replicate 4096 2) m1"] m1(2) f by auto
  show ?thesis
    by (simp add: test_unflushed_may_vanish_def fits_cache_def m1(1,6)) (simp add: f m1 m2 write_at_def)
qed

lemma hit_always: "rng_hit 1000 s = (True, snd (rng_next s))"
proof -
  have "v mod 1000 < (1000 :: u64)" for v by (simp add: word_mod_less_divisor)
  then show ?thesis by (simp add: rng_hit_def rng_below_def split: prod.split)
qed

lemma flush_lie_passes: "test_flush_lie eio = Some ()"
proof -
  let ?m = "cached 0 (replicate 4096 1) (test_model 1 (default_policy\<lparr>flush_lie_pm := 1000\<rparr>))"
  have wf: "model_wf ?m" by (simp add: fits_cache_def)
  from hit_always obtain m1 where m1: "model_flush ?m = Some m1" "flush_lies (stats m1) = 1"
      "volatile m1 = volatile ?m" "committed m1 = committed ?m" "lbs m1 = lbs ?m" "cache_cap m1 = cache_cap ?m"
      "volatile_bytes m1 = volatile_bytes ?m"
    by (simp add: model_flush_def cached_def no_stats_def)
  then have "model_wf m1" using wf by (simp add: model_wf_def)
  from crash_drop [OF this] m1(4) show ?thesis
    by (auto simp: test_flush_lie_def fits_cache_def m1(1,2))
qed

lemma discard_undone_passes: "test_discard_undone eio = Some ()"
proof -
  let ?m = "cached 0 (replicate 8192 3) (test_model 1 default_policy)"
  have "model_wf ?m" by (simp add: fits_cache_def)
  from flush_honest [OF this] obtain m1 where m1: "model_flush ?m = Some m1" "model_wf m1"
      "committed m1 = write_at 0 (replicate 8192 3) (replicate 1048576 0)" "view m1 = committed m1"
      "volatile_bytes m1 = 0" "cache_cap m1 = 524288"
    by (auto simp: put_pair)
  have "fits_cache 0 (replicate (unat (8192 :: u64)) 0) m1" using m1 by (simp add: fits_cache_def)
  from discard_fits [OF m1(2) this] obtain m2 where
    m2: "model_discard 0 8192 m1 = Some m2" "model_wf m2" "committed m2 = committed m1"
      "view m2 = write_at 0 (replicate 8192 0) (committed m1)"
    using m1(4) by (auto simp: put_pair)
  have "model_wf (seen m2)" using m2(2) by simp
  from crash_drop [OF this] obtain rep m3 where
    m3: "model_crash Drop (seen m2) = Some (rep, m3)" "model_wf m3" "view m3 = committed m1" "committed m3 = committed m1"
    using m2(3) by auto
  show ?thesis by (simp add: test_discard_undone_def fits_cache_def m1(1,3) m2 m3) (simp add: write_at_def)
qed

section \<open>Blocks of one value\<close>

text \<open>Every logical block of the bytes holds one value.\<close>

definition blocky :: "nat \<Rightarrow> u8 list \<Rightarrow> bool" where
  "blocky bs c \<longleftrightarrow> (\<forall>k<length c. c ! k = c ! (bs * (k div bs)))"

lemma block_start_less: "k < n \<Longrightarrow> bs * (k div bs) < (n :: nat)"
  using times_div_less_eq_dividend [of bs k] by linarith

lemma blocky_replicate [simp]: "blocky bs (replicate n v)"
  by (simp add: blocky_def block_start_less)

lemma blocky_take: "blocky bs c \<Longrightarrow> blocky bs (take n c)"
  by (simp add: blocky_def block_start_less)

lemma blocky_drop:
  assumes "blocky bs c" and "0 < bs"
  shows "blocky bs (drop bs c)"
proof -
  have "c ! (bs + k) = c ! (bs + bs * (k div bs))" if "bs + k < length c" for k
    using assms that unfolding blocky_def by (metis div_add_self1 mult_Suc_right neq0_conv plus_1_eq_Suc add.commute)
  then show ?thesis by (simp add: blocky_def)
qed

lemma blocky_chunks: "blocky bs c \<Longrightarrow> 0 < bs \<Longrightarrow> list_all uniform (chunks bs c)"
proof (induction c rule: length_induct)
  case (1 c)
  have "uniform (take bs c)"
    using 1(2) by (auto simp: uniform_def list_all_length blocky_def)
  then show ?case using 1 blocky_drop [OF 1(2,3)] by (cases "c = []") (simp_all add: chunks.simps [of _ c])
qed

lemma block_start_bounds:
  assumes "0 < bs"
  shows "bs * a \<le> bs * (k div bs) \<longleftrightarrow> bs * a \<le> k" "bs * (k div bs) < bs * a \<longleftrightarrow> k < bs * (a :: nat)"
  using assms less_eq_div_iff_mult_less_eq [of bs a k] div_less_iff_less_mult [of bs k a]
  by (simp_all add: mult.commute)

lemma blocky_put:
  assumes "blocky bs c" and "bs dvd unat off" and "bs dvd n" and "unat off + n \<le> length c" and "0 < bs"
  shows "blocky bs (put (off, replicate n v) c)"
proof -
  have val: "put (off, replicate n v) c ! j = (if unat off \<le> j \<and> j < unat off + n then v else c ! j)"
    if "j < length c" for j using assms(4) that by (auto simp: nth_put entry_ok_pair)
  have "put (off, replicate n v) c ! k = put (off, replicate n v) c ! (bs * (k div bs))" if "k < length c" for k
  proof -
    obtain a b where ab: "unat off = bs * a" "n = bs * b" using assms(2,3) by (auto elim!: dvdE)
    have "unat off \<le> k \<longleftrightarrow> unat off \<le> bs * (k div bs)" "k < unat off + n \<longleftrightarrow> bs * (k div bs) < unat off + n"
      using block_start_bounds(1) [OF assms(5), of a k] block_start_bounds(2) [OF assms(5), of k "a + b"]
      unfolding ab add_mult_distrib2 [symmetric] by blast+
    moreover have "c ! k = c ! (bs * (k div bs))" using assms(1) that by (simp add: blocky_def)
    ultimately show ?thesis using val [OF that] val [OF block_start_less [OF that, of bs]] by simp
  qed
  then show ?thesis using assms(4) by (simp add: blocky_def entry_ok_pair)
qed

lemma errored_write_passes: "test_errored_write eio = Some ()"
proof -
  let ?m = "test_model 7 (default_policy\<lparr>error_pm := 1000\<rparr>)"
  from model_write_ok [of ?m 0 "replicate 32768 5" eio] obtain res m1 k where
    m1: "model_write eio 0 (replicate 32768 5) ?m = Some (res, m1)"
      "write_outcome eio ?m (replicate 32768 5) res k" "stored ?m (0, take k (replicate 32768 5)) m1"
    by auto
  then have k: "res = - eio" "k \<le> 32768" "4096 dvd k" by (simp_all add: write_outcome_def hit_always)
  have "model_wf m1" "flush_lie_pm (policy m1) = 0" and v: "view m1 = put (0, replicate k 5) (replicate 1048576 0)"
    using storedD [OF m1(3)] k(2) by (simp_all add: min_def)
  from flush_honest [OF this(1,2)] obtain m2 where
    m2: "model_flush m1 = Some m2" "model_wf m2" "committed m2 = view m1" "view m2 = view m1" by auto
  moreover have "length (view m1) = 1048576" using k(2) by (simp add: v entry_ok_pair)
  moreover have "blocky 4096 (view m1)" unfolding v by (rule blocky_put) (use k in simp_all)
  ultimately show ?thesis by (simp add: test_errored_write_def m1(1) k(1) blocky_chunks blocky_take)
qed

section \<open>The write-back and the power loss tests pass\<close>

lemma cache_cap_passes: "test_cache_cap eio = Some ()"
proof -
  let ?m = "test_model 1 default_policy"
  obtain m1 where m1: "write_big eio [0, 1, 2, 3, 4, 5] ?m = Some m1" "autonomous_writebacks (stats m1) = 2"
      "committed m1 = put (131072, replicate 131072 2) (put (0, replicate 131072 1) (replicate 1048576 0))"
      "volatile m1 = [(262144, replicate 131072 3), (393216, replicate 131072 4), (524288, replicate 131072 5),
        (655360, replicate 131072 6)]"
      "volatile_bytes m1 = 524288" "lbs m1 = 4096" "cache_cap m1 = 524288"
    by (simp add: fits_cache_def model_write_def rng_hit_def push_volatile_def drain.simps apply_entry_ok entry_ok_pair no_stats_def)
  then have wf: "model_wf m1" by (simp add: model_wf_def entry_ok_pair)
  have "length (committed m1) = 1048576" "take 131072 (committed m1) = replicate 131072 1"
    using m1(3) by (simp_all add: put_pair write_at_def)
  with crash_drop [OF wf] show ?thesis by (auto simp: test_cache_cap_def m1(1,2) simp del: write_big.simps One_nat_def)
qed

text \<open>The cache of the seeded runs before the power loss, and its blocks.\<close>

definition fill_entry :: "nat \<Rightarrow> u64 \<times> u8 list" where
  "fill_entry i = (of_nat i * 8192, replicate 8192 (of_nat (i + 1)))"

lemma unat_fill: "i < 32 \<Longrightarrow> unat (of_nat i * 8192 :: u64) = i * 8192"
  using unat_of_nat [of "i * 8192", where 'a = 64] by (simp add: take_bit_nat_eq_self)

lemma unat_fill_next: "i < 32 \<Longrightarrow> unat (of_nat i * 8192 + 4096 :: u64) = i * 8192 + 4096"
  using unat_of_nat [of "i * 8192 + 4096", where 'a = 64] by (simp add: take_bit_nat_eq_self)

lemma fill_blocks:
  "entry_blocks 4096 (fill_entry i) =
     [(of_nat i * 8192, replicate 4096 (of_nat (i + 1))), (of_nat i * 8192 + 4096, replicate 4096 (of_nat (i + 1)))]"
  by (simp add: entry_blocks_def fill_entry_def chunks.simps block_addr_def)

lemma fill_block:
  assumes "p \<in> set (concat (map (entry_blocks 4096) (map fill_entry is)))" and "\<forall>i\<in>set is. i < 32"
  obtains off v where "p = (off, replicate 4096 v)" "4096 dvd unat off" "unat off + 4096 \<le> 1048576"
    "0 \<in> set is \<or> 0 < unat off"
proof -
  obtain i where i: "i \<in> set is" "i < 32" "p \<in> set (entry_blocks 4096 (fill_entry i))" using assms by auto
  have d: "4096 dvd i * 8192" "4096 dvd i * 8192 + 4096" using dvd_mult [of 4096 8192 i] by simp_all
  consider "p = (of_nat i * 8192, replicate 4096 (of_nat (i + 1)))"
    | "p = (of_nat i * 8192 + 4096, replicate 4096 (of_nat (i + 1)))" using i(3) by (auto simp: fill_blocks)
  then show ?thesis
  proof cases
    case 1
    show ?thesis by (rule that [OF 1]) (use i(1,2) d in \<open>auto simp: unat_fill intro: gr0I\<close>)
  next
    case 2
    show ?thesis by (rule that [OF 2]) (use i(1,2) d in \<open>auto simp: unat_fill_next\<close>)
  qed
qed

lemma write_fills_ok:
  assumes "model_wf m" and "error_pm (policy m) = 0" and "length (committed m) = 1048576"
    and "cache_cap m = 524288" and "unat (volatile_bytes m) + 8192 * length is \<le> 524288"
    and "\<forall>i\<in>set is. i < 32"
  shows "\<exists>m'. write_fills eio is m = Some m' \<and> model_wf m' \<and> volatile m' = volatile m @ map fill_entry is \<and>
    committed m' = committed m \<and> rng m' = rng m \<and> lbs m' = lbs m"
  using assms
proof (induction "is" arbitrary: m)
  case (Cons i "is")
  let ?m = "cached (of_nat i * 8192) (replicate 8192 (of_nat (i + 1))) m"
  have f: "fits_cache (of_nat i * 8192) (replicate 8192 (of_nat (i + 1))) m"
    using Cons.prems by (simp add: fits_cache_def unat_fill)
  then have "unat (volatile_bytes ?m) = unat (volatile_bytes m) + 8192" using fits_bytes [OF f] by simp
  with f Cons.IH [of ?m] Cons.prems show ?case by (auto simp: fill_entry_def)
qed simp

text \<open>What a seeded run ends with, for its image and for its first byte.\<close>

lemma fold_put_blocky:
  assumes "\<forall>p\<in>set ps. \<exists>off v. p = (off, replicate 4096 v) \<and> 4096 dvd unat off \<and> unat off + 4096 \<le> length c"
    and "blocky 4096 c"
  shows "blocky 4096 (fold put ps c)"
  using assms
proof (induction ps arbitrary: c)
  case (Cons p ps)
  then obtain off v where p: "p = (off, replicate 4096 v)" "4096 dvd unat off" "unat off + 4096 \<le> length c" by auto
  then have "blocky 4096 (put p c)" "length (put p c) = length c"
    using Cons.prems(2) blocky_put [of 4096 c off 4096 v] by (simp_all add: entry_ok_pair)
  with Cons.IH [of "put p c"] Cons.prems(1) show ?case by simp
qed simp

lemma fold_put_first:
  assumes "\<forall>p\<in>set ps. entry_ok (length c) p \<and> 0 < unat (fst p)" and "0 < length c"
  shows "fold put ps c ! 0 = c ! 0"
  using assms
proof (induction ps arbitrary: c)
  case (Cons p ps)
  have "put p c ! 0 = c ! 0" "length (put p c) = length c" using Cons.prems by (simp_all add: nth_put)
  with Cons.IH [of "put p c"] Cons.prems show ?case by simp
qed simp

lemma fills_ready:
  obtains m where "write_fills eio [0..<32] (test_model seed default_policy) = Some m" "model_wf m"
    "volatile m = map fill_entry [0..<32]" "committed m = replicate 1048576 0" "rng m = seed" "lbs m = 4096"
  using write_fills_ok [of "test_model seed default_policy" "[0..<32]" eio] by auto

lemma fills_ok: "\<forall>i\<in>set is. i < 32 \<Longrightarrow> length c = 1048576 \<Longrightarrow> list_all (entry_ok (length c)) (map fill_entry is)"
  by (auto simp: list_all_iff fill_entry_def entry_ok_pair unat_fill)

lemma seeded_run_blocky: "\<exists>img. seeded_run eio seed = Some img \<and> blocky 4096 img"
proof -
  obtain m where m: "write_fills eio [0..<32] (test_model seed default_policy) = Some m" "model_wf m"
      "volatile m = map fill_entry [0..<32]" "committed m = replicate 1048576 0" "lbs m = 4096"
    by (rule fills_ready)
  obtain rep m' ps where m': "model_crash Seeded m = Some (rep, m')" "model_wf m'" "volatile m' = []"
      "committed m' = fold put ps (replicate 1048576 0)" "subseq ps (cache_blocks m)" "frame m m'"
    using model_crash_ok [OF m(2), of Seeded] m(4) by auto
  have "\<exists>off v. p = (off, replicate 4096 v) \<and> 4096 dvd unat off \<and> unat off + 4096 \<le> 1048576" if "p \<in> set ps" for p
  proof -
    have "p \<in> set (concat (map (entry_blocks 4096) (map fill_entry [0..<32])))"
      using list_emb_set [OF m'(5) that] m(3,5) by (auto simp: cache_blocks_def)
    then show ?thesis by (rule fill_block) auto
  qed
  then have "blocky 4096 (committed m')" unfolding m'(4) by (intro fold_put_blocky) simp_all
  moreover have "length (committed m') = 1048576" using m'(6) m(4) by (simp add: frame_def)
  moreover have "view m' = committed m'" using m'(3) by (simp add: view_def)
  ultimately show ?thesis using m(1) m'(1,2) by (simp add: seeded_run_def)
qed

text \<open>The first entry is kept or dropped by the first draw, and the later ones do not meet its first byte.\<close>

definition first_byte :: "u64 \<Rightarrow> u8" where
  "first_byte v = (if v \<le> 39 then 1 else 0)"

lemma seeded_run_first:
  assumes "rng_below 100 seed = (v, r)" and "v \<le> 69" and "seeded_run eio seed = Some img"
  shows "img ! 0 = first_byte v"
proof -
  obtain m where m: "write_fills eio [0..<32] (test_model seed default_policy) = Some m" "model_wf m"
      "volatile m = map fill_entry [0..<32]" "committed m = replicate 1048576 0" "rng m = seed" "lbs m = 4096"
    by (rule fills_ready)
  let ?rest = "map fill_entry [1..<32]"
  let ?c = "if v \<le> 39 then put (fill_entry 0) (replicate 1048576 0) else replicate 1048576 0"
  have v: "volatile m = fill_entry 0 # ?rest" by (simp add: m(3) upt_conv_Cons [of 0])
  obtain rep where start: "crash_entries Seeded 4096 (volatile m) seed (replicate 1048576 0)
        \<lparr>rep_committed = 0, rep_dropped = 0, rep_torn = 0\<rparr> = crash_entries Seeded 4096 ?rest r ?c rep"
    using assms(1,2) by (cases "v \<le> 39") (simp_all add: v fill_entry_def apply_entry_ok entry_ok_pair)
  have c: "length ?c = 1048576" "?c ! 0 = first_byte v"
    by (simp_all add: first_byte_def fill_entry_def entry_ok_pair nth_put)
  obtain r' ps rep' where e: "crash_entries Seeded 4096 ?rest r ?c rep = Some (r', fold put ps ?c, rep')"
      and ps: "subseq ps (concat (map (entry_blocks 4096) ?rest))"
    using crash_entries_ok [of ?c ?rest 4096 Seeded r rep] fills_ok [of "[1..<32]" ?c] c(1) by auto
  have "entry_ok (length ?c) p \<and> 0 < unat (fst p)" if "p \<in> set ps" for p
  proof -
    have "p \<in> set (concat (map (entry_blocks 4096) ?rest))" using list_emb_set [OF ps that] by auto
    then show ?thesis unfolding c(1) by (rule fill_block) (auto simp: entry_ok_pair)
  qed
  then have first: "fold put ps ?c ! 0 = first_byte v" using fold_put_first [of ps ?c] c by auto
  obtain rep1 m' where m': "model_crash Seeded m = Some (rep1, m')" "model_wf m'" "frame m m'" "volatile m' = []"
    using model_crash_ok [OF m(2), of Seeded] by auto
  have "committed m' = fold put ps ?c" using m'(1) start e by (auto simp: model_crash_def m(4,5,6))
  moreover have "length (committed m') = 1048576" using m'(3) m(4) by (simp add: frame_def)
  ultimately have "img = fold put ps ?c" using assms(3) m(1) m'(1,2,4) by (simp add: seeded_run_def view_def)
  then show ?thesis using first by simp
qed

lemma first_draws: "rng_below 100 42 = (fst (rng_below 100 42), snd (rng_below 100 42))"
    "fst (rng_below 100 42) \<le> 39" "39 < fst (rng_below 100 43)" "fst (rng_below 100 43) \<le> 69"
  by (simp, code_simp, code_simp, code_simp)

lemma seeded_crash_passes: "test_seeded_crash eio = Some ()"
proof -
  obtain a b where ab: "seeded_run eio 42 = Some a" "blocky 4096 a" "seeded_run eio 43 = Some b"
    using seeded_run_blocky by blast
  have "a ! 0 = 1" "b ! 0 = 0"
    using seeded_run_first [OF surjective_pairing _ ab(1)] seeded_run_first [OF surjective_pairing _ ab(3)] first_draws
    by (simp_all add: first_byte_def)
  then have "a \<noteq> b" by auto
  with ab show ?thesis by (simp add: test_seeded_crash_def blocky_chunks)
qed

section \<open>The scenario tests pass\<close>

lemma parse_line_verb:
  assumes "trim (takeWhile (\<lambda>c. c \<noteq> CHR ''#'') text) = line" and "split_once is_whitespace line = Some (verb, rest)"
    and "verb \<noteq> ''run''" and "verb \<noteq> ''fail''" and "tokens (split_whitespace (trim rest)) ([], []) = (args, flags)"
  shows "parse_line text = and_then (parse_verb verb args flags) (\<lambda>st. Inr (Some st))"
proof -
  have "line \<noteq> []" using assms(2) by (cases line) (auto simp: split_once_def)
  then show ?thesis using assms by (simp add: parse_line_def)
qed

lemma test_sizes: "number_arg ''1000'' = Inr 1000" "size_arg ''4K'' = Inr 4096" "size_arg ''1M'' = Inr (2 ^ 20)"
  by (simp_all add: number_arg_def size_arg_def parse_u64_def parse_size_raw_def size_suffix_def from_str_radix_def
      to_digit_def)

lemma write_line_parses:
  "parse_line ''write off=4K len=1M pattern=base fsync'' = Inr (Some (Write 4096 (2 ^ 20) ''base'' True False))"
proof -
  have "parse_line ''write off=4K len=1M pattern=base fsync'' = and_then
      (parse_verb ''write'' [(''off'', ''4K''), (''len'', ''1M''), (''pattern'', ''base'')] [''fsync''])
      (\<lambda>st. Inr (Some st))"
    by (rule parse_line_verb [where line = "''write off=4K len=1M pattern=base fsync''"
        and rest = "''off=4K len=1M pattern=base fsync''"]) code_simp+
  then show ?thesis by (simp add: parse_verb_def need_def test_sizes)
qed

lemma set_line_parses: "parse_line ''set error_pm=1000'' = Inr (Some (Set [(''error_pm'', 1000)]))"
proof -
  have "parse_line ''set error_pm=1000'' = and_then (parse_verb ''set'' [(''error_pm'', ''1000'')] [])
      (\<lambda>st. Inr (Some st))"
    by (rule parse_line_verb [where line = "''set error_pm=1000''" and rest = "''error_pm=1000''"]) code_simp+
  then show ?thesis by (simp add: parse_verb_def test_sizes)
qed

lemma parses_basic_verbs_passes: "test_parses_basic_verbs"
proof -
  have "parse_line ''crash mode=drop # power loss'' = Inr (Some (Crash ''drop''))" by code_simp
  moreover have "parse_line ''run ublkera checkpoint -n 0'' = Inr (Some (Run ''ublkera checkpoint -n 0'' True))"
    by code_simp
  moreover have "parse_line ''  # comment only '' = Inr None" by code_simp
  moreover have "parse_line '''' = Inr None" by code_simp
  ultimately show ?thesis unfolding test_parses_basic_verbs_def by (intro conjI write_line_parses set_line_parses)
qed

lemma rejects_bad_input_passes: "test_rejects_bad_input"
proof -
  have "parse_line ''write len=1M pattern=x'' = and_then
      (parse_verb ''write'' [(''len'', ''1M''), (''pattern'', ''x'')] []) (\<lambda>st. Inr (Some st))"
    by (rule parse_line_verb [where line = "''write len=1M pattern=x''" and rest = "''len=1M pattern=x''"]) code_simp+
  then have "parse_line ''write len=1M pattern=x'' = Inl (MissingArg ''write'' ''off'')"
    by (simp add: parse_verb_def need_def)
  moreover have "parse_line ''frobnicate off=0'' = Inl (UnknownVerb ''frobnicate'')" by code_simp
  moreover have "parse_line ''set'' = Inl NoPairs" by code_simp
  moreover have "parse_line ''run'' = Inl (MissingCommand ''run'')" by code_simp
  ultimately show ?thesis unfolding test_rejects_bad_input_def by simp
qed

lemma pattern_first_byte:
  "name \<noteq> ''zero'' \<Longrightarrow> pattern_byte name 0 = ucast (fst (rng_next (name_hash name)))"
  by (simp add: pattern_byte_def fill_block.simps [of _ 4096] le_u64_def to_le_bytes_def nth_append split: prod.split)

lemma patterns_distinct_passes: "test_patterns_distinct"
proof -
  have "ucast (fst (rng_next (name_hash ''alpha''))) \<noteq> (ucast (fst (rng_next (name_hash ''beta''))) :: u8)"
    by (simp add: name_hash_def rng_next_def)
  then have "fill_pattern ''alpha'' 0 8192 ! 0 \<noteq> fill_pattern ''beta'' 0 8192 ! 0"
    by (simp add: nth_fill_pattern pattern_first_byte)
  moreover have "fill_pattern ''zero'' 0 64 = replicate 64 0" by (simp add: fill_pattern_def)
  ultimately show ?thesis unfolding test_patterns_distinct_def by metis
qed

lemma patterns_anchored_passes: "test_patterns_anchored"
  unfolding test_patterns_anchored_def
  by (rule nth_equalityI) (simp_all add: nth_fill_pattern)

section \<open>Properties\<close>

lemma fault_tests_pass:
  "test_read_your_writes eio = Some () \<and> test_unflushed_may_vanish eio = Some () \<and> test_flush_lie eio = Some () \<and>
   test_seeded_crash eio = Some () \<and> test_errored_write eio = Some () \<and> test_cache_cap eio = Some () \<and>
   test_discard_undone eio = Some ()"
  by (intro conjI read_your_writes_passes unflushed_may_vanish_passes flush_lie_passes seeded_crash_passes
      errored_write_passes cache_cap_passes discard_undone_passes)


end
