(* ===== verification/Cli.thy ===== *)
theory Cli
  imports Ctl
begin

text \<open>
  The ublkera command line (\<^verbatim>\<open>src/src/main.rs\<close>): the subcommands as clap hands them to
  \<open>main\<close>, the request each of them sends, the exit status, and the daemon with its signal
  thread; and the other end of the socket, what the derived \<open>Deserialize\<close> of \<open>Request\<close>,
  \<open>Target\<close> and \<open>DeviceSpec\<close> makes of a request. \<open>canon\<close> is \<open>std::fs::canonicalize\<close>, and
  \<open>path_of\<close> takes the text of a path apart.
\<close>

section \<open>The code\<close>

datatype cmd =
    CmdDaemon bool
  | CmdAdd string u64 "string option" i32 u16 u16 u64 bool
  | CmdDel "u32 option" "string option"
  | CmdList
  | CmdStatus "u32 option" "string option"
  | CmdCheckpoint "u32 option" "string option" bool
  | CmdDump "u32 option" "string option" u32 "string option"
  | CmdShutdown

text \<open>
  What the attributes \<open>required_unless_present\<close> and \<open>conflicts_with\<close> of the subcommands let
  through: one way to name the device.
\<close>

fun clap_accepts :: "cmd \<Rightarrow> bool" where
  "clap_accepts (CmdDel n b) = (n = None \<longleftrightarrow> b \<noteq> None)"
| "clap_accepts (CmdStatus n b) = (n = None \<longleftrightarrow> b \<noteq> None)"
| "clap_accepts (CmdCheckpoint n b all) =
     (if all then n = None \<and> b = None else (n = None \<longleftrightarrow> b \<noteq> None))"
| "clap_accepts (CmdDump n b since gen) = (n = None \<longleftrightarrow> b \<noteq> None)"
| "clap_accepts _ = True"

definition canonical_path :: "(string \<Rightarrow> string option) \<Rightarrow> string \<Rightarrow> string" where
  "canonical_path canon p = (case canon p of None \<Rightarrow> p | Some c \<Rightarrow> c)"

definition target_req :: "(string \<Rightarrow> string option) \<Rightarrow> string \<Rightarrow> u32 option \<Rightarrow> string option \<Rightarrow> json" where
  "target_req canon c number backing =
     (let req = JObj [(''cmd'', JStr c)];
          req1 = (case number of None \<Rightarrow> req | Some n \<Rightarrow> jset ''dev_id'' (u32_json n) req)
      in case backing of None \<Rightarrow> req1
         | Some b \<Rightarrow> jset ''backing'' (JStr (canonical_path canon b)) req1)"

definition opt_str :: "string option \<Rightarrow> json" where
  "opt_str s = (case s of None \<Rightarrow> JNull | Some t \<Rightarrow> JStr t)"

text \<open>The request of a subcommand; \<open>daemon\<close> sends none.\<close>

definition cmd_req :: "(string \<Rightarrow> string option) \<Rightarrow> cmd \<Rightarrow> json option" where
  "cmd_req canon c = (case c of
      CmdDaemon fg \<Rightarrow> None
    | CmdAdd backing gr meta number queues depth buf buffered \<Rightarrow>
        Some (JObj [(''cmd'', JStr ''add''), (''backing'', JStr (canonical_path canon backing)),
          (''granularity'', u64_json gr), (''meta'', opt_str meta), (''dev_id'', JNum (sint number)),
          (''queues'', JNum (uint queues)), (''depth'', JNum (uint depth)), (''buf_size'', u64_json buf),
          (''buffered'', JBool buffered)])
    | CmdDel n b \<Rightarrow> Some (target_req canon ''del'' n b)
    | CmdList \<Rightarrow> Some (JObj [(''cmd'', JStr ''list'')])
    | CmdStatus n b \<Rightarrow> Some (target_req canon ''status'' n b)
    | CmdCheckpoint n b all \<Rightarrow>
        Some (if all then JObj [(''cmd'', JStr ''checkpoint_all'')] else target_req canon ''checkpoint'' n b)
    | CmdDump n b since gen \<Rightarrow>
        (let req = jset ''since'' (u32_json since) (target_req canon ''dump'' n b) in
         Some (case gen of None \<Rightarrow> req | Some g \<Rightarrow> jset ''generation'' (JStr g) req))
    | CmdShutdown \<Rightarrow> Some (JObj [(''cmd'', JStr ''shutdown'')]))"

text \<open>
  \<open>ctl_call\<close>: the exit status; an error of \<open>client_request\<close> is returned by \<open>main\<close>, which
  exits with 1.
\<close>

definition exit_status :: "client_error + json \<Rightarrow> nat" where
  "exit_status resp = (case resp of Inl e \<Rightarrow> 1 | Inr v \<Rightarrow> if jget ''ok'' v = JBool False then 1 else 0)"

text \<open>
  \<open>run_daemon\<close>: the socket is bound before the process forks; then connections are served
  until a shutdown request, or until a signal, after which every device is detached as well.
\<close>

datatype daemon_end = NotStarted bind_error | DaemonizeFailed | SignalsFailed | Ended world

definition run_daemon :: "texts \<Rightarrow> answers \<Rightarrow> bind_error + unit \<Rightarrow> bool \<Rightarrow> bool \<Rightarrow> bool \<Rightarrow>
    connection option list \<Rightarrow> bool \<Rightarrow> fs \<Rightarrow> daemon_end" where
  "run_daemon tx final bound foreground fork_ok signals_ok cs signalled fs = (case bound of
      Inl e \<Rightarrow> NotStarted e
    | Inr _ \<Rightarrow>
        if \<not> foreground \<and> \<not> fork_ok then DaemonizeFailed
        else if \<not> signals_ok then SignalsFailed
        else (case serve_loop tx cs (fresh_daemon fs) of (w, shutdown, _) \<Rightarrow>
          Ended (if shutdown \<or> signalled then shutdown_all (ans_del_ok final) (ans_exit final) w else w)))"

text \<open>
  The fields of a request: a field with a default may be missing but not of another type, an
  \<open>Option\<close> may be null as well.
\<close>

fun jfind :: "string \<Rightarrow> json \<Rightarrow> json option" where
  "jfind k (JObj kvs) = map_of kvs k"
| "jfind k v = None"

definition int_field :: "int \<Rightarrow> int \<Rightarrow> string \<Rightarrow> int option \<Rightarrow> json \<Rightarrow> int option" where
  "int_field lo hi k dflt v = (case jfind k v of
      None \<Rightarrow> dflt
    | Some (JNum n) \<Rightarrow> if lo \<le> n \<and> n < hi then Some n else None
    | Some _ \<Rightarrow> None)"

definition bool_field :: "string \<Rightarrow> bool \<Rightarrow> json \<Rightarrow> bool option" where
  "bool_field k dflt v = (case jfind k v of
      None \<Rightarrow> Some dflt | Some (JBool b) \<Rightarrow> Some b | Some _ \<Rightarrow> None)"

definition str_field :: "string \<Rightarrow> json \<Rightarrow> string option" where
  "str_field k v = (case jfind k v of Some (JStr s) \<Rightarrow> Some s | _ \<Rightarrow> None)"

definition opt_str_field :: "string \<Rightarrow> json \<Rightarrow> string option option" where
  "opt_str_field k v = (case jfind k v of
      None \<Rightarrow> Some None | Some JNull \<Rightarrow> Some None | Some (JStr s) \<Rightarrow> Some (Some s) | Some _ \<Rightarrow> None)"

definition decode_target :: "json \<Rightarrow> target option" where
  "decode_target v =
     Option.bind (case jfind ''dev_id'' v of
         None \<Rightarrow> Some None | Some JNull \<Rightarrow> Some None
       | Some _ \<Rightarrow> map_option (\<lambda>n. Some (of_int n)) (int_field 0 (2 ^ 32) ''dev_id'' None v)) (\<lambda>d.
     Option.bind (opt_str_field ''backing'' v) (\<lambda>b. Some \<lparr>tg_dev_id = d, tg_backing = b\<rparr>))"

definition decode_spec :: "(string \<Rightarrow> path) \<Rightarrow> json \<Rightarrow> device_spec option" where
  "decode_spec path_of v =
     Option.bind (str_field ''backing'' v) (\<lambda>backing.
     Option.bind (int_field 0 (2 ^ 64) ''granularity'' (Some (uint default_granularity)) v) (\<lambda>gr.
     Option.bind (opt_str_field ''meta'' v) (\<lambda>meta.
     Option.bind (int_field (- (2 ^ 31)) (2 ^ 31) ''dev_id'' (Some (sint default_dev_id)) v) (\<lambda>dv.
     Option.bind (int_field 0 (2 ^ 16) ''queues'' (Some (uint default_queues)) v) (\<lambda>qs.
     Option.bind (int_field 0 (2 ^ 16) ''depth'' (Some (uint default_depth)) v) (\<lambda>dp.
     Option.bind (int_field 0 (2 ^ 32) ''buf_size'' (Some (uint default_buf_size)) v) (\<lambda>bs.
     Option.bind (bool_field ''buffered'' False v) (\<lambda>bf.
       Some \<lparr>spec_backing = backing, spec_granularity = of_int gr, spec_meta = map_option path_of meta,
         spec_dev_id = of_int dv, spec_queues = of_int qs, spec_depth = of_int dp,
         spec_buf_size = of_int bs, spec_buffered = bf\<rparr>))))))))"

definition decode_request :: "(string \<Rightarrow> path) \<Rightarrow> json \<Rightarrow> request option" where
  "decode_request path_of v = (case as_str (jget ''cmd'' v) of
      None \<Rightarrow> None
    | Some c \<Rightarrow>
        if c = ''add'' then map_option ReqAdd (decode_spec path_of v)
        else if c = ''del'' then map_option ReqDel (decode_target v)
        else if c = ''list'' then Some ReqList
        else if c = ''status'' then map_option ReqStatus (decode_target v)
        else if c = ''checkpoint'' then map_option ReqCheckpoint (decode_target v)
        else if c = ''checkpoint_all'' then Some ReqCheckpointAll
        else if c = ''dump'' then
          Option.bind (decode_target v) (\<lambda>tg.
          Option.bind (int_field 0 (2 ^ 32) ''since'' (Some 0) v) (\<lambda>since.
          Option.bind (opt_str_field ''generation'' v) (\<lambda>gen. Some (ReqDump tg (of_int since) gen))))
        else if c = ''shutdown'' then Some ReqShutdown
        else None)"

section \<open>Requests survive the socket\<close>

lemma int_fieldI [simp]: "jfind k v = Some (JNum n) \<Longrightarrow> int_field lo hi k dflt v = (if lo \<le> n \<and> n < hi then Some n else None)"
  by (simp add: int_field_def)

lemma uint_bounds [simp]:
  "uint (a :: u16) < 65536" "uint (b :: u32) < 4294967296" "uint (c :: u64) < 18446744073709551616"
  using uint_lt2p [of a] uint_lt2p [of b] uint_lt2p [of c] by simp_all

lemma sint_bounds [simp]: "- 2147483648 \<le> sint (x :: i32)" "sint (x :: i32) < 2147483648"
  using sint_ge [of x] sint_lt [of x] by simp_all

lemma u64_fits_u32: "uint (x :: u64) < 4294967296 \<longleftrightarrow> x < 2 ^ 32"
  by (simp add: word_less_def)

text \<open>What each subcommand means; \<open>-b\<close> is wider on the command line than in \<open>DeviceSpec\<close>.\<close>

definition cmd_meaning :: "(string \<Rightarrow> string option) \<Rightarrow> (string \<Rightarrow> path) \<Rightarrow> cmd \<Rightarrow> request option" where
  "cmd_meaning canon path_of c =
     (let at = (\<lambda>n b. \<lparr>tg_dev_id = n, tg_backing = map_option (canonical_path canon) b\<rparr>) in
      case c of
        CmdDaemon fg \<Rightarrow> None
      | CmdAdd backing gr meta number queues depth buf buffered \<Rightarrow>
          if buf < 2 ^ 32 then Some (ReqAdd \<lparr>spec_backing = canonical_path canon backing, spec_granularity = gr,
            spec_meta = map_option path_of meta, spec_dev_id = number, spec_queues = queues, spec_depth = depth,
            spec_buf_size = ucast buf, spec_buffered = buffered\<rparr>) else None
      | CmdDel n b \<Rightarrow> Some (ReqDel (at n b))
      | CmdList \<Rightarrow> Some ReqList
      | CmdStatus n b \<Rightarrow> Some (ReqStatus (at n b))
      | CmdCheckpoint n b all \<Rightarrow> Some (if all then ReqCheckpointAll else ReqCheckpoint (at n b))
      | CmdDump n b since gen \<Rightarrow> Some (ReqDump (at n b) since gen)
      | CmdShutdown \<Rightarrow> Some ReqShutdown)"

lemma decode_target_req:
  "decode_target (target_req canon c n b) =
     Some \<lparr>tg_dev_id = n, tg_backing = map_option (canonical_path canon) b\<rparr>"
  by (cases n; cases b)
    (simp_all add: target_req_def decode_target_def opt_str_field_def u32_json_def Let_def)

lemma target_req_cmd [simp]: "jget ''cmd'' (target_req canon c n b) = JStr c"
  by (cases n; cases b) (simp_all add: target_req_def)

lemma decode_dump:
  "decode_request path_of (case gen of None \<Rightarrow> jset ''since'' (u32_json since) (target_req canon ''dump'' n b)
     | Some g \<Rightarrow> jset ''generation'' (JStr g) (jset ''since'' (u32_json since) (target_req canon ''dump'' n b))) =
   Some (ReqDump \<lparr>tg_dev_id = n, tg_backing = map_option (canonical_path canon) b\<rparr> since gen)"
  by (cases n; cases b; cases gen)
    (simp_all add: target_req_def decode_request_def as_str_def decode_target_def opt_str_field_def u32_json_def)

lemma decode_add:
  "decode_spec path_of (JObj [(''cmd'', JStr ''add''), (''backing'', JStr b), (''granularity'', u64_json gr),
      (''meta'', opt_str meta), (''dev_id'', JNum (sint number)), (''queues'', JNum (uint queues)),
      (''depth'', JNum (uint depth)), (''buf_size'', u64_json buf), (''buffered'', JBool buffered)]) =
    (if buf < 2 ^ 32 then Some \<lparr>spec_backing = b, spec_granularity = gr,
       spec_meta = map_option path_of meta, spec_dev_id = number, spec_queues = queues, spec_depth = depth,
       spec_buf_size = ucast buf, spec_buffered = buffered\<rparr> else None)"
proof -
  have "of_int (uint buf) = (ucast buf :: u32)" by (simp flip: ucast_eq)
  then show ?thesis
    by (cases meta) (simp_all add: decode_spec_def str_field_def opt_str_field_def bool_field_def opt_str_def
        u64_json_def u64_fits_u32)
qed

lemma decode_cmd_req:
  "decode_request path_of (case cmd_req canon c of None \<Rightarrow> JNull | Some v \<Rightarrow> v) = cmd_meaning canon path_of c"
proof (cases c)
  case (CmdAdd backing gr meta number queues depth buf buffered)
  then show ?thesis
    by (simp add: cmd_req_def decode_request_def as_str_def decode_add cmd_meaning_def)
next
  case (CmdDump n b since gen)
  then show ?thesis by (simp add: cmd_req_def cmd_meaning_def decode_dump Let_def)
next
  case (CmdCheckpoint n b all)
  then show ?thesis
    by (cases all) (simp_all add: cmd_req_def decode_request_def decode_target_req cmd_meaning_def as_str_def)
qed (simp_all add: cmd_req_def decode_request_def decode_target_req as_str_def cmd_meaning_def)

section \<open>Properties\<close>

text \<open>
  C40. Every subcommand reaches the daemon as the request it means: decoding what \<open>main\<close> sends
  gives that request with the same fields, the backing path canonicalised, the metadata path
  as it was typed, and an \<open>add\<close> whose buffer size does not fit in 32 bits is a bad request.
\<close>

theorem cli_request_decoded:
  "decode_request path_of (case cmd_req canon c of None \<Rightarrow> JNull | Some v \<Rightarrow> v) = cmd_meaning canon path_of c"
  by (rule decode_cmd_req)

text \<open>
  A subcommand against a running daemon: the request is written to the socket, the daemon
  decodes and handles it (\<open>delivered\<close>: its reply could be written and read back), and \<open>main\<close>
  turns the reply into the exit status. The reply of a request the daemon could not parse has
  the text that \<open>serde\<close> gives.
\<close>

definition cli_exchange :: "texts \<Rightarrow> (string \<Rightarrow> string option) \<Rightarrow> (string \<Rightarrow> path) \<Rightarrow> answers \<Rightarrow> bool \<Rightarrow> cmd \<Rightarrow>
    world \<Rightarrow> world \<times> nat" where
  "cli_exchange tx canon path_of a delivered c w = (case cmd_req canon c of
      None \<Rightarrow> (w, 1)
    | Some req \<Rightarrow>
        (case handle tx \<lparr>read_ok = True, parsed = decode_request path_of req, write_ok = delivered,
            conn_answers = a\<rparr> w of
          (w', resp, _) \<Rightarrow> (w', exit_status (client_request True True
             (if delivered then map_option Inr resp else None)))))"

lemma ok_not_false: "is_ok v \<Longrightarrow> jget ''ok'' v \<noteq> JBool False"
  by (simp add: is_ok_def)

lemma cmd_req_Some: "cmd_meaning canon path_of c = Some req \<Longrightarrow> \<exists>v. cmd_req canon c = Some v"
  by (cases c) (simp_all add: cmd_meaning_def cmd_req_def Let_def)

text \<open>
  C36. The exit status of the command line tells what the daemon did. A subcommand that means a
  request leaves the daemon in the state that operation ends in, and exits with 0 exactly when
  the operation succeeded and its reply was delivered; a reply that is lost exits with 1 although
  the operation took place. An \<open>add\<close> with a buffer size of 4 GiB or more changes nothing and
  exits with 1.
\<close>

theorem cli_exit_reports_outcome:
  "cli_exchange tx canon path_of a delivered c w = (case cmd_meaning canon path_of c of
      None \<Rightarrow> (w, 1)
    | Some req \<Rightarrow> (fst (dispatch tx a req w),
        if delivered \<and> (\<exists>v. snd (dispatch tx a req w) = Inr v) then 0 else 1))"
proof (cases "cmd_req canon c")
  case None
  then have "cmd_meaning canon path_of c = None" using cmd_req_Some by fastforce
  with None show ?thesis by (simp add: cli_exchange_def)
next
  case (Some v)
  then have dec: "decode_request path_of v = cmd_meaning canon path_of c"
    using decode_cmd_req [of path_of canon c] by simp
  show ?thesis
  proof (cases "cmd_meaning canon path_of c")
    case None
    with Some dec show ?thesis
      by (simp add: cli_exchange_def handle_def client_request_def exit_status_def err_reply_def)
  next
    case (Some req)
    obtain w' r where d: "dispatch tx a req w = (w', r)" by fastforce
    then have "is_ok x" if "r = Inr x" for x using that dispatch_ok [of tx a req w x] by simp
    then show ?thesis
      using Some dec d \<open>cmd_req canon c = Some v\<close> ok_not_false
      by (cases r) (auto simp: cli_exchange_def handle_def client_request_def exit_status_def err_reply_def)
  qed
qed

lemma find_unique:
  assumes "x \<in> set xs" and "P x" and "\<And>y. y \<in> set xs \<Longrightarrow> P y \<Longrightarrow> y = x"
  shows "List.find P xs = Some x"
proof -
  have "List.find P xs \<noteq> None" using assms(1,2) by (auto simp: find_None_iff)
  then obtain y where y: "List.find P xs = Some y" by blast
  then have "y \<in> set xs" "P y" by (auto simp: find_Some_iff)
  then show ?thesis using y assms(3) by simp
qed

text \<open>
  A device is found under any name of its backing store: if it was added as \<open>p\<close>, and the
  stored paths are canonical, a command with \<open>-f q\<close> for another name \<open>q\<close> of the same file,
  relative or through a link, is decoded and resolved to that device.
\<close>

theorem alias_resolves:
  assumes "reg_ok w" and "map_of (devices (reap w)) dv = Some m"
    and "canon p = Some c" and "canon q = Some c" and "m_backing m = canonical_path canon p"
    and "\<forall>x\<in>set (devices (reap w)). canon (m_backing (snd x)) = Some (m_backing (snd x))"
  shows "\<exists>tg. decode_request path_of (the (cmd_req canon (CmdDel None (Some q)))) = Some (ReqDel tg) \<and>
    snd (resolve canon tg w) = Inr dv"
proof -
  let ?tg = "\<lparr>tg_dev_id = None, tg_backing = Some c\<rparr>"
  have c: "m_backing m = c" "canonical_path canon q = c" using assms(3-5) by (simp_all add: canonical_path_def)
  have mem: "(dv, m) \<in> set (devices (reap w))" using assms(2) by (rule map_of_SomeD)
  have dist: "distinct (map (\<lambda>(_, m). m_backing m) (devices (reap w)))"
    using reg_ok_reap [OF assms(1)] by (simp add: reg_ok_def)
  have canon: "canon c = Some c" using bspec [OF assms(6) mem] c(1) by simp
  have "List.find (\<lambda>(_, m). m_backing m = c \<or> canon c \<noteq> None \<and> canon (m_backing m) = canon c)
      (devices (reap w)) = Some (dv, m)"
  proof (rule find_unique [OF mem])
    fix y
    assume y: "y \<in> set (devices (reap w))" "case y of (_, m) \<Rightarrow> m_backing m = c \<or> canon c \<noteq> None \<and> canon (m_backing m) = canon c"
    have "m_backing (snd y) = c" using y(2) bspec [OF assms(6) y(1)] canon by (auto simp: split_beta)
    then have "(\<lambda>(_, m). m_backing m) y = (\<lambda>(_, m). m_backing m) (dv, m)" using c(1) by (simp add: split_beta)
    then show "y = (dv, m)" using inj_onD [OF conjunct2 [OF dist [unfolded distinct_map]] _ y(1) mem] by simp
  qed (simp add: c)
  then have "snd (resolve canon ?tg w) = Inr dv"
    using registered_wf(1) [OF assms(1,2)] by (simp add: resolve_def Let_def)
  moreover have "decode_request path_of (the (cmd_req canon (CmdDel None (Some q)))) = Some (ReqDel ?tg)"
    using c(2) by (simp add: cmd_req_def decode_request_def decode_target_req as_str_def)
  ultimately show ?thesis by blast
qed

theorem alias_resolves_witness:
  "\<exists>tg. decode_request (\<lambda>p. ([], p)) (the (cmd_req (\<lambda>_. Some ''a.img'') (CmdDel None (Some ''./a.img'')))) = Some (ReqDel tg) \<and>
     snd (resolve (\<lambda>_. Some ''a.img'') tg ex_world) = Inr 0"
proof -
  let ?m = "new_entry 0 ex_spec \<lparr>devices = [], arcs = [], threads = [], files = Map.empty\<rparr>"
  have "map_of (devices (reap ex_world)) 0 = Some ?m" "m_backing ?m = ''a.img''"
    by (simp_all add: ex_world_simps new_entry_def ex_spec_def)
  moreover have "\<forall>x\<in>set (devices (reap ex_world)). (\<lambda>_. Some ''a.img'') (m_backing (snd x)) = Some (m_backing (snd x))"
    by (simp add: ex_world_simps new_entry_def ex_spec_def)
  ultimately show ?thesis
    using alias_resolves [OF ex_world_ok, of 0 ?m "\<lambda>_. Some ''a.img''" "''a.img''" "''a.img''" "''./a.img''" "\<lambda>p. ([], p)"]
    by (simp add: canonical_path_def)
qed

end
