(* ===== verification/Chaos.thy ===== *)
theory Chaos
  imports Json Era
begin

text \<open>
  The chaos harness (\<^verbatim>\<open>src/src/bin/chaos.rs\<close>): seeded writes, checkpoints, backups, clean
  re-attaches, killed daemons (idle and with writes in flight) and lost metadata, with an
  incremental-backup consumer whose image is compared after every backup. The ublkera binary,
  the device and the file system are a parameter, a record of functions on their state; so
  are the turns the writer threads get. An error is \<open>Inl\<close>; a panic is the error \<open>Panicked\<close>.
\<close>

section \<open>The code\<close>

text \<open>splitmix64: the value drawn and the next state; \<open>below\<close> divides by \<open>n\<close>.\<close>

definition chaos_next :: "u64 \<Rightarrow> u64 \<times> u64" where
  "chaos_next s =
     (let s' = s + 0x9E3779B97F4A7C15;
          z1 = (s' XOR drop_bit 30 s') * 0xBF58476D1CE4E5B9;
          z2 = (z1 XOR drop_bit 27 z1) * 0x94D049BB133111EB
      in (z2 XOR drop_bit 31 z2, s'))"

definition chaos_below :: "u64 \<Rightarrow> u64 \<Rightarrow> (u64 \<times> u64) option" where
  "chaos_below n s = (case chaos_next s of (v, s') \<Rightarrow> if n = 0 then None else Some (v mod n, s'))"

function chaos_fill :: "nat \<Rightarrow> u64 \<Rightarrow> u8 list \<times> u64" where
  "chaos_fill n s = (if n = 0 then ([], s)
     else case chaos_next s of (v, s') \<Rightarrow> (case chaos_fill (n - 8) s' of (bs, s'') \<Rightarrow>
       (take (min 8 n) (le_u64 v) @ bs, s'')))"
  by pat_completeness auto
termination
  by (relation "measure fst") auto

declare chaos_fill.simps [simp del]

definition MAX_WRITE :: u64 where
  "MAX_WRITE = 256 * 1024"

text \<open>
  \<open>DioBuf\<close>: the buffer for direct I/O. \<open>addr\<close> is the address the allocator chose; \<open>dio_get\<close>
  is the slice of \<open>get\<close> and \<open>get_mut\<close>, \<open>None\<close> where it is out of range, and \<open>dio_set\<close>
  an assignment through \<open>get_mut\<close>.
\<close>

record dio_buf =
  db_addr :: nat
  db_store :: "u8 list"
  db_off :: nat
  db_len :: nat

definition dio_new :: "nat \<Rightarrow> nat \<Rightarrow> dio_buf" where
  "dio_new addr len = \<lparr>db_addr = addr, db_store = replicate (len + 4096) 0,
     db_off = (4096 - addr mod 4096) mod 4096, db_len = len\<rparr>"

definition dio_get :: "dio_buf \<Rightarrow> u8 list option" where
  "dio_get b = (if db_off b + db_len b \<le> length (db_store b)
     then Some (take (db_len b) (drop (db_off b) (db_store b))) else None)"

definition dio_set :: "u8 list \<Rightarrow> dio_buf \<Rightarrow> dio_buf" where
  "dio_set bs b = b\<lparr>db_store := write_at (db_off b) bs (db_store b)\<rparr>"

record counters =
  n_writes :: u64
  n_bursts :: u64
  n_backups :: u64
  n_full_copies :: u64
  n_checkpoints :: u64
  n_reattaches :: u64
  n_crashes :: u64
  n_inflight_crashes :: u64
  n_interrupted :: u64
  n_meta_losses :: u64

definition no_counts :: counters where
  "no_counts = \<lparr>n_writes = 0, n_bursts = 0, n_backups = 0, n_full_copies = 0, n_checkpoints = 0,
     n_reattaches = 0, n_crashes = 0, n_inflight_crashes = 0, n_interrupted = 0, n_meta_losses = 0\<rparr>"

text \<open>The lines of the journal, by what they say; \<open>is_backup_note\<close> is the prefix \<open>backup:\<close>.\<close>

datatype journal_note =
    NoteBurst u64
  | NoteCheckpoint json
  | NoteIncremental string u32 nat u64
  | NoteRejected
  | NoteFullCopy
  | NoteReattach
  | NoteCrash
  | NoteInflight u64 nat
  | NoteMetaLoss

definition is_backup_note :: "journal_note \<Rightarrow> bool" where
  "is_backup_note l = (case l of NoteIncremental _ _ _ _ \<Rightarrow> True | NoteRejected \<Rightarrow> True
     | NoteFullCopy \<Rightarrow> True | _ \<Rightarrow> False)"

datatype chaos_error =
    Panicked
  | SpawnError
  | Timeout string
  | CtlError "string list"
  | NoField string
  | NotAttached
  | NotOpen
  | NoDaemon
  | OpenFailed
  | ReadError
  | WriteError nat u64
  | MISMATCH string nat nat nat nat
  | Ensure string
  | WriterPanicked
  | RemoveFailed
  | BackingUnreadable
  | SetupFailed

text \<open>
  The harness. The generator and the state of the outside are threaded along with it. The
  child process and the open device are flags.
\<close>

record 'd harness =
  h_backing :: string
  h_meta :: string
  h_size :: u64
  h_gran :: u64
  h_queues :: u16
  h_buffered :: bool
  h_daemon :: bool
  h_dev_id :: "u64 option"
  h_dev :: bool
  h_generation :: string
  h_expected :: "u8 list"
  h_shadow :: "u8 list"
  h_cursor :: "(string \<times> u32) option"
  h_journal :: "journal_note list"
  h_n :: counters
  h_rng :: u64
  h_sut :: 'd

text \<open>
  The outside: one run of the ublkera binary with its arguments (\<open>None\<close>: it failed, or
  printed no JSON), spawning the daemon (\<open>None\<close>: not spawned; else whether its socket came
  up in time), killing it, waiting for the block device to go, for it to come, opening it,
  reading and writing it, a writer thread opening it, removing the metadata file, reading the
  backing file, creating it, and waiting for the daemon to exit.
\<close>

record 'd sut =
  su_ctl :: "string list \<Rightarrow> 'd \<Rightarrow> json option \<times> 'd"
  su_start :: "'d \<Rightarrow> bool option \<times> 'd"
  su_kill :: "'d \<Rightarrow> 'd"
  su_gone :: "u64 \<Rightarrow> 'd \<Rightarrow> bool \<times> 'd"
  su_node :: "u64 \<Rightarrow> 'd \<Rightarrow> bool \<times> 'd"
  su_open :: "u64 \<Rightarrow> 'd \<Rightarrow> bool \<times> 'd"
  su_read :: "u64 \<Rightarrow> nat \<Rightarrow> 'd \<Rightarrow> u8 list option \<times> 'd"
  su_write :: "u64 \<Rightarrow> u8 list \<Rightarrow> 'd \<Rightarrow> bool \<times> 'd"
  su_remove_meta :: "'d \<Rightarrow> bool \<times> 'd"
  su_backing :: "'d \<Rightarrow> u8 list option \<times> 'd"
  su_create :: "u64 \<Rightarrow> 'd \<Rightarrow> bool \<times> 'd"
  su_exited :: "'d \<Rightarrow> bool \<times> 'd"

text \<open>Operations with an error, in sequence; \<open>chain\<close> is \<open>?\<close> followed by the rest.\<close>

type_synonym ('d, 'a) op = "'d harness \<Rightarrow> (chaos_error + 'a) \<times> 'd harness"

definition chain :: "('d, 'a) op \<Rightarrow> ('a \<Rightarrow> ('d, 'b) op) \<Rightarrow> ('d, 'b) op" where
  "chain m f s = (case m s of (Inl e, s') \<Rightarrow> (Inl e, s') | (Inr x, s') \<Rightarrow> f x s')"

definition ret :: "'a \<Rightarrow> ('d, 'a) op" where
  "ret x s = (Inr x, s)"

definition fail :: "chaos_error \<Rightarrow> ('d, 'a) op" where
  "fail e s = (Inl e, s)"

definition peek :: "('d harness \<Rightarrow> 'a) \<Rightarrow> ('d, 'a) op" where
  "peek f s = (Inr (f s), s)"

definition modify :: "('d harness \<Rightarrow> 'd harness) \<Rightarrow> ('d, unit) op" where
  "modify f s = (Inr (), f s)"

definition ensure :: "bool \<Rightarrow> chaos_error \<Rightarrow> ('d, unit) op" where
  "ensure b e = (if b then ret () else fail e)"

definition need_some :: "chaos_error \<Rightarrow> 'a option \<Rightarrow> ('d, 'a) op" where
  "need_some e x = (case x of None \<Rightarrow> fail e | Some v \<Rightarrow> ret v)"

definition call :: "('d \<Rightarrow> 'a \<times> 'd) \<Rightarrow> ('d, 'a) op" where
  "call f s = (case f (h_sut s) of (x, d) \<Rightarrow> (Inr x, s\<lparr>h_sut := d\<rparr>))"

definition draw :: "u64 \<Rightarrow> ('d, u64) op" where
  "draw n s = (case chaos_below n (h_rng s) of None \<Rightarrow> (Inl Panicked, s)
     | Some (v, r) \<Rightarrow> (Inr v, s\<lparr>h_rng := r\<rparr>))"

definition tally :: "(counters \<Rightarrow> counters) \<Rightarrow> ('d, unit) op" where
  "tally f = modify (\<lambda>s. s\<lparr>h_n := f (h_n s)\<rparr>)"

definition log_note :: "journal_note \<Rightarrow> ('d, unit) op" where
  "log_note l = modify (\<lambda>s. s\<lparr>h_journal := h_journal s @ [l]\<rparr>)"

definition run_ctl :: "'d sut \<Rightarrow> string list \<Rightarrow> ('d, json) op" where
  "run_ctl out args = chain (call (su_ctl out args)) (need_some (CtlError args))"

definition start_daemon :: "'d sut \<Rightarrow> ('d, unit) op" where
  "start_daemon out = chain (call (su_start out)) (\<lambda>r. case r of
      None \<Rightarrow> fail SpawnError
    | Some up \<Rightarrow> chain (modify (\<lambda>s. s\<lparr>h_daemon := True\<rparr>)) (\<lambda>_. ensure up (Timeout ''daemon socket'')))"

definition wait_bdev_gone :: "'d sut \<Rightarrow> ('d, unit) op" where
  "wait_bdev_gone out = chain (peek h_dev_id) (\<lambda>r. case r of
      None \<Rightarrow> ret ()
    | Some i \<Rightarrow> chain (modify (\<lambda>s. s\<lparr>h_dev_id := None\<rparr>)) (\<lambda>_.
        chain (call (su_gone out i)) (\<lambda>ok. ensure ok (Timeout ''disappear''))))"

definition kill_daemon :: "'d sut \<Rightarrow> ('d, unit) op" where
  "kill_daemon out = chain (modify (\<lambda>s. s\<lparr>h_dev := False\<rparr>)) (\<lambda>_.
     chain (peek h_daemon) (\<lambda>running.
     chain (ensure running NoDaemon) (\<lambda>_.
     chain (modify (\<lambda>s. s\<lparr>h_daemon := False\<rparr>)) (\<lambda>_.
     chain (call (\<lambda>d. ((), su_kill out d))) (\<lambda>_. wait_bdev_gone out)))))"

definition attach_args :: "string \<Rightarrow> u64 \<Rightarrow> u16 \<Rightarrow> string \<Rightarrow> bool \<Rightarrow> string list" where
  "attach_args backing gr queues meta buffered =
     [''add'', ''-f'', backing, ''-g'', decimal (unat gr), ''-q'', decimal (unat queues),
      ''--meta'', meta] @ (if buffered then [''--buffered''] else [])"

definition attach :: "'d sut \<Rightarrow> ('d, json) op" where
  "attach out =
     chain (peek (\<lambda>s. attach_args (h_backing s) (h_gran s) (h_queues s) (h_meta s) (h_buffered s))) (\<lambda>args.
     chain (run_ctl out args) (\<lambda>v.
     chain (need_some (NoField ''dev_id'') (as_u64 (jget ''dev_id'' v))) (\<lambda>i.
     chain (modify (\<lambda>s. s\<lparr>h_dev_id := Some (of_int i)\<rparr>)) (\<lambda>_.
     chain (need_some (NoField ''generation'') (as_str (jget ''generation'' v))) (\<lambda>g.
     chain (modify (\<lambda>s. s\<lparr>h_generation := g\<rparr>)) (\<lambda>_.
     chain (call (su_node out (of_int i))) (\<lambda>ok.
     chain (ensure ok (Timeout ''block node'')) (\<lambda>_.
     chain (call (su_open out (of_int i))) (\<lambda>ok.
     chain (ensure ok OpenFailed) (\<lambda>_.
     chain (modify (\<lambda>s. s\<lparr>h_dev := True\<rparr>)) (\<lambda>_. ret v)))))))))))"

definition dev_arg :: "u64 \<Rightarrow> string" where
  "dev_arg i = decimal (unat i)"

definition detach :: "'d sut \<Rightarrow> ('d, unit) op" where
  "detach out = chain (modify (\<lambda>s. s\<lparr>h_dev := False\<rparr>)) (\<lambda>_.
     chain (peek h_dev_id) (\<lambda>r.
     chain (need_some NotAttached r) (\<lambda>i.
     chain (run_ctl out [''del'', ''-n'', dev_arg i]) (\<lambda>_. wait_bdev_gone out))))"

text \<open>\<open>read_device\<close> in pieces of 1 MiB; \<open>acc\<close> is the part of the buffer that is filled.\<close>

function read_loop :: "'d sut \<Rightarrow> nat \<Rightarrow> u8 list \<Rightarrow> ('d, u8 list) op" where
  "read_loop out tot acc s =
     (if tot \<le> length acc then (Inr acc, s)
      else case su_read out (of_nat (length acc)) (min (tot - length acc) (2 ^ 20)) (h_sut s) of
        (None, d) \<Rightarrow> (Inl ReadError, s\<lparr>h_sut := d\<rparr>)
      | (Some buf, d) \<Rightarrow>
          if length buf = min (tot - length acc) (2 ^ 20) then read_loop out tot (acc @ buf) (s\<lparr>h_sut := d\<rparr>)
          else (Inl ReadError, s\<lparr>h_sut := d\<rparr>))"
  by pat_completeness auto
termination
  by (relation "measure (\<lambda>(out, tot, acc, s). tot - length acc)") auto

declare read_loop.simps [simp del]

definition read_device :: "'d sut \<Rightarrow> ('d, u8 list) op" where
  "read_device out = chain (peek h_dev) (\<lambda>opened.
     chain (ensure opened NotOpen) (\<lambda>_.
     chain (peek h_size) (\<lambda>sz. read_loop out (unat sz) [])))"


text \<open>One write of a burst, and the burst.\<close>

definition write_one :: "'d sut \<Rightarrow> ('d, unit) op" where
  "write_one out =
     chain (peek h_size) (\<lambda>sz.
     chain (draw (sz div 4096)) (\<lambda>b.
     let off = 4096 * b; max_len = min MAX_WRITE (sz - off) in
     chain (draw (max_len div 4096)) (\<lambda>k.
     let len = unat (4096 * (1 + k)) in
     chain (peek (\<lambda>s. chaos_fill len (h_rng s))) (\<lambda>(data, r).
     chain (modify (\<lambda>s. s\<lparr>h_rng := r\<rparr>)) (\<lambda>_.
     chain (peek h_dev) (\<lambda>opened.
     chain (ensure opened NotOpen) (\<lambda>_.
     chain (call (su_write out off data)) (\<lambda>ok.
     chain (ensure ok (WriteError len off)) (\<lambda>_.
     chain (peek (\<lambda>s. unat off + len \<le> length (h_expected s))) (\<lambda>fits.
     chain (ensure fits Panicked) (\<lambda>_.
     chain (modify (\<lambda>s. s\<lparr>h_expected := write_at (unat off) data (h_expected s)\<rparr>)) (\<lambda>_.
       tally (\<lambda>n. n\<lparr>n_writes := n_writes n + 1\<rparr>)))))))))))))"

fun write_many :: "'d sut \<Rightarrow> nat \<Rightarrow> ('d, unit) op" where
  "write_many out 0 = ret ()"
| "write_many out (Suc n) = chain (write_one out) (\<lambda>_. write_many out n)"

definition op_write_burst :: "'d sut \<Rightarrow> ('d, unit) op" where
  "op_write_burst out = chain (draw 24) (\<lambda>c.
     chain (write_many out (unat (1 + c))) (\<lambda>_.
     chain (tally (\<lambda>n. n\<lparr>n_bursts := n_bursts n + 1\<rparr>)) (\<lambda>_. log_note (NoteBurst (1 + c)))))"

definition op_checkpoint :: "'d sut \<Rightarrow> ('d, unit) op" where
  "op_checkpoint out = chain (peek h_dev_id) (\<lambda>r.
     chain (need_some NotAttached r) (\<lambda>i.
     chain (run_ctl out [''checkpoint'', ''-n'', dev_arg i]) (\<lambda>v.
     chain (tally (\<lambda>n. n\<lparr>n_checkpoints := n_checkpoints n + 1\<rparr>)) (\<lambda>_.
       log_note (NoteCheckpoint (jget ''closed_era'' v))))))"

text \<open>
  The consumer: one range copied into the image in pieces of 1 MiB, the ranges of a dump, and
  the length they add up to.
\<close>

function copy_range :: "'d sut \<Rightarrow> u64 \<Rightarrow> u64 \<Rightarrow> u64 \<Rightarrow> ('d, unit) op" where
  "copy_range out off len pos s =
     (if len \<le> pos then (Inr (), s)
      else let n = unat (min (len - pos) (2 ^ 20)); dst = unat (off + pos) in
        case su_read out (off + pos) n (h_sut s) of
          (None, d) \<Rightarrow> (Inl ReadError, s\<lparr>h_sut := d\<rparr>)
        | (Some buf, d) \<Rightarrow>
            if length buf \<noteq> n then (Inl ReadError, s\<lparr>h_sut := d\<rparr>)
            else if length (h_shadow s) < dst + n then (Inl Panicked, s\<lparr>h_sut := d\<rparr>)
            else copy_range out off len (pos + of_nat n)
              (s\<lparr>h_sut := d, h_shadow := write_at dst buf (h_shadow s)\<rparr>))"
  by pat_completeness auto
termination
proof (relation "measure (\<lambda>(out, off, len, pos, s). unat len - unat pos)", simp, goal_cases)
  case (1 out off len pos s n dst x d buf)
  have lt: "unat pos < unat len" using 1(1) by (simp add: word_less_nat_alt not_le)
  have d: "unat (len - pos) = unat len - unat pos" using 1(1) by (simp add: unat_sub)
  have n: "n \<le> unat len - unat pos" "0 < n"
    using lt by (simp_all add: 1(2) unat_min d)
  have "unat (pos + of_nat n) = unat pos + n"
    using n lt unat_u64_less [of len] by (intro unat_add_of_nat) simp
  then show ?case using n lt by simp
qed

declare copy_range.simps [simp del]

definition as_array :: "json \<Rightarrow> json list option" where
  "as_array v = (case v of JArr xs \<Rightarrow> Some xs | _ \<Rightarrow> None)"

fun copy_ranges :: "'d sut \<Rightarrow> json list \<Rightarrow> u64 \<Rightarrow> ('d, u64) op" where
  "copy_ranges out [] copied = ret copied"
| "copy_ranges out (r # rs) copied =
     chain (need_some (NoField ''range offset'') (as_u64 (jget ''offset'' r))) (\<lambda>off.
     chain (need_some (NoField ''range len'') (as_u64 (jget ''len'' r))) (\<lambda>len.
     chain (peek h_dev) (\<lambda>opened.
     chain (ensure opened NotOpen) (\<lambda>_.
     chain (copy_range out (of_int off) (of_int len) 0) (\<lambda>_.
       copy_ranges out rs (copied + of_int len))))))"

text \<open>The two comparisons.\<close>

definition diff_offsets :: "nat \<Rightarrow> nat \<Rightarrow> nat list" where
  "diff_offsets sz gr = map (\<lambda>i. i * gr) [0..<(sz + gr - 1) div gr]"

definition bad_chunks :: "nat \<Rightarrow> nat \<Rightarrow> u8 list \<Rightarrow> u8 list \<Rightarrow> nat" where
  "bad_chunks sz gr actual model = length (filter (\<lambda>off.
     take (min (off + gr) sz - off) (drop off actual) \<noteq> take (min (off + gr) sz - off) (drop off model))
     (diff_offsets sz gr))"

definition diff :: "string \<Rightarrow> u8 list \<Rightarrow> u8 list \<Rightarrow> ('d, unit) op" where
  "diff what actual model =
     (if actual = model then ret ()
      else chain (peek (\<lambda>s. (h_size s, h_gran s))) (\<lambda>(sz, gr).
        let first = length (takeWhile (\<lambda>(a, b). a = b) (zip actual model)) in
        if first = length (zip actual model) \<or> gr = 0 \<or> length actual < unat sz \<or> length model < unat sz
        then fail Panicked
        else fail (MISMATCH what first (first div unat gr) (bad_chunks (unat sz) (unat gr) actual model)
          ((unat sz + unat gr - 1) div unat gr))))"

definition verify :: "'d sut \<Rightarrow> ('d, unit) op" where
  "verify out = chain (read_device out) (\<lambda>actual.
     chain (peek h_expected) (\<lambda>expected.
     chain (diff ''passthrough (device vs expected)'' actual expected) (\<lambda>_.
     chain (peek h_shadow) (\<lambda>shadow.
       diff ''CBT (backup image vs device)'' actual shadow))))"

definition dump_args :: "u64 \<Rightarrow> string \<Rightarrow> u32 \<Rightarrow> string list" where
  "dump_args i gen era =
     [''dump'', ''-n'', dev_arg i, ''--since'', decimal (unat era), ''--generation'', gen]"

text \<open>\<open>op_backup_verify\<close>: a failed \<open>dump\<close> is a rejected cursor, not an error.\<close>

definition try_incremental :: "'d sut \<Rightarrow> u64 \<Rightarrow> ('d, bool) op" where
  "try_incremental out i = chain (peek h_cursor) (\<lambda>c. case c of
      None \<Rightarrow> ret False
    | Some (gen, era) \<Rightarrow> chain (call (su_ctl out (dump_args i gen era))) (\<lambda>r. case r of
          None \<Rightarrow> chain (log_note NoteRejected) (\<lambda>_. ret False)
        | Some d \<Rightarrow>
            chain (need_some (NoField ''ranges'') (as_array (jget ''ranges'' d))) (\<lambda>ranges.
            chain (copy_ranges out ranges 0) (\<lambda>copied.
            chain (log_note (NoteIncremental gen era (length ranges) copied)) (\<lambda>_. ret True)))))"

definition full_copy :: "'d sut \<Rightarrow> ('d, unit) op" where
  "full_copy out = chain (read_device out) (\<lambda>data.
     chain (modify (\<lambda>s. s\<lparr>h_shadow := data\<rparr>)) (\<lambda>_.
     chain (tally (\<lambda>n. n\<lparr>n_full_copies := n_full_copies n + 1\<rparr>)) (\<lambda>_.
     chain (peek h_journal) (\<lambda>j.
       if j = [] \<or> \<not> is_backup_note (last j) then log_note NoteFullCopy else ret ()))))"

definition op_backup_verify :: "'d sut \<Rightarrow> ('d, unit) op" where
  "op_backup_verify out = chain (peek h_dev_id) (\<lambda>r.
     chain (need_some NotAttached r) (\<lambda>i.
     chain (run_ctl out [''checkpoint'', ''-n'', dev_arg i]) (\<lambda>v.
     chain (need_some (NoField ''closed_era'') (as_u64 (jget ''closed_era'' v))) (\<lambda>closed.
     chain (tally (\<lambda>n. n\<lparr>n_checkpoints := n_checkpoints n + 1\<rparr>)) (\<lambda>_.
     chain (try_incremental out i) (\<lambda>incremental.
     chain (if incremental then ret () else full_copy out) (\<lambda>_.
     chain (modify (\<lambda>s. s\<lparr>h_cursor := Some (h_generation s, of_int closed)\<rparr>)) (\<lambda>_.
     chain (tally (\<lambda>n. n\<lparr>n_backups := n_backups n + 1\<rparr>)) (\<lambda>_. verify out)))))))))"

definition unclean :: "json \<Rightarrow> bool" where
  "unclean v \<longleftrightarrow> jget ''recovered_unclean'' v = JBool True"

definition op_reattach :: "'d sut \<Rightarrow> ('d, unit) op" where
  "op_reattach out = chain (peek h_generation) (\<lambda>old_gen.
     chain (detach out) (\<lambda>_.
     chain (attach out) (\<lambda>v.
     chain (ensure (\<not> unclean v) (Ensure ''clean detach was flagged recovered_unclean'')) (\<lambda>_.
     chain (peek h_generation) (\<lambda>g.
     chain (ensure (g = old_gen) (Ensure ''generation changed across clean re-attach'')) (\<lambda>_.
     chain (tally (\<lambda>n. n\<lparr>n_reattaches := n_reattaches n + 1\<rparr>)) (\<lambda>_. log_note NoteReattach)))))))"

definition op_crash :: "'d sut \<Rightarrow> ('d, unit) op" where
  "op_crash out = chain (peek h_generation) (\<lambda>old_gen.
     chain (kill_daemon out) (\<lambda>_.
     chain (start_daemon out) (\<lambda>_.
     chain (attach out) (\<lambda>v.
     chain (ensure (unclean v) (Ensure ''crash recovery not flagged recovered_unclean'')) (\<lambda>_.
     chain (peek h_generation) (\<lambda>g.
     chain (ensure (g = old_gen) (Ensure ''generation changed across crash recovery'')) (\<lambda>_.
     chain (tally (\<lambda>n. n\<lparr>n_crashes := n_crashes n + 1\<rparr>)) (\<lambda>_. log_note NoteCrash))))))))"

text \<open>
  The writer threads of \<open>op_crash_inflight\<close>. A writer has its slice of the device, its
  generator, and the logs of its completed writes and of the one that failed. A turn opens
  the device first, and is one turn of the loop after that; a writer that has ended, or that
  sees \<open>stop\<close>, has no turn.
\<close>

datatype writer_pc = WOpen | WLoop | WDone | WPanic

record writer =
  w_base :: u64
  w_rng :: u64
  w_pc :: writer_pc
  w_ok :: "(u64 \<times> u8 list) list"
  w_undefined :: "(u64 \<times> u64) list"

definition WRITERS :: u64 where
  "WRITERS = 4"

definition writer_gen :: "u64 \<Rightarrow> u64 \<Rightarrow> u64 \<Rightarrow> (u64 \<times> u8 list \<times> u64) option" where
  "writer_gen sl base r = (case chaos_below (sl div 4096) r of
      None \<Rightarrow> None
    | Some (b, r1) \<Rightarrow>
        let off = base + 4096 * b; max_len = min MAX_WRITE (base + sl - off) in
        (case chaos_below (max_len div 4096) r1 of
           None \<Rightarrow> None
         | Some (k, r2) \<Rightarrow> (case chaos_fill (unat (4096 * (1 + k))) r2 of (data, r3) \<Rightarrow> Some (off, data, r3))))"

definition writer_turn :: "'d sut \<Rightarrow> u64 \<Rightarrow> u64 \<Rightarrow> writer \<Rightarrow> 'd \<Rightarrow> writer \<times> 'd" where
  "writer_turn out dev_id sl w d = (case w_pc w of
      WOpen \<Rightarrow> (case su_open out dev_id d of (ok, d') \<Rightarrow> (w\<lparr>w_pc := if ok then WLoop else WDone\<rparr>, d'))
    | WLoop \<Rightarrow> (case writer_gen sl (w_base w) (w_rng w) of
          None \<Rightarrow> (w\<lparr>w_pc := WPanic\<rparr>, d)
        | Some (off, data, r) \<Rightarrow> (case su_write out off data d of
              (True, d') \<Rightarrow> (w\<lparr>w_rng := r, w_ok := w_ok w @ [(off, data)]\<rparr>, d')
            | (False, d') \<Rightarrow> (w\<lparr>w_rng := r, w_pc := WDone,
                w_undefined := w_undefined w @ [(off, of_nat (length data))]\<rparr>, d')))
    | _ \<Rightarrow> (w, d))"

fun writer_turns :: "'d sut \<Rightarrow> u64 \<Rightarrow> u64 \<Rightarrow> nat list \<Rightarrow> writer list \<Rightarrow> 'd \<Rightarrow> writer list \<times> 'd" where
  "writer_turns out i sl [] ws d = (ws, d)"
| "writer_turns out i sl (t # ts) ws d =
     (if t < length ws then (case writer_turn out i sl (ws ! t) d of
        (w, d') \<Rightarrow> writer_turns out i sl ts (ws[t := w]) d')
      else writer_turns out i sl ts ws d)"

text \<open>The threads are started in order, each with a seed drawn from the generator.\<close>

fun spawn_writers :: "u64 \<Rightarrow> u64 list \<Rightarrow> u64 \<Rightarrow> writer list \<times> u64" where
  "spawn_writers sl [] r = ([], r)"
| "spawn_writers sl (t # ts) r = (case chaos_next r of (seed, r') \<Rightarrow>
     (case spawn_writers sl ts r' of (ws, r'') \<Rightarrow>
        (\<lparr>w_base = t * sl, w_rng = seed, w_pc = WOpen, w_ok = [], w_undefined = []\<rparr> # ws, r'')))"

text \<open>The logs are replayed writer by writer, in the order the threads were started.\<close>

fun replay :: "(u64 \<times> u8 list) list \<Rightarrow> u8 list \<Rightarrow> u8 list option" where
  "replay [] xs = Some xs"
| "replay ((off, data) # ws) xs =
     (if unat off + length data \<le> length xs then replay ws (write_at (unat off) data xs) else None)"

fun adopt :: "'d sut \<Rightarrow> (u64 \<times> u64) list \<Rightarrow> ('d, unit) op" where
  "adopt out [] = ret ()"
| "adopt out ((off, len) # rs) =
     chain (call (su_read out off (unat len))) (\<lambda>r.
     chain (need_some ReadError r) (\<lambda>buf.
     chain (peek (\<lambda>s. length buf = unat len \<and> unat off + unat len \<le> length (h_expected s))) (\<lambda>fits.
     chain (ensure fits Panicked) (\<lambda>_.
     chain (modify (\<lambda>s. s\<lparr>h_expected := write_at (unat off) buf (h_expected s)\<rparr>)) (\<lambda>_.
       adopt out rs)))))"


fun join_writers :: "writer list \<Rightarrow> u64 \<Rightarrow> (u64 \<times> u64) list \<Rightarrow> ('d, u64 \<times> (u64 \<times> u64) list) op" where
  "join_writers [] completed undef = ret (completed, undef)"
| "join_writers (w # ws) completed undef =
     chain (ensure (w_pc w \<noteq> WPanic) WriterPanicked) (\<lambda>_.
     chain (peek (\<lambda>s. replay (w_ok w) (h_expected s))) (\<lambda>r.
     chain (need_some Panicked r) (\<lambda>xs.
     chain (modify (\<lambda>s. s\<lparr>h_expected := xs\<rparr>)) (\<lambda>_.
       join_writers ws (completed + of_nat (length (w_ok w))) (undef @ w_undefined w)))))"

text \<open>
  \<open>op_crash_inflight\<close>. \<open>before\<close> are the turns of the writers up to the end of
  \<open>kill_daemon\<close>, \<open>after\<close> those until they see \<open>stop\<close>.
\<close>

definition writer_slice :: "u64 \<Rightarrow> u64" where
  "writer_slice sz = sz div WRITERS div 4096 * 4096"

definition race_writers ::
    "'d sut \<Rightarrow> u64 \<Rightarrow> u64 \<Rightarrow> nat list \<Rightarrow> nat list \<Rightarrow> ('d, u64 \<times> (u64 \<times> u64) list) op" where
  "race_writers out i sl before after =
     chain (peek (\<lambda>s. spawn_writers sl [0, 1, 2, 3] (h_rng s))) (\<lambda>(ws, r).
     chain (modify (\<lambda>s. s\<lparr>h_rng := r\<rparr>)) (\<lambda>_.
     chain (draw 250) (\<lambda>_.
     chain (call (writer_turns out i sl before ws)) (\<lambda>ws1.
     chain (kill_daemon out) (\<lambda>_.
     chain (call (writer_turns out i sl after ws1)) (\<lambda>ws2.
       join_writers ws2 0 []))))))"

definition inflight_check :: "'d sut \<Rightarrow> string \<Rightarrow> u64 \<Rightarrow> (u64 \<times> u64) list \<Rightarrow> ('d, unit) op" where
  "inflight_check out old_gen completed undef =
     chain (tally (\<lambda>n. n\<lparr>n_writes := n_writes n + completed\<rparr>)) (\<lambda>_.
     chain (start_daemon out) (\<lambda>_.
     chain (attach out) (\<lambda>v.
     chain (ensure (unclean v) (Ensure ''in-flight crash recovery not flagged recovered_unclean'')) (\<lambda>_.
     chain (peek h_generation) (\<lambda>g.
     chain (ensure (g = old_gen) (Ensure ''generation changed across in-flight crash'')) (\<lambda>_.
     chain (peek h_dev) (\<lambda>opened.
     chain (ensure opened NotOpen) (\<lambda>_.
     chain (adopt out undef) (\<lambda>_.
     chain (read_device out) (\<lambda>actual.
     chain (peek h_expected) (\<lambda>expected.
     chain (diff ''completed writes across in-flight SIGKILL'' actual expected) (\<lambda>_.
     chain (tally (\<lambda>n. n\<lparr>n_inflight_crashes := n_inflight_crashes n + 1,
         n_interrupted := n_interrupted n + of_nat (length undef)\<rparr>)) (\<lambda>_.
       log_note (NoteInflight completed (length undef)))))))))))))))"

definition op_crash_inflight :: "'d sut \<Rightarrow> nat list \<Rightarrow> nat list \<Rightarrow> ('d, unit) op" where
  "op_crash_inflight out before after = chain (peek (\<lambda>s. writer_slice (h_size s))) (\<lambda>sl.
     if sl = 0 then op_crash out
     else chain (peek h_generation) (\<lambda>old_gen.
       chain (peek h_dev_id) (\<lambda>r.
       chain (need_some NotAttached r) (\<lambda>i.
       chain (race_writers out i sl before after) (\<lambda>(completed, undef).
         inflight_check out old_gen completed undef)))))"

definition op_lose_meta :: "'d sut \<Rightarrow> ('d, unit) op" where
  "op_lose_meta out = chain (peek h_generation) (\<lambda>old_gen.
     chain (detach out) (\<lambda>_.
     chain (call (su_remove_meta out)) (\<lambda>ok.
     chain (ensure ok RemoveFailed) (\<lambda>_.
     chain (attach out) (\<lambda>v.
     chain (ensure (\<not> unclean v)
       (Ensure ''fresh attach after metadata loss was flagged recovered_unclean'')) (\<lambda>_.
     chain (peek h_generation) (\<lambda>g.
     chain (ensure (g \<noteq> old_gen) (Ensure ''generation must change when metadata is lost'')) (\<lambda>_.
     chain (peek h_cursor) (\<lambda>c.
     chain (case c of
         None \<Rightarrow> ret ()
       | Some (gen, era) \<Rightarrow>
           chain (peek h_dev_id) (\<lambda>r.
           chain (need_some NotAttached r) (\<lambda>i.
           chain (call (su_ctl out (dump_args i gen era))) (\<lambda>resp.
             ensure (resp = None) (Ensure ''cursor from the lost history was accepted by dump''))))) (\<lambda>_.
     chain (tally (\<lambda>n. n\<lparr>n_meta_losses := n_meta_losses n + 1\<rparr>)) (\<lambda>_.
       log_note NoteMetaLoss)))))))))))"

text \<open>
  \<open>setup\<close>: the parameters the command line leaves open are drawn from the generator.
  \<open>path_join\<close> is \<open>Path::join\<close> with a file name.
\<close>

record chaos_cli =
  c_seed :: u64
  c_ops :: u32
  c_size :: u64
  c_granularity :: u64
  c_buffered :: bool
  c_dir :: string

definition path_join :: "string \<Rightarrow> string \<Rightarrow> string" where
  "path_join d f = (if d = [] then f else if last d = CHR ''/'' then d @ f else d @ ''/'' @ f)"

definition draw_gran :: "chaos_cli \<Rightarrow> u64 \<Rightarrow> (u64 \<times> u64) option" where
  "draw_gran cli r =
     (if c_granularity cli \<noteq> 0 then Some (c_granularity cli, r)
      else map_option (\<lambda>(k, r'). ([4096, 16384, 65536, 262144] ! unat k, r')) (chaos_below 4 r))"

definition draw_size :: "chaos_cli \<Rightarrow> u64 \<Rightarrow> (u64 \<times> u64) option" where
  "draw_size cli r =
     (if c_size cli \<noteq> 0 then Some (c_size cli, r)
      else map_option (\<lambda>(k, r'). (32 * 2 ^ 20 + 4096 * k, r')) (chaos_below 16 r))"

definition draw_queues :: "u64 \<Rightarrow> (u16 \<times> u64) option" where
  "draw_queues r = map_option (\<lambda>(k, r'). ([1, 2, 4] ! unat k, r')) (chaos_below 3 r)"

definition chaos_setup :: "'d sut \<Rightarrow> chaos_cli \<Rightarrow> 'd \<Rightarrow> chaos_error + 'd harness" where
  "chaos_setup out cli d = (case draw_gran cli (c_seed cli) of None \<Rightarrow> Inl Panicked | Some (gr, r1) \<Rightarrow>
     (case draw_size cli r1 of None \<Rightarrow> Inl Panicked | Some (sz, r2) \<Rightarrow>
     if sz mod 4096 \<noteq> 0 then Inl (Ensure ''--size must be a multiple of 4096'')
     else (case draw_queues r2 of None \<Rightarrow> Inl Panicked | Some (qs, r3) \<Rightarrow>
       (case su_create out sz d of
          (False, _) \<Rightarrow> Inl SetupFailed
        | (True, d') \<Rightarrow> Inr \<lparr>h_backing = path_join (c_dir cli) ''backing.img'',
            h_meta = path_join (c_dir cli) ''meta.bin'', h_size = sz, h_gran = gr,
            h_queues = qs, h_buffered = c_buffered cli, h_daemon = False, h_dev_id = None,
            h_dev = False, h_generation = [], h_expected = replicate (unat sz) 0,
            h_shadow = replicate (unat sz) 0, h_cursor = None, h_journal = [], h_n = no_counts,
            h_rng = r3, h_sut = d'\<rparr>))))"

text \<open>\<open>run\<close>. \<open>race i\<close> are the turns of the writers should operation \<open>i\<close> be an in-flight crash.\<close>

type_synonym races = "nat \<Rightarrow> nat list \<times> nat list"

definition chaos_op :: "'d sut \<Rightarrow> nat list \<times> nat list \<Rightarrow> u64 \<Rightarrow> ('d, unit) op" where
  "chaos_op out race k =
     (if k \<le> 44 then op_write_burst out
      else if k \<le> 59 then op_backup_verify out
      else if k \<le> 69 then op_checkpoint out
      else if k \<le> 79 then op_reattach out
      else if k \<le> 87 then op_crash out
      else if k \<le> 95 then op_crash_inflight out (fst race) (snd race)
      else op_lose_meta out)"

fun run_ops :: "'d sut \<Rightarrow> races \<Rightarrow> nat \<Rightarrow> nat \<Rightarrow> ('d, unit) op" where
  "run_ops out race i 0 = ret ()"
| "run_ops out race i (Suc n) =
     chain (draw 100) (\<lambda>k. chain (chaos_op out (race i) k) (\<lambda>_. run_ops out race (Suc i) n))"

definition wind_down :: "'d sut \<Rightarrow> ('d, unit) op" where
  "wind_down out = chain (op_backup_verify out) (\<lambda>_.
     chain (detach out) (\<lambda>_.
     chain (call (su_backing out)) (\<lambda>r.
     chain (need_some BackingUnreadable r) (\<lambda>on_disk.
     chain (peek h_expected) (\<lambda>expected.
     chain (ensure (on_disk = expected)
       (Ensure ''backing file after detach differs from everything written'')) (\<lambda>_.
     chain (attach out) (\<lambda>v.
     chain (ensure (\<not> unclean v) (Ensure ''final re-attach was flagged recovered_unclean'')) (\<lambda>_.
     chain (detach out) (\<lambda>_.
     chain (run_ctl out [''shutdown'']) (\<lambda>_.
     chain (peek h_daemon) (\<lambda>running.
       if running then chain (modify (\<lambda>s. s\<lparr>h_daemon := False\<rparr>)) (\<lambda>_.
         chain (call (su_exited out)) (\<lambda>ok. ensure ok (Timeout ''daemon exit'')))
       else ret ())))))))))))"

definition chaos_run :: "'d sut \<Rightarrow> races \<Rightarrow> u32 \<Rightarrow> ('d, unit) op" where
  "chaos_run out race ops = chain (start_daemon out) (\<lambda>_.
     chain (attach out) (\<lambda>_.
     chain (run_ops out race 0 (unat ops)) (\<lambda>_. wind_down out)))"

text \<open>\<open>main\<close>: the verdict of an episode.\<close>

definition chaos_main :: "'d sut \<Rightarrow> races \<Rightarrow> chaos_cli \<Rightarrow> 'd \<Rightarrow> (chaos_error + unit)" where
  "chaos_main out race cli d = (case chaos_setup out cli d of
      Inl e \<Rightarrow> Inl e
    | Inr h \<Rightarrow> fst (chaos_run out race (c_ops cli) h))"


section \<open>Buffers for direct I/O\<close>

text \<open>A new buffer is aligned, has the length asked for, and holds what is put into it.\<close>

lemma dio_new_aligned:
  "(addr + db_off (dio_new addr len)) mod 4096 = 0" "dio_get (dio_new addr len) = Some (replicate len 0)"
proof -
  let ?r = "addr mod 4096"
  have "(?r + (4096 - ?r) mod 4096) mod 4096 = (?r + (4096 - ?r)) mod 4096" by (rule mod_add_right_eq)
  also have "\<dots> = 0" by simp
  finally show "(addr + db_off (dio_new addr len)) mod 4096 = 0" by (simp add: dio_new_def mod_add_left_eq)
  have "(4096 - ?r) mod 4096 < 4096" by simp
  then show "dio_get (dio_new addr len) = Some (replicate len 0)" by (simp add: dio_get_def dio_new_def)
qed

lemma dio_get_set:
  "dio_get b \<noteq> None \<Longrightarrow> length bs = db_len b \<Longrightarrow> dio_get (dio_set bs b) = Some bs"
  by (auto simp: dio_get_def dio_set_def write_at_def split: if_splits)

section \<open>The report of a mismatch\<close>

lemma slice_differs:
  assumes "length xs = length ys"
  shows "take n (drop i xs) \<noteq> take n (drop i ys) \<longleftrightarrow> (\<exists>k<length xs. i \<le> k \<and> k < i + n \<and> xs ! k \<noteq> ys ! k)"
proof
  assume "take n (drop i xs) \<noteq> take n (drop i ys)"
  then obtain j where "j < min n (length xs - i)" "take n (drop i xs) ! j \<noteq> take n (drop i ys) ! j"
    using assms by (auto simp: list_eq_iff_nth_eq)
  then show "\<exists>k<length xs. i \<le> k \<and> k < i + n \<and> xs ! k \<noteq> ys ! k"
    using assms by (intro exI [of _ "i + j"]) (simp add: less_diff_conv add.commute)
next
  assume "\<exists>k<length xs. i \<le> k \<and> k < i + n \<and> xs ! k \<noteq> ys ! k"
  then obtain k where k: "k < length xs" "i \<le> k" "k < i + n" "xs ! k \<noteq> ys ! k" by blast
  show "take n (drop i xs) \<noteq> take n (drop i ys)"
  proof
    assume "take n (drop i xs) = take n (drop i ys)"
    then have "take n (drop i xs) ! (k - i) = take n (drop i ys) ! (k - i)" by simp
    with k assms show False by simp
  qed
qed

lemma bad_chunks_card:
  assumes "length xs = length ys" and "0 < g"
  shows "bad_chunks (length xs) g xs ys = card {c. \<exists>k<length xs. k div g = c \<and> xs ! k \<noteq> ys ! k}"
proof -
  let ?n = "(length xs + g - 1) div g"
  let ?P = "\<lambda>c. \<exists>k<length xs. k div g = c \<and> xs ! k \<noteq> ys ! k"
  have P: "take (min (c * g + g) (length xs) - c * g) (drop (c * g) xs) \<noteq>
      take (min (c * g + g) (length xs) - c * g) (drop (c * g) ys) \<longleftrightarrow> ?P c" for c
  proof -
    have "k div g = c \<longleftrightarrow> c * g \<le> k \<and> k < c * g + g" for k
      using assms(2) by (metis add.commute div_nat_eqI dividend_less_div_times div_times_less_eq_dividend mult.commute mult_Suc_right)
    then show ?thesis unfolding slice_differs [OF assms(1)] by (auto simp: less_diff_conv)
  qed
  have "bad_chunks (length xs) g xs ys = length (filter ?P [0..<?n])"
    by (simp add: bad_chunks_def diff_offsets_def filter_map comp_def P)
  also have "\<dots> = card {c. c < ?n \<and> ?P c}" by (subst length_filter_conv_card) (rule arg_cong [of _ _ card], auto)
  also have "{c. c < ?n \<and> ?P c} = {c. ?P c}"
  proof -
    have "k div g < ?n" if "k < length xs" for k
    proof -
      have "length xs + g - 1 = (length xs - 1) + g" using that by simp
      then have "?n = (length xs - 1) div g + 1" using assms(2) by (simp only: div_add_self2 neq0_conv)
      moreover have "k div g \<le> (length xs - 1) div g" using that by (intro div_le_mono) simp
      ultimately show ?thesis by simp
    qed
    then show ?thesis by auto
  qed
  finally show ?thesis .
qed

text \<open>
  C35. The verdict of the harness is exact. Two images of the device are accepted only if they
  are equal; otherwise \<open>diff\<close> fails and names the first byte that differs, its chunk, the
  number of chunks in which some byte differs, and the number of chunks.
\<close>

theorem diff_reports_exactly:
  assumes "length actual = length model" and "unat (h_size s) = length actual" and "h_gran s \<noteq> 0"
  shows "(\<exists>first<length actual. actual ! first \<noteq> model ! first \<and> (\<forall>k<first. actual ! k = model ! k) \<and>
      diff what actual model s = (Inl (MISMATCH what first (first div unat (h_gran s))
        (card {c. \<exists>k<length actual. k div unat (h_gran s) = c \<and> actual ! k \<noteq> model ! k})
        ((length actual + unat (h_gran s) - 1) div unat (h_gran s))), s)) \<or>
    actual = model \<and> diff what actual model s = (Inr (), s)"
proof (cases "actual = model")
  case True
  then show ?thesis by (simp add: diff_def ret_def)
next
  case False
  let ?z = "zip actual model" let ?first = "length (takeWhile (\<lambda>(a, b). a = b) ?z)"
  have g: "0 < unat (h_gran s)" using assms(3) by (simp add: unat_gt_0)
  have "\<exists>x\<in>set ?z. \<not> (case x of (a, b) \<Rightarrow> a = b)"
    using False assms(1) by (auto simp: list_eq_iff_nth_eq set_zip)
  then have lt: "?first < length ?z" by (metis (mono_tags, lifting) length_takeWhile_le nat_less_le takeWhile_eq_all_conv takeWhile_eq_take take_all_iff order_refl)
  then have "actual ! ?first \<noteq> model ! ?first" using nth_length_takeWhile [OF lt] by simp
  moreover have "actual ! k = model ! k" if "k < ?first" for k
    using takeWhile_nth [OF that] that lt set_takeWhileD [of "takeWhile (\<lambda>(a, b). a = b) ?z ! k"] nth_mem [OF that] by fastforce
  moreover have "diff what actual model s = (Inl (MISMATCH what ?first (?first div unat (h_gran s))
      (bad_chunks (length actual) (unat (h_gran s)) actual model)
      ((length actual + unat (h_gran s) - 1) div unat (h_gran s))), s)"
    using False lt assms by (simp add: diff_def chain_def peek_def fail_def Let_def)
  ultimately show ?thesis using lt bad_chunks_card [OF assms(1) g] by auto
qed

definition ex_harness :: "unit harness" where
  "ex_harness = \<lparr>h_backing = ''b'', h_meta = ''m'', h_size = 4, h_gran = 2, h_queues = 1, h_buffered = False,
     h_daemon = True, h_dev_id = Some 0, h_dev = True, h_generation = [], h_expected = [1, 2, 3, 4],
     h_shadow = [1, 2, 9, 8], h_cursor = None, h_journal = [], h_n = no_counts, h_rng = 0, h_sut = ()\<rparr>"

theorem diff_reports_exactly_witness:
  "diff ''CBT'' [1, 2, 3, 4] [1, 2, 9, 8] ex_harness = (Inl (MISMATCH ''CBT'' 2 1 1 2), ex_harness)"
proof -
  define xs ys :: "u8 list" where "xs = [1, 2, 3, 4]" and "ys = [1, 2, 9, 8]"
  have h: "h_size ex_harness = 4" "h_gran ex_harness = 2" by (simp_all add: ex_harness_def)
  have at: "xs ! k \<noteq> ys ! k \<longleftrightarrow> 2 \<le> k" if "k < 4" for k
  proof -
    have "k = 0 \<or> k = 1 \<or> k = 2 \<or> k = 3" using that by linarith
    then show ?thesis by (elim disjE) (simp_all add: xs_def ys_def)
  qed
  have len: "length xs = 4" "length ys = 4" "xs \<noteq> ys" by (simp_all add: xs_def ys_def)
  have "k div 2 = 1" if "k < 4" "2 \<le> k" for k :: nat using that by (intro div_nat_eqI) simp_all
  moreover have "\<exists>k<4. k div 2 = (1 :: nat) \<and> xs ! k \<noteq> ys ! k" using at [of 2] by (intro exI [of _ 2]) simp
  ultimately have "{c. \<exists>k<4. k div 2 = c \<and> xs ! k \<noteq> ys ! k} = {1}" using at by auto
  then obtain f where f: "f < 4" "xs ! f \<noteq> ys ! f" "\<forall>k<f. xs ! k = ys ! k"
      "diff ''CBT'' xs ys ex_harness = (Inl (MISMATCH ''CBT'' f (f div 2) 1 2), ex_harness)"
    using diff_reports_exactly [of xs ys ex_harness "''CBT''"] h len by auto
  moreover have "f \<le> 2" using f(3) at [of 2] by (cases "2 < f") auto
  moreover have "2 \<le> f" using f(1,2) at by blast
  ultimately show ?thesis using f(4) by (simp add: xs_def ys_def)
qed

end
