(* ===== verification/Chaos_Proof.thy ===== *)
theory Chaos_Proof
  imports Chaos
begin

text \<open>
  What the chaos harness relies on, and that it passes wherever it can rely on it. The state
  of the system under test is seen through \<open>sut_view\<close>: the bytes of the backing store and the
  tracking history. The locale \<open>cbt_sut\<close> has the promises of ublkera as its laws; every
  operation of the harness is proved once against them.
\<close>

section \<open>Views and ranges\<close>

datatype phase = Down | Up | Attached u64

record sut_view =
  v_phase :: phase
  v_data :: "u8 list"
  v_gen :: string
  v_era :: u32
  v_newer :: "u32 \<Rightarrow> nat set"
  v_meta :: bool
  v_clean :: bool
  v_fresh :: nat
  v_used :: "string set"

text \<open>Two images that agree outside a set of bytes.\<close>

definition agree :: "nat set \<Rightarrow> u8 list \<Rightarrow> u8 list \<Rightarrow> bool" where
  "agree U xs ys \<longleftrightarrow> length xs = length ys \<and> (\<forall>k<length ys. k \<notin> U \<longrightarrow> xs ! k = ys ! k)"

lemma agree_refl [simp]: "agree U xs xs"
  by (simp add: agree_def)

lemma agree_empty: "agree {} xs ys \<longleftrightarrow> xs = ys"
  by (auto simp: agree_def list_eq_iff_nth_eq)

lemma agree_sym: "agree U xs ys \<Longrightarrow> agree U ys xs"
  by (simp add: agree_def)

lemma agree_mono: "agree U xs ys \<Longrightarrow> U \<subseteq> V \<Longrightarrow> agree V xs ys"
  by (auto simp: agree_def)

lemma agree_write:
  assumes "agree U xs ys" and "i + length bs \<le> length ys"
  shows "agree (U - {i..<i + length bs}) (write_at i bs xs) (write_at i bs ys)"
  using assms by (auto simp: agree_def nth_write_at)

lemma agree_change:
  assumes "agree U xs ys" and "agree V zs xs"
  shows "agree (U \<union> V) zs ys"
  using assms by (auto simp: agree_def)

lemma write_at_same: "i + n \<le> length xs \<Longrightarrow> write_at i (take n (drop i xs)) xs = xs"
  by (simp add: write_at_def flip: append_assoc take_add)

text \<open>A range of a dump, as the consumer reads it from the reply.\<close>

definition range_of_json :: "json \<Rightarrow> dirty_range \<Rightarrow> bool" where
  "range_of_json j r \<longleftrightarrow> as_u64 (jget ''offset'' j) = Some (uint (dr_offset r)) \<and>
     as_u64 (jget ''len'' j) = Some (uint (dr_len r))"

lemmas op_defs = chain_def ret_def fail_def peek_def modify_def ensure_def need_some_def call_def
  tally_def log_note_def run_ctl_def

section \<open>Draws\<close>

lemma draw_ok:
  assumes "n \<noteq> 0"
  obtains v r where "draw n s = (Inr v, s\<lparr>h_rng := r\<rparr>)" and "v < n"
proof -
  obtain v r where v: "chaos_next (h_rng s) = (v, r)" by fastforce
  have "v mod n < n" using assms by (simp add: word_mod_less_divisor word_neq_0_conv)
  then show thesis using that [of "v mod n" r] assms v by (simp add: draw_def chaos_below_def)
qed

lemma length_chaos_fill [simp]: "length (fst (chaos_fill n s)) = n"
proof (induction n s rule: chaos_fill.induct)
  case (1 n s)
  obtain v s' where v: "chaos_next s = (v, s')" by fastforce
  show ?case
  proof (cases "n = 0")
    case False
    obtain bs s'' where b: "chaos_fill (n - 8) s' = (bs, s'')" by fastforce
    then have "length bs = n - 8" using 1 [OF False v [symmetric]] by simp
    then show ?thesis using False v b by (simp add: chaos_fill.simps [of n s])
  qed (simp add: chaos_fill.simps)
qed

text \<open>
  The write of a burst and of a writer thread: a non-empty run of whole 4K blocks inside the
  region \<open>[base, base + len)\<close>.
\<close>

lemma block_len:
  fixes k m :: u64
  assumes "k < m div 4096" and "unat m \<le> unat MAX_WRITE"
  shows "unat (4096 * (1 + k)) = 4096 * (1 + unat k)" and "4096 * (1 + unat k) \<le> unat m"
proof -
  have k: "unat k < unat m div 4096" using assms(1) by (simp add: word_nat)
  then show *: "4096 * (1 + unat k) \<le> unat m" by (simp add: less_eq_div_iff_mult_less_eq mult.commute flip: Suc_le_eq)
  have "unat MAX_WRITE = 262144" by (simp add: MAX_WRITE_def)
  then have b: "4096 * (1 + unat k) < 2 ^ 64" using * assms(2) by simp
  then have "unat (1 + k) = 1 + unat k" by (subst unat_add_no_overflow) simp_all
  then show "unat (4096 * (1 + k)) = 4096 * (1 + unat k)"
    using b by (simp add: unat_word_ariths)
qed

lemma block_region:
  fixes b sz :: u64
  assumes "b < sz div 4096" and "sz mod 4096 = 0"
  shows "unat (4096 * b) = 4096 * unat b" and "4096 * unat b < unat sz"
    and "unat (sz - 4096 * b) = unat sz - 4096 * unat b" and "4096 \<le> unat sz - 4096 * unat b"
    and "(sz - 4096 * b) div 4096 \<noteq> 0"
proof -
  have b: "unat b < unat sz div 4096" using assms(1) by (simp add: word_nat)
  have "unat (sz mod 4096) = 0" using assms(2) by simp
  then have m: "unat sz mod 4096 = 0" by (simp add: unat_mod_distrib)
  then have m': "4096 * (unat sz div 4096) = unat sz" by auto
  with b show lt: "4096 * unat b < unat sz" by linarith
  show u: "unat (4096 * b) = 4096 * unat b"
    using lt unat_u64_less [of sz] by (simp add: unat_word_ariths)
  show d: "unat (sz - 4096 * b) = unat sz - 4096 * unat b"
    using lt u by (subst unat_sub) (simp_all add: word_le_nat_alt)
  show "4096 \<le> unat sz - 4096 * unat b" using b m' by linarith
  then have "unat ((sz - 4096 * b) div 4096) \<noteq> 0" by (simp add: word_nat d)
  then show "(sz - 4096 * b) div 4096 \<noteq> 0" by (metis unat_0)
qed


section \<open>Writers\<close>

text \<open>
  The completed writes of the threads, replayed thread by thread: each thread stays in its own
  slice, so this is what the device holds, whatever the order of the writes was.
\<close>

definition puts :: "(u64 \<times> u8 list) list \<Rightarrow> u8 list \<Rightarrow> u8 list" where
  "puts ws xs = fold (\<lambda>(off, bs). write_at (unat off) bs) ws xs"

definition fit :: "nat \<Rightarrow> u64 \<times> u8 list \<Rightarrow> bool" where
  "fit n x \<longleftrightarrow> unat (fst x) + length (snd x) \<le> n"

lemma puts_simps [simp]: "puts [] xs = xs" "puts ((off, bs) # ws) xs = puts ws (write_at (unat off) bs xs)"
  "puts (ws @ ws') xs = puts ws' (puts ws xs)"
  by (simp_all add: puts_def)

lemma length_puts: "list_all (fit (length xs)) ws \<Longrightarrow> length (puts ws xs) = length xs"
  by (induction ws arbitrary: xs) (auto simp: fit_def)

lemma replay_puts: "list_all (fit (length xs)) ws \<Longrightarrow> replay ws xs = Some (puts ws xs)"
  by (induction ws arbitrary: xs) (auto simp: fit_def)

lemma write_at_commute:
  assumes "i + length a \<le> j \<or> j + length b \<le> i" and "i + length a \<le> length xs" and "j + length b \<le> length xs"
  shows "write_at i a (write_at j b xs) = write_at j b (write_at i a xs)"
  using assms by (intro nth_equalityI) (auto simp: nth_write_at)

lemma puts_write_at:
  assumes "list_all (\<lambda>x. unat (fst x) + length (snd x) \<le> i \<or> i + length bs \<le> unat (fst x)) ws"
    and "list_all (fit (length xs)) ws" and "i + length bs \<le> length xs"
  shows "puts ws (write_at i bs xs) = write_at i bs (puts ws xs)"
  using assms
proof (induction ws arbitrary: xs)
  case (Cons w ws)
  obtain off b where w: "w = (off, b)" by (cases w)
  have "puts ws (write_at (unat off) b (write_at i bs xs)) = puts ws (write_at i bs (write_at (unat off) b xs))"
    using Cons.prems by (subst write_at_commute) (auto simp: w fit_def)
  also have "\<dots> = write_at i bs (puts ws (write_at (unat off) b xs))"
    using Cons.prems by (intro Cons.IH) (auto simp: w fit_def)
  finally show ?case by (simp add: w)
qed simp

text \<open>Thread \<open>t\<close> has the bytes from \<open>t * sl\<close> to \<open>(t + 1) * sl\<close>.\<close>

definition in_slice :: "nat \<Rightarrow> nat \<Rightarrow> nat \<Rightarrow> nat \<Rightarrow> bool" where
  "in_slice sl t off len \<longleftrightarrow> t * sl \<le> off \<and> off + len \<le> Suc t * sl"

definition writer_ok :: "nat \<Rightarrow> nat \<Rightarrow> writer \<Rightarrow> bool" where
  "writer_ok sl t w \<longleftrightarrow> unat (w_base w) = t * sl \<and> w_pc w \<noteq> WPanic \<and>
     list_all (\<lambda>x. in_slice sl t (unat (fst x)) (length (snd x))) (w_ok w) \<and>
     list_all (\<lambda>x. in_slice sl t (unat (fst x)) (unat (snd x))) (w_undefined w)"

definition undef_bytes :: "writer list \<Rightarrow> nat set" where
  "undef_bytes ws = (\<Union>x\<in>set (concat (map w_undefined ws)). {unat (fst x)..<unat (fst x) + unat (snd x)})"

lemma set_concat_nth: "set (concat (map f ws)) = (\<Union>i<length ws. set (f (ws ! i)))"
  by (auto simp: set_conv_nth [of ws])

definition raced :: "nat \<Rightarrow> u8 list \<Rightarrow> writer list \<Rightarrow> u8 list \<Rightarrow> bool" where
  "raced sl E ws data \<longleftrightarrow> (\<forall>t<length ws. writer_ok sl t (ws ! t)) \<and> length ws * sl \<le> length E \<and>
     agree (undef_bytes ws) data (puts (concat (map w_ok ws)) E)"

lemma slice_fits: "in_slice sl t off len \<Longrightarrow> t < n \<Longrightarrow> n * sl \<le> m \<Longrightarrow> off + len \<le> m"
proof -
  assume a: "in_slice sl t off len" "t < n" "n * sl \<le> m"
  then have "Suc t * sl \<le> n * sl" by (intro mult_le_mono1) simp
  with a show ?thesis by (simp add: in_slice_def)
qed

lemma slices_apart:
  assumes "in_slice sl t off len" and "in_slice sl u off' len'" and "t < u"
  shows "off + len \<le> off'"
proof -
  have "Suc t * sl \<le> u * sl" using assms(3) by (intro mult_le_mono1) simp
  with assms(1,2) show ?thesis by (simp add: in_slice_def)
qed

lemma logs_fit:
  assumes "\<forall>t<length ws. writer_ok sl t (ws ! t)" and "length ws * sl \<le> m"
  shows "list_all (fit m) (concat (map w_ok ws))"
proof -
  have "list_all (fit m) (w_ok (ws ! t))" if "t < length ws" for t
    using assms that slice_fits [OF _ that assms(2)]
    by (auto simp: writer_ok_def list_all_iff fit_def)
  then show ?thesis by (auto simp: list_all_iff in_set_conv_nth) (metis nth_mem)
qed

lemma raced_write:
  assumes "raced sl E ws data" and "t < length ws" and "in_slice sl t (unat off) (length bs)"
    and "w' = (ws ! t)\<lparr>w_rng := r, w_ok := w_ok (ws ! t) @ [(off, bs)]\<rparr>"
  shows "raced sl E (ws[t := w']) (write_at (unat off) bs data)"
proof -
  let ?A = "concat (map w_ok (take (Suc t) ws))" and ?B = "concat (map w_ok (drop (Suc t) ws))"
  have ok: "\<forall>t<length ws. writer_ok sl t (ws ! t)" and len: "length ws * sl \<le> length E"
    and ag: "agree (undef_bytes ws) data (puts (concat (map w_ok ws)) E)"
    using assms(1) by (simp_all add: raced_def)
  have ok': "\<forall>i<length (ws[t := w']). writer_ok sl i (ws[t := w'] ! i)"
    using ok assms(2-4) by (auto simp: nth_list_update writer_ok_def)
  have logs: "concat (map w_ok ws) = ?A @ ?B" by (metis append_take_drop_id concat_append map_append)
  have "ws[t := w'] = take t ws @ w' # drop (Suc t) ws" using assms(2) by (rule upd_conv_take_nth_drop)
  then have logs': "concat (map w_ok (ws[t := w'])) = ?A @ (off, bs) # ?B"
    using assms(2,4) by (simp add: take_Suc_conv_app_nth)
  have fitall: "list_all (fit (length E)) ?A" "list_all (fit (length E)) ?B"
    using logs_fit [OF ok len] unfolding logs by simp_all
  have fit: "unat off + length bs \<le> length E" by (rule slice_fits [OF assms(3,2) len])
  have "unat off + length bs \<le> unat (fst x)" if "x \<in> set ?B" for x
  proof -
    obtain w where w: "w \<in> set (drop (Suc t) ws)" "x \<in> set (w_ok w)" using \<open>x \<in> set ?B\<close> by auto
    then obtain i where i: "i < length (drop (Suc t) ws)" "w = drop (Suc t) ws ! i" by (metis in_set_conv_nth)
    then have "w = ws ! (Suc t + i)" "Suc t + i < length ws" by simp_all
    then have "in_slice sl (Suc t + i) (unat (fst x)) (length (snd x))"
      using ok w(2) by (auto simp: writer_ok_def list_all_iff)
    then show ?thesis using slices_apart [OF assms(3)] by simp
  qed
  then have "puts ?B (write_at (unat off) bs (puts ?A E)) = write_at (unat off) bs (puts ?B (puts ?A E))"
    using fitall fit by (intro puts_write_at) (auto simp: list_all_iff length_puts)
  then have eq: "puts (concat (map w_ok (ws[t := w']))) E = write_at (unat off) bs (puts (concat (map w_ok ws)) E)"
    by (simp only: logs logs' puts_simps)
  have "map w_undefined (ws[t := w']) = map w_undefined ws"
    using assms(2,4) by (simp add: map_update list_update_same_conv)
  then have "undef_bytes (ws[t := w']) = undef_bytes ws" by (simp only: undef_bytes_def)
  moreover have "length (puts (concat (map w_ok ws)) E) = length E" using logs_fit [OF ok len] by (rule length_puts)
  then have "agree (undef_bytes ws - {unat off..<unat off + length bs}) (write_at (unat off) bs data)
      (write_at (unat off) bs (puts (concat (map w_ok ws)) E))"
    using fit by (intro agree_write [OF ag]) simp
  then have "agree (undef_bytes ws) (write_at (unat off) bs data) (write_at (unat off) bs (puts (concat (map w_ok ws)) E))"
    by (rule agree_mono) blast
  ultimately show ?thesis using ok' len by (simp add: raced_def eq)
qed

lemma raced_torn:
  assumes "raced sl E ws data" and "t < length ws" and "in_slice sl t (unat off) (length bs)"
    and "length bs < 2 ^ 64" and "agree {unat off..<unat off + length bs} data' data"
    and "w' = (ws ! t)\<lparr>w_rng := r, w_pc := WDone, w_undefined := w_undefined (ws ! t) @ [(off, of_nat (length bs))]\<rparr>"
  shows "raced sl E (ws[t := w']) data'"
proof -
  have u: "unat (of_nat (length bs) :: u64) = length bs" using assms(4) by (intro unat_of_nat_less) simp
  have ok': "\<forall>i<length (ws[t := w']). writer_ok sl i (ws[t := w'] ! i)"
    using assms(1-3,6) u by (auto simp: raced_def nth_list_update writer_ok_def)
  have "map w_ok (ws[t := w']) = map w_ok ws" using assms(2,6) by (simp add: map_update list_update_same_conv)
  moreover have "set (concat (map w_undefined (ws[t := w']))) =
      insert (off, of_nat (length bs)) (set (concat (map w_undefined ws)))"
    unfolding set_concat_nth using assms(2,6) by (auto simp: nth_list_update split: if_splits)
  then have "undef_bytes (ws[t := w']) = {unat off..<unat off + length bs} \<union> undef_bytes ws"
    using u by (simp only: undef_bytes_def UN_insert fst_conv snd_conv)
  then have "undef_bytes ws \<union> {unat off..<unat off + length bs} \<subseteq> undef_bytes (ws[t := w'])" by blast
  moreover have "agree (undef_bytes ws \<union> {unat off..<unat off + length bs}) data' (puts (concat (map w_ok ws)) E)"
    using assms(1,5) by (intro agree_change) (simp_all add: raced_def)
  ultimately show ?thesis using ok' assms(1) agree_mono by (auto simp: raced_def)
qed

lemma chaos_below_ok:
  assumes "n \<noteq> 0"
  obtains v r' where "chaos_below n r = Some (v, r')" and "v < n"
proof -
  obtain v r' where "chaos_next r = (v, r')" by fastforce
  then show thesis using that [of "v mod n" r'] assms
    by (simp add: chaos_below_def word_mod_less_divisor word_neq_0_conv)
qed

text \<open>A run of whole blocks in the slice of a writer.\<close>

lemma writer_gen_ok:
  fixes sl base :: u64
  assumes "sl mod 4096 = 0" and "sl \<noteq> 0" and "unat base mod 4096 = 0" and "unat base + unat sl < 2 ^ 64"
  obtains off data r' where "writer_gen sl base r = Some (off, data, r')" and "unat base \<le> unat off"
    and "unat off + length data \<le> unat base + unat sl" and "data \<noteq> []" and "unat off mod 4096 = 0"
    and "length data mod 4096 = 0" and "length data \<le> 262144"
proof -
  have "unat (sl mod 4096) = 0" using assms(1) by simp
  then have m: "unat sl mod 4096 = 0" by (simp add: unat_mod_distrib)
  moreover have "unat sl \<noteq> 0" using assms(2) by (simp add: unat_eq_zero)
  ultimately have "unat sl div 4096 \<noteq> 0" by (metis div_eq_0_iff mod_less zero_neq_numeral)
  then have "unat (sl div 4096) \<noteq> 0" by (simp add: word_nat)
  then have "sl div 4096 \<noteq> 0" by (metis unat_0)
  then obtain b r1 where b: "chaos_below (sl div 4096) r = Some (b, r1)" "b < sl div 4096"
    by (rule chaos_below_ok)
  note reg = block_region [OF b(2) assms(1)]
  let ?off = "base + 4096 * b" let ?max = "min MAX_WRITE (base + sl - ?off)"
  have M: "unat MAX_WRITE = 262144" by (simp add: MAX_WRITE_def)
  have off: "unat ?off = unat base + 4096 * unat b"
    using reg(1,2) assms(4) by (subst unat_add_no_overflow) simp_all
  have rest: "base + sl - ?off = sl - 4096 * b" by simp
  have max: "unat ?max = min (unat MAX_WRITE) (unat sl - 4096 * unat b)" unfolding rest by (simp add: unat_min reg(3))
  have "4096 \<le> unat ?max" using max M reg(4) by simp
  then have "unat (?max div 4096) \<noteq> 0" by (simp only: word_nat) simp
  then have "?max div 4096 \<noteq> 0" by (metis unat_0)
  then obtain k r2 where k: "chaos_below (?max div 4096) r1 = Some (k, r2)" "k < ?max div 4096"
    by (rule chaos_below_ok)
  have "unat ?max \<le> unat MAX_WRITE" using max by simp
  note len = block_len [OF k(2) this]
  obtain data r3 where f: "chaos_fill (unat (4096 * (1 + k))) r2 = (data, r3)" by fastforce
  then have ld: "length data = 4096 * (1 + unat k)" using length_chaos_fill [of "unat (4096 * (1 + k))" r2] len(1) by simp
  show thesis
  proof (rule that)
    show "writer_gen sl base r = Some (?off, data, r3)"
      using b(1) k(1) f by (simp add: writer_gen_def Let_def)
    show "unat base \<le> unat ?off" using off by simp
    have "4096 * (1 + unat k) \<le> unat sl - 4096 * unat b" using len(2) max by simp
    then show "unat ?off + length data \<le> unat base + unat sl" using off ld reg(2) by linarith
    show "data \<noteq> []" "length data mod 4096 = 0" using ld by auto
    show "unat ?off mod 4096 = 0" using off assms(3) by (simp add: mod_add_eq [symmetric])
    show "length data \<le> 262144" using ld len(2) max M by simp
  qed
qed

lemma raced_pc:
  assumes "raced sl E ws data" and "t < length ws" and "p \<noteq> WPanic"
  shows "raced sl E (ws[t := (ws ! t)\<lparr>w_pc := p\<rparr>]) data"
proof -
  have "map w_ok (ws[t := (ws ! t)\<lparr>w_pc := p\<rparr>]) = map w_ok ws"
      "map w_undefined (ws[t := (ws ! t)\<lparr>w_pc := p\<rparr>]) = map w_undefined ws"
    using assms(2) by (simp_all add: map_update list_update_same_conv)
  then show ?thesis using assms by (auto simp: raced_def undef_bytes_def nth_list_update writer_ok_def)
qed

lemma raced_gen:
  assumes "raced (unat sl) E ws data" and "t < length ws" and "sl mod 4096 = 0" and "sl \<noteq> 0" and "length E < 2 ^ 64"
  obtains off bs r where "writer_gen sl (w_base (ws ! t)) (w_rng (ws ! t)) = Some (off, bs, r)"
    and "in_slice (unat sl) t (unat off) (length bs)" and "unat off + length bs \<le> length E" and "bs \<noteq> []"
    and "unat off mod 4096 = 0" and "length bs mod 4096 = 0" and "length bs \<le> 262144"
proof -
  let ?w = "ws ! t"
  have base: "unat (w_base ?w) = t * unat sl" and len: "length ws * unat sl \<le> length E"
    using assms(1,2) by (auto simp: raced_def writer_ok_def)
  have "Suc t * unat sl \<le> length ws * unat sl" using assms(2) by (intro mult_le_mono1) simp
  then have b2: "unat (w_base ?w) + unat sl < 2 ^ 64" using base len assms(5) by simp
  have "unat (sl mod 4096) = 0" using assms(3) by simp
  then have "unat sl mod 4096 = 0" by (simp add: unat_mod_distrib)
  then have b1: "unat (w_base ?w) mod 4096 = 0" using base by (metis mod_mult_right_eq mult_0_right mod_0)
  obtain off bs r where g: "writer_gen sl (w_base ?w) (w_rng ?w) = Some (off, bs, r)" "unat (w_base ?w) \<le> unat off"
      "unat off + length bs \<le> unat (w_base ?w) + unat sl" "bs \<noteq> []" "unat off mod 4096 = 0"
      "length bs mod 4096 = 0" "length bs \<le> 262144"
    by (rule writer_gen_ok [OF assms(3,4) b1 b2])
  have sl: "in_slice (unat sl) t (unat off) (length bs)" using g(2,3) base by (simp add: in_slice_def)
  show thesis by (rule that [OF g(1) sl slice_fits [OF sl assms(2) len] g(4-7)])
qed

lemma undefined_fit:
  assumes "\<forall>t<length ws. writer_ok sl t (ws ! t)" and "length ws * sl \<le> m"
  shows "list_all (\<lambda>x. unat (fst x) + unat (snd x) \<le> m) (concat (map w_undefined ws))"
proof -
  have "list_all (\<lambda>x. unat (fst x) + unat (snd x) \<le> m) (w_undefined (ws ! t))" if "t < length ws" for t
    using assms(1) that slice_fits [OF _ that assms(2)] by (auto simp: writer_ok_def list_all_iff)
  then show ?thesis unfolding list_all_iff set_concat_nth by blast
qed

section \<open>The contract\<close>

text \<open>
  The state of the harness between operations. \<open>h_base\<close>: sizes, arguments and the budget of
  \<open>n\<close> more operations, for the era counter and for fresh generations; the cursor is of a
  generation that was used, and not in the future. \<open>h_synced\<close>: where the consumer's image
  differs from the device, \<open>dump\<close> since the cursor says so.
\<close>

definition cursor_ok :: "sut_view \<Rightarrow> (string \<times> u32) option \<Rightarrow> bool" where
  "cursor_ok v c = (case c of None \<Rightarrow> True
     | Some (g, e) \<Rightarrow> g \<in> v_used v \<and> (g = v_gen v \<longrightarrow> e < v_era v))"

definition synced :: "sut_view \<Rightarrow> (string \<times> u32) option \<Rightarrow> u8 list \<Rightarrow> bool" where
  "synced v c shadow = (case c of None \<Rightarrow> True
     | Some (g, e) \<Rightarrow> g = v_gen v \<longrightarrow> agree (v_newer v e) shadow (v_data v))"

definition h_args :: "'d harness \<Rightarrow> string list" where
  "h_args s = attach_args (h_backing s) (h_gran s) (h_queues s) (h_meta s) (h_buffered s)"

definition h_base :: "('d \<Rightarrow> sut_view) \<Rightarrow> ('d \<Rightarrow> bool) \<Rightarrow> string list \<Rightarrow> nat \<Rightarrow> 'd harness \<Rightarrow> bool" where
  "h_base view ok args n s \<longleftrightarrow> ok (h_sut s) \<and> h_args s = args \<and>
     unat (h_size s) = length (v_data (view (h_sut s))) \<and> h_size s mod 4096 = 0 \<and> 0 < h_size s \<and>
     length (h_shadow s) = unat (h_size s) \<and> n \<le> v_fresh (view (h_sut s)) \<and>
     unat (v_era (view (h_sut s))) + n < 2 ^ 32 \<and> cursor_ok (view (h_sut s)) (h_cursor s)"

definition h_synced :: "('d \<Rightarrow> sut_view) \<Rightarrow> 'd harness \<Rightarrow> bool" where
  "h_synced view s \<longleftrightarrow> synced (view (h_sut s)) (h_cursor s) (h_shadow s)"

definition h_attached :: "('d \<Rightarrow> sut_view) \<Rightarrow> ('d \<Rightarrow> bool) \<Rightarrow> string list \<Rightarrow> nat \<Rightarrow> 'd harness \<Rightarrow> bool" where
  "h_attached view ok args n s \<longleftrightarrow> h_base view ok args n s \<and> h_synced view s \<and>
     (\<exists>i. v_phase (view (h_sut s)) = Attached i \<and> h_dev_id s = Some i) \<and> h_dev s \<and> h_daemon s \<and>
     h_expected s = v_data (view (h_sut s)) \<and> h_generation s = v_gen (view (h_sut s)) \<and> v_gen (view (h_sut s)) \<in> v_used (view (h_sut s)) \<and>
     v_meta (view (h_sut s)) \<and> \<not> v_clean (view (h_sut s))"

lemma cursor_ok_frame [simp]:
  "cursor_ok (v\<lparr>v_phase := p\<rparr>) c = cursor_ok v c" "cursor_ok (v\<lparr>v_data := xs\<rparr>) c = cursor_ok v c"
  "cursor_ok (v\<lparr>v_newer := N\<rparr>) c = cursor_ok v c" "cursor_ok (v\<lparr>v_clean := b\<rparr>) c = cursor_ok v c"
  "cursor_ok (v\<lparr>v_meta := b\<rparr>) c = cursor_ok v c"
  by (simp_all add: cursor_ok_def split: option.split)

lemma synced_frame [simp]:
  "synced (v\<lparr>v_phase := p\<rparr>) c x = synced v c x" "synced (v\<lparr>v_clean := b\<rparr>) c x = synced v c x"
  "synced (v\<lparr>v_meta := b\<rparr>) c x = synced v c x" "synced (v\<lparr>v_era := e\<rparr>) c x = synced v c x"
  by (simp_all add: synced_def split: option.split)

text \<open>
  The promises of the system under test, for arguments \<open>args\<close> of \<open>add\<close>. The device completes
  every write while it is attached; a write that races the death of the daemon fails and
  changes at most its own range.
\<close>

locale cbt_sut =
  fixes out :: "'d sut" and view :: "'d \<Rightarrow> sut_view" and ok :: "'d \<Rightarrow> bool" and args :: "string list"
  assumes start_law: "ok d \<Longrightarrow> v_phase (view d) = Down \<Longrightarrow>
      \<exists>d'. su_start out d = (Some True, d') \<and> ok d' \<and> view d' = (view d)\<lparr>v_phase := Up\<rparr>"
    and kill_law: "ok d \<Longrightarrow>
      \<exists>N. ok (su_kill out d) \<and> view (su_kill out d) = (view d)\<lparr>v_phase := Down, v_newer := N\<rparr>"
    and gone_law: "ok d \<Longrightarrow> v_phase (view d) \<noteq> Attached i \<Longrightarrow>
      \<exists>d'. su_gone out i d = (True, d') \<and> ok d' \<and> view d' = view d"
    and node_law: "ok d \<Longrightarrow> v_phase (view d) = Attached i \<Longrightarrow>
      \<exists>d'. su_node out i d = (True, d') \<and> ok d' \<and> view d' = view d"
    and open_law: "ok d \<Longrightarrow>
      \<exists>b d'. su_open out i d = (b, d') \<and> ok d' \<and> view d' = view d \<and> (v_phase (view d) = Attached i \<longrightarrow> b)"
    and read_law: "ok d \<Longrightarrow> v_phase (view d) = Attached i \<Longrightarrow> unat off + n \<le> length (v_data (view d)) \<Longrightarrow>
      \<exists>d'. su_read out off n d = (Some (take n (drop (unat off) (v_data (view d)))), d') \<and> ok d' \<and>
        view d' = view d"
    and write_law: "ok d \<Longrightarrow> v_phase (view d) = Attached i \<Longrightarrow> bs \<noteq> [] \<Longrightarrow>
      unat off + length bs \<le> length (v_data (view d)) \<Longrightarrow> unat off mod 4096 = 0 \<Longrightarrow> length bs mod 4096 = 0 \<Longrightarrow>
      length bs \<le> 262144 \<Longrightarrow>
      \<exists>d' N. su_write out off bs d = (True, d') \<and> ok d' \<and>
        view d' = (view d)\<lparr>v_data := write_at (unat off) bs (v_data (view d)), v_newer := N\<rparr> \<and>
        (\<forall>c. v_newer (view d) c \<subseteq> N c) \<and>
        (\<forall>c<v_era (view d). {unat off..<unat off + length bs} \<subseteq> N c)"
    and torn_law: "ok d \<Longrightarrow> v_phase (view d) = Down \<Longrightarrow> unat off + length bs \<le> length (v_data (view d)) \<Longrightarrow>
      \<exists>d' xs. su_write out off bs d = (False, d') \<and> ok d' \<and> view d' = (view d)\<lparr>v_data := xs\<rparr> \<and>
        agree {unat off..<unat off + length bs} xs (v_data (view d))"
    and checkpoint_law: "ok d \<Longrightarrow> v_phase (view d) = Attached i \<Longrightarrow> unat (v_era (view d)) + 1 < 2 ^ 32 \<Longrightarrow>
      \<exists>r d'. su_ctl out [''checkpoint'', ''-n'', dev_arg i] d = (Some r, d') \<and> ok d' \<and>
        view d' = (view d)\<lparr>v_era := v_era (view d) + 1\<rparr> \<and>
        jget ''closed_era'' r = JNum (uint (v_era (view d)))"
    and dump_law: "ok d \<Longrightarrow> v_phase (view d) = Attached i \<Longrightarrow> e < v_era (view d) \<Longrightarrow>
      \<exists>r d' js rs. su_ctl out (dump_args i (v_gen (view d)) e) d = (Some r, d') \<and> ok d' \<and> view d' = view d \<and>
        jget ''ranges'' r = JArr js \<and> list_all2 range_of_json js rs \<and> v_newer (view d) e \<subseteq> covered rs \<and>
        list_all (\<lambda>x. unat (dr_offset x) + unat (dr_len x) \<le> length (v_data (view d))) rs"
    and reject_law: "ok d \<Longrightarrow> v_phase (view d) = Attached i \<Longrightarrow> g \<in> v_used (view d) \<Longrightarrow> g \<noteq> v_gen (view d) \<Longrightarrow>
      \<exists>d'. su_ctl out (dump_args i g e) d = (None, d') \<and> ok d' \<and> view d' = view d"
    and del_law: "ok d \<Longrightarrow> v_phase (view d) = Attached i \<Longrightarrow>
      \<exists>r d'. su_ctl out [''del'', ''-n'', dev_arg i] d = (Some r, d') \<and> ok d' \<and>
        view d' = (view d)\<lparr>v_phase := Up, v_clean := True\<rparr>"
    and add_clean_law: "ok d \<Longrightarrow> v_phase (view d) = Up \<Longrightarrow> v_meta (view d) \<Longrightarrow> v_clean (view d) \<Longrightarrow>
      \<exists>r d' i. su_ctl out args d = (Some r, d') \<and> ok d' \<and> jget ''dev_id'' r = JNum (uint i) \<and>
        jget ''generation'' r = JStr (v_gen (view d)) \<and> \<not> unclean r \<and>
        view d' = (view d)\<lparr>v_phase := Attached i, v_clean := False\<rparr>"
    and add_unclean_law: "ok d \<Longrightarrow> v_phase (view d) = Up \<Longrightarrow> v_meta (view d) \<Longrightarrow> \<not> v_clean (view d) \<Longrightarrow>
      \<exists>r d' i N. su_ctl out args d = (Some r, d') \<and> ok d' \<and> jget ''dev_id'' r = JNum (uint i) \<and>
        jget ''generation'' r = JStr (v_gen (view d)) \<and> unclean r \<and>
        view d' = (view d)\<lparr>v_phase := Attached i, v_newer := N\<rparr> \<and>
        (\<forall>c<v_era (view d). {..<length (v_data (view d))} \<subseteq> N c)"
    and add_fresh_law: "ok d \<Longrightarrow> v_phase (view d) = Up \<Longrightarrow> \<not> v_meta (view d) \<Longrightarrow> v_fresh (view d) = Suc k \<Longrightarrow>
      \<exists>r d' i g N. su_ctl out args d = (Some r, d') \<and> ok d' \<and> jget ''dev_id'' r = JNum (uint i) \<and>
        jget ''generation'' r = JStr g \<and> \<not> unclean r \<and> g \<notin> v_used (view d) \<and>
        view d' = (view d)\<lparr>v_phase := Attached i, v_gen := g, v_era := 1, v_newer := N, v_meta := True,
          v_clean := False, v_fresh := k, v_used := insert g (v_used (view d))\<rparr>"
    and remove_law: "ok d \<Longrightarrow> v_phase (view d) = Up \<Longrightarrow> v_meta (view d) \<Longrightarrow>
      \<exists>d' g e N b. su_remove_meta out d = (True, d') \<and> ok d' \<and> e \<le> v_era (view d) \<and> g \<notin> v_used (view d) \<and>
        view d' = (view d)\<lparr>v_gen := g, v_era := e, v_newer := N, v_meta := False, v_clean := b\<rparr>"
    and backing_law: "ok d \<Longrightarrow> v_phase (view d) = Up \<Longrightarrow>
      \<exists>d'. su_backing out d = (Some (v_data (view d)), d') \<and> ok d' \<and> view d' = view d"
    and shutdown_law: "ok d \<Longrightarrow> v_phase (view d) = Up \<Longrightarrow>
      \<exists>r d'. su_ctl out [''shutdown''] d = (Some r, d') \<and> ok d' \<and> view d' = (view d)\<lparr>v_phase := Down\<rparr>"
    and exited_law: "ok d \<Longrightarrow> v_phase (view d) = Down \<Longrightarrow>
      \<exists>d'. su_exited out d = (True, d') \<and> ok d' \<and> view d' = view d"
begin

lemma read_loop_ok:
  assumes "ok (h_sut s)" and "v_phase (view (h_sut s)) = Attached i"
    and "length (v_data (view (h_sut s))) < 2 ^ 64" and "acc = take (length acc) (v_data (view (h_sut s)))"
  shows "\<exists>d'. read_loop out (length (v_data (view (h_sut s)))) acc s =
      (Inr (v_data (view (h_sut s))), s\<lparr>h_sut := d'\<rparr>) \<and> ok d' \<and> view d' = view (h_sut s)"
  using assms
proof (induction "length (v_data (view (h_sut s))) - length acc" arbitrary: acc s rule: less_induct)
  case less
  let ?d = "h_sut s" let ?data = "v_data (view ?d)" let ?n = "min (length ?data - length acc) (2 ^ 20)"
  show ?case
  proof (cases "length ?data \<le> length acc")
    case True
    then have "acc = ?data" using less.prems(4) by simp
    then show ?thesis using less.prems(1)
      by (intro exI [of _ ?d]) (simp add: read_loop.simps)
  next
    case False
    have u: "unat (of_nat (length acc) :: u64) = length acc"
      using False less.prems(3) by (intro unat_of_nat_less) simp
    have "unat (of_nat (length acc) :: u64) + ?n \<le> length ?data" using False u by simp
    from read_law [OF less.prems(1,2) this] obtain d1 where
      d1: "su_read out (of_nat (length acc)) ?n ?d = (Some (take ?n (drop (length acc) ?data)), d1)"
        "ok d1" "view d1 = view ?d"
      by (auto simp: u)
    let ?acc = "acc @ take ?n (drop (length acc) ?data)" and ?s = "s\<lparr>h_sut := d1\<rparr>"
    have len: "length (take ?n (drop (length acc) ?data)) = ?n" by simp
    have "take (length acc) ?data @ take ?n (drop (length acc) ?data) = take (length acc + ?n) ?data"
      by (simp add: take_add)
    moreover have la: "length ?acc = length acc + ?n" by (simp only: length_append len)
    ultimately have pre: "?acc = take (length ?acc) ?data" unfolding la using less.prems(4) by simp
    have "\<exists>d'. read_loop out (length (v_data (view (h_sut ?s)))) ?acc ?s =
        (Inr (v_data (view (h_sut ?s))), ?s\<lparr>h_sut := d'\<rparr>) \<and> ok d' \<and> view d' = view (h_sut ?s)"
      by (rule less.hyps) (use False less.prems d1 pre len in simp_all)
    moreover have "read_loop out (length ?data) acc s = read_loop out (length ?data) ?acc ?s"
      using False d1(1) len by (subst read_loop.simps) simp
    ultimately show ?thesis using d1(3) by simp
  qed
qed

lemma read_device_ok:
  assumes "ok (h_sut s)" and "v_phase (view (h_sut s)) = Attached i"
    and "unat (h_size s) = length (v_data (view (h_sut s)))" and "h_dev s"
  obtains d' where "read_device out s = (Inr (v_data (view (h_sut s))), s\<lparr>h_sut := d'\<rparr>)" and "ok d'"
    and "view d' = view (h_sut s)"
proof -
  have "length (v_data (view (h_sut s))) < 2 ^ 64" using unat_u64_less [of "h_size s"] assms(3) by simp
  from read_loop_ok [OF assms(1,2) this, of "[]"] show thesis
    using that assms(3,4) by (auto simp: read_device_def op_defs)
qed

text \<open>One piece of at most 1 MiB: what is copied agrees afterwards.\<close>

lemma copy_piece_ok:
  assumes "ok (h_sut s)" and "v_phase (view (h_sut s)) = Attached i"
    and "unat off + unat len \<le> length (v_data (view (h_sut s)))" and "pos < len"
    and "agree U (h_shadow s) (v_data (view (h_sut s)))" and "length (v_data (view (h_sut s))) < 2 ^ 64"
  obtains d sh n where "copy_range out off len pos s =
      copy_range out off len (pos + of_nat n) (s\<lparr>h_sut := d, h_shadow := sh\<rparr>)"
    "ok d" "view d = view (h_sut s)" "0 < n" "unat (pos + of_nat n) = unat pos + n" "unat pos + n \<le> unat len"
    "agree (U - {unat off + unat pos..<unat off + unat pos + n}) sh (v_data (view (h_sut s)))"
proof -
  let ?data = "v_data (view (h_sut s))"
  let ?n = "unat (min (len - pos) (2 ^ 20))" and ?dst = "unat (off + pos)"
  have lt: "unat pos < unat len" using assms(4) by (simp add: word_less_nat_alt)
  have n: "?n \<le> unat len - unat pos" "0 < ?n"
    using lt assms(4) by (simp_all add: unat_min unat_sub less_imp_le)
  have dst: "?dst = unat off + unat pos" using assms(3,6) lt by (intro unat_add_no_overflow) simp
  have bnd: "?dst + ?n \<le> length ?data" using dst n lt assms(3) by simp
  from read_law [OF assms(1,2) bnd] obtain d where
    d: "su_read out (off + pos) ?n (h_sut s) = (Some (take ?n (drop ?dst ?data)), d)" "ok d" "view d = view (h_sut s)"
    by blast
  let ?buf = "take ?n (drop ?dst ?data)" and ?sh = "write_at ?dst (take ?n (drop ?dst ?data)) (h_shadow s)"
  have len: "length ?buf = ?n" using bnd by simp
  have not: "\<not> len \<le> pos" "\<not> length (h_shadow s) < ?dst + ?n" using assms(4,5) bnd by (simp_all add: agree_def not_le)
  then have step: "copy_range out off len pos s =
      copy_range out off len (pos + of_nat ?n) (s\<lparr>h_sut := d, h_shadow := ?sh\<rparr>)"
    using not d(1) len by (subst copy_range.simps) (simp add: Let_def)
  have "write_at ?dst ?buf ?data = ?data" using bnd by (intro write_at_same) simp
  moreover have "agree (U - {?dst..<?dst + length ?buf}) ?sh (write_at ?dst ?buf ?data)"
    using len bnd by (intro agree_write [OF assms(5)]) simp
  ultimately have ag: "agree (U - {unat off + unat pos..<unat off + unat pos + ?n}) ?sh ?data" using len dst by simp
  have "unat (pos + of_nat ?n) = unat pos + ?n"
    using n lt unat_u64_less [of len] by (intro unat_add_of_nat) simp
  from that [OF step d(2,3) n(2) this _ ag] n lt show thesis by simp
qed

lemma copy_range_ok:
  assumes "ok (h_sut s)" and "v_phase (view (h_sut s)) = Attached i"
    and "unat off + unat len \<le> length (v_data (view (h_sut s)))" and "pos \<le> len"
    and "agree U (h_shadow s) (v_data (view (h_sut s)))" and "length (v_data (view (h_sut s))) < 2 ^ 64"
  shows "\<exists>d' sh. copy_range out off len pos s = (Inr (), s\<lparr>h_sut := d', h_shadow := sh\<rparr>) \<and> ok d' \<and>
    view d' = view (h_sut s) \<and>
    agree (U - {unat off + unat pos..<unat off + unat len}) sh (v_data (view (h_sut s)))"
  using assms
proof (induction "unat len - unat pos" arbitrary: pos s U rule: less_induct)
  case less
  show ?case
  proof (cases "len \<le> pos")
    case True
    then have "pos = len" using less.prems(4) by simp
    then show ?thesis using less.prems(1,5) by (intro exI [of _ "h_sut s"] exI [of _ "h_shadow s"]) (simp add: copy_range.simps)
  next
    case False
    then have "pos < len" by simp
    from copy_piece_ok [OF less.prems(1-3) this less.prems(5,6)] obtain d sh n where
      step: "copy_range out off len pos s = copy_range out off len (pos + of_nat n) (s\<lparr>h_sut := d, h_shadow := sh\<rparr>)"
      and d: "ok d" "view d = view (h_sut s)" and n: "0 < n" "unat (pos + of_nat n) = unat pos + n" "unat pos + n \<le> unat len"
      and ag: "agree (U - {unat off + unat pos..<unat off + unat pos + n}) sh (v_data (view (h_sut s)))" .
    let ?s = "s\<lparr>h_sut := d, h_shadow := sh\<rparr>" and ?U = "U - {unat off + unat pos..<unat off + unat pos + n}"
    have "\<exists>d' sh. copy_range out off len (pos + of_nat n) ?s = (Inr (), ?s\<lparr>h_sut := d', h_shadow := sh\<rparr>) \<and>
        ok d' \<and> view d' = view (h_sut ?s) \<and>
        agree (?U - {unat off + unat (pos + of_nat n)..<unat off + unat len}) sh (v_data (view (h_sut ?s)))"
      using n ag d by (intro less.hyps) (use less.prems in \<open>simp_all add: word_le_nat_alt\<close>)
    moreover have "?U - {unat off + unat (pos + of_nat n)..<unat off + unat len} =
        U - {unat off + unat pos..<unat off + unat len}"
      using n by auto
    ultimately show ?thesis using d(2) step by auto
  qed
qed

lemma copy_ranges_ok:
  assumes "list_all2 range_of_json js rs" and "ok (h_sut s)" and "v_phase (view (h_sut s)) = Attached i"
    and "list_all (\<lambda>x. unat (dr_offset x) + unat (dr_len x) \<le> length (v_data (view (h_sut s)))) rs"
    and "agree U (h_shadow s) (v_data (view (h_sut s)))" and "length (v_data (view (h_sut s))) < 2 ^ 64"
    and "h_dev s"
  shows "\<exists>c d' sh. copy_ranges out js copied s = (Inr c, s\<lparr>h_sut := d', h_shadow := sh\<rparr>) \<and> ok d' \<and>
    view d' = view (h_sut s) \<and> agree (U - covered rs) sh (v_data (view (h_sut s)))"
  using assms
proof (induction js rs arbitrary: s U copied rule: list_all2_induct)
  case Nil
  then show ?case
    by (intro exI [of _ copied] exI [of _ "h_sut s"] exI [of _ "h_shadow s"]) (simp add: op_defs covered_def)
next
  case (Cons j js r rs)
  have j: "as_u64 (jget ''offset'' j) = Some (uint (dr_offset r))" "as_u64 (jget ''len'' j) = Some (uint (dr_len r))"
    using Cons.hyps(1) by (simp_all add: range_of_json_def)
  have "unat (dr_offset r) + unat (dr_len r) \<le> length (v_data (view (h_sut s)))" using Cons.prems(3) by simp
  from copy_range_ok [OF Cons.prems(1,2) this, of 0 U] obtain d1 sh1 where
    c1: "copy_range out (dr_offset r) (dr_len r) 0 s = (Inr (), s\<lparr>h_sut := d1, h_shadow := sh1\<rparr>)"
      "ok d1" "view d1 = view (h_sut s)"
      "agree (U - range_bytes r) sh1 (v_data (view (h_sut s)))"
    using Cons.prems by (auto simp: range_bytes_def)
  let ?s = "s\<lparr>h_sut := d1, h_shadow := sh1\<rparr>"
  have "\<exists>c d' sh. copy_ranges out js (copied + dr_len r) ?s = (Inr c, ?s\<lparr>h_sut := d', h_shadow := sh\<rparr>) \<and>
      ok d' \<and> view d' = view (h_sut ?s) \<and> agree (U - range_bytes r - covered rs) sh (v_data (view (h_sut ?s)))"
    by (rule Cons.IH) (use Cons.prems c1 in simp_all)
  moreover have "U - range_bytes r - covered rs = U - covered (r # rs)" by (auto simp: covered_def)
  ultimately show ?case using c1(1,3) j Cons.prems(6) by (auto simp: op_defs)
qed

lemma diff_same [simp]: "diff what xs xs = ret ()"
  by (simp add: diff_def)

lemma verify_ok:
  assumes "ok (h_sut s)" and "v_phase (view (h_sut s)) = Attached i"
    and "unat (h_size s) = length (v_data (view (h_sut s)))" and "h_dev s"
    and "h_expected s = v_data (view (h_sut s))" and "h_shadow s = v_data (view (h_sut s))"
  obtains d' where "verify out s = (Inr (), s\<lparr>h_sut := d'\<rparr>)" and "ok d'" and "view d' = view (h_sut s)"
proof -
  obtain d' where "read_device out s = (Inr (v_data (view (h_sut s))), s\<lparr>h_sut := d'\<rparr>)" "ok d'"
      "view d' = view (h_sut s)"
    using read_device_ok [OF assms(1-4)] by blast
  then show thesis using that assms(5,6) by (simp add: verify_def op_defs)
qed

text \<open>The diff of an accepted cursor brings the shadow up to date.\<close>

lemma incremental_copy_ok:
  assumes "ok (h_sut s)" and "v_phase (view (h_sut s)) = Attached i" and "h_dev s" and c: "h_cursor s = Some (g, e)"
    and "g = v_gen (view (h_sut s))" and "e < v_era (view (h_sut s))"
    and ag: "agree (v_newer (view (h_sut s)) e) (h_shadow s) (v_data (view (h_sut s)))"
    and "length (v_data (view (h_sut s))) < 2 ^ 64"
  shows "\<exists>d'. \<exists>j. try_incremental out i s =
      (Inr True, s\<lparr>h_sut := d', h_shadow := v_data (view (h_sut s)), h_journal := j\<rparr>) \<and> ok d' \<and> view d' = view (h_sut s)"
proof -
  obtain r d1 js rs where d1: "su_ctl out (dump_args i g e) (h_sut s) = (Some r, d1)" "ok d1"
      "view d1 = view (h_sut s)" "jget ''ranges'' r = JArr js" "list_all2 range_of_json js rs"
      "v_newer (view (h_sut s)) e \<subseteq> covered rs"
      "list_all (\<lambda>x. unat (dr_offset x) + unat (dr_len x) \<le> length (v_data (view (h_sut s)))) rs"
    using dump_law [OF assms(1,2,6)] assms(5) by blast
  have "\<exists>n d' sh. copy_ranges out js 0 (s\<lparr>h_sut := d1\<rparr>) =
      (Inr n, s\<lparr>h_sut := d1\<rparr>\<lparr>h_sut := d', h_shadow := sh\<rparr>) \<and> ok d' \<and>
      view d' = view (h_sut (s\<lparr>h_sut := d1\<rparr>)) \<and> agree (v_newer (view (h_sut s)) e - covered rs) sh
        (v_data (view (h_sut (s\<lparr>h_sut := d1\<rparr>))))"
    by (rule copy_ranges_ok [OF d1(5)]) (use d1 assms ag in simp_all)
  moreover have "v_newer (view (h_sut s)) e - covered rs = {}" using d1(6) by blast
  ultimately obtain n d2 where "copy_ranges out js 0 (s\<lparr>h_sut := d1\<rparr>) =
      (Inr n, s\<lparr>h_sut := d2, h_shadow := v_data (view (h_sut s))\<rparr>)" "ok d2" "view d2 = view (h_sut s)"
    using d1(3) by (auto simp: agree_empty)
  then show ?thesis
    using c d1(1,4) by (auto simp: try_incremental_def op_defs as_array_def)
qed

lemma try_incremental_ok:
  assumes "ok (h_sut s)" and "v_phase (view (h_sut s)) = Attached i" and "h_dev s"
    and "cursor_ok (view (h_sut s)) (h_cursor s)" and "synced (view (h_sut s)) (h_cursor s) (h_shadow s)"
    and "length (h_shadow s) = length (v_data (view (h_sut s)))" and "length (v_data (view (h_sut s))) < 2 ^ 64"
  shows "\<exists>b d' sh j. try_incremental out i s = (Inr b, s\<lparr>h_sut := d', h_shadow := sh, h_journal := j\<rparr>) \<and>
    ok d' \<and> view d' = view (h_sut s) \<and> length sh = length (h_shadow s) \<and> (b \<longrightarrow> sh = v_data (view (h_sut s)))"
proof (cases "h_cursor s")
  case None
  then show ?thesis
    using assms(1) by (intro exI [of _ False] exI [of _ "h_sut s"] exI [of _ "h_shadow s"] exI [of _ "h_journal s"])
      (simp add: try_incremental_def op_defs)
next
  case (Some c)
  obtain g e where c: "h_cursor s = Some (g, e)" using Some by (cases c) auto
  show ?thesis
  proof (cases "g = v_gen (view (h_sut s))")
    case True
    then have e: "e < v_era (view (h_sut s))" and ag: "agree (v_newer (view (h_sut s)) e) (h_shadow s) (v_data (view (h_sut s)))"
      using assms(4,5) c by (simp_all add: cursor_ok_def synced_def)
    from incremental_copy_ok [OF assms(1-3) c True e ag assms(7)] show ?thesis using assms(6) by fastforce
  next
    case False
    then obtain d1 where "su_ctl out (dump_args i g e) (h_sut s) = (None, d1)" "ok d1" "view d1 = view (h_sut s)"
      using reject_law [OF assms(1,2)] assms(4) c by (auto simp: cursor_ok_def)
    then show ?thesis
      using c by (intro exI [of _ False] exI [of _ d1] exI [of _ "h_shadow s"] exI [of _ "h_journal s @ [NoteRejected]"])
        (simp add: try_incremental_def op_defs)
  qed
qed

lemma full_copy_ok:
  assumes "ok (h_sut s)" and "v_phase (view (h_sut s)) = Attached i"
    and "unat (h_size s) = length (v_data (view (h_sut s)))" and "h_dev s"
  shows "\<exists>d' j n. full_copy out s =
      (Inr (), s\<lparr>h_sut := d', h_shadow := v_data (view (h_sut s)), h_n := n, h_journal := j\<rparr>) \<and>
    ok d' \<and> view d' = view (h_sut s)"
proof -
  obtain d' where d: "read_device out s = (Inr (v_data (view (h_sut s))), s\<lparr>h_sut := d'\<rparr>)" "ok d'"
      "view d' = view (h_sut s)"
    using read_device_ok [OF assms] by blast
  let ?n = "(h_n s)\<lparr>n_full_copies := n_full_copies (h_n s) + 1\<rparr>"
  let ?j = "if h_journal s = [] \<or> \<not> is_backup_note (last (h_journal s)) then h_journal s @ [NoteFullCopy]
    else h_journal s"
  show ?thesis
    by (intro exI [of _ d'] exI [of _ ?j] exI [of _ ?n]) (simp add: full_copy_def op_defs d)
qed

lemmas h_defs = h_attached_def h_base_def h_synced_def h_args_def

lemma u32_less_plus1: "unat (e :: u32) + 1 < 2 ^ 32 \<Longrightarrow> unat (e + 1) = unat e + 1 \<and> e < e + 1"
  by (subst unat_add_no_overflow) (simp_all add: word_less_nat_alt unat_add_no_overflow)

lemma as_u64_u32 [simp]: "as_u64 (JNum (uint (e :: u32))) = Some (uint e)"
  using uint_lt2p [of e] by (simp add: as_u64_def)

lemma as_u64_u64 [simp]: "as_u64 (JNum (uint (e :: u64))) = Some (uint e)"
  using uint_lt2p [of e] by (simp add: as_u64_def)

text \<open>The copy of a backup, incremental or full: afterwards the image is the device.\<close>

lemma backup_copy_ok:
  assumes "ok (h_sut s)" and "v_phase (view (h_sut s)) = Attached i" and "h_dev s"
    and "unat (h_size s) = length (v_data (view (h_sut s)))" and "length (h_shadow s) = length (v_data (view (h_sut s)))"
    and "cursor_ok (view (h_sut s)) (h_cursor s)" and "synced (view (h_sut s)) (h_cursor s) (h_shadow s)"
  shows "\<exists>d m j. chain (try_incremental out i) (\<lambda>b. if b then ret () else full_copy out) s =
      (Inr (), s\<lparr>h_sut := d, h_shadow := v_data (view (h_sut s)), h_n := m, h_journal := j\<rparr>) \<and>
    ok d \<and> view d = view (h_sut s)"
proof -
  have "length (v_data (view (h_sut s))) < 2 ^ 64" using unat_u64_less [of "h_size s"] assms(4) by simp
  then have "\<exists>b d' sh j. try_incremental out i s = (Inr b, s\<lparr>h_sut := d', h_shadow := sh, h_journal := j\<rparr>) \<and>
      ok d' \<and> view d' = view (h_sut s) \<and> length sh = length (h_shadow s) \<and> (b \<longrightarrow> sh = v_data (view (h_sut s)))"
    by (intro try_incremental_ok) (use assms in simp_all)
  then obtain b d2 sh j where t: "try_incremental out i s = (Inr b, s\<lparr>h_sut := d2, h_shadow := sh, h_journal := j\<rparr>)"
      "ok d2" "view d2 = view (h_sut s)" "b \<Longrightarrow> sh = v_data (view (h_sut s))"
    by auto
  let ?s2 = "s\<lparr>h_sut := d2, h_shadow := sh, h_journal := j\<rparr>"
  show ?thesis
  proof (cases b)
    case True
    then show ?thesis using t
      by (intro exI [of _ d2] exI [of _ "h_n s"] exI [of _ j]) (simp add: chain_def ret_def)
  next
    case False
    have "\<exists>d' j m. full_copy out ?s2 = (Inr (), ?s2\<lparr>h_sut := d', h_shadow := v_data (view (h_sut ?s2)), h_n := m, h_journal := j\<rparr>) \<and>
        ok d' \<and> view d' = view (h_sut ?s2)"
      by (rule full_copy_ok) (use t assms in simp_all)
    with False t show ?thesis by (auto simp: chain_def)
  qed
qed

text \<open>
  The backup: the image equals the device afterwards, and the new cursor is in step with it.
\<close>

lemma backup_ok:
  assumes "h_attached view ok args (Suc n) s"
  shows "\<exists>s'. op_backup_verify out s = (Inr (), s') \<and> h_attached view ok args n s' \<and>
    h_shadow s' = v_data (view (h_sut s')) \<and> h_expected s' = h_expected s"
proof -
  let ?v = "view (h_sut s)"
  obtain i where i: "v_phase ?v = Attached i" "h_dev_id s = Some i" and o: "ok (h_sut s)"
    and sz: "unat (h_size s) = length (v_data ?v)" "length (h_shadow s) = length (v_data ?v)"
    and dev: "h_dev s" and ex: "h_expected s = v_data ?v" and era: "unat (v_era ?v) + Suc n < 2 ^ 32"
    and cur: "cursor_ok ?v (h_cursor s)" "synced ?v (h_cursor s) (h_shadow s)"
    using assms by (auto simp: h_defs)
  have e: "unat (v_era ?v + 1) = unat (v_era ?v) + 1" "v_era ?v < v_era ?v + 1"
    using u32_less_plus1 [of "v_era ?v"] era by auto
  obtain r d1 where d1: "su_ctl out [''checkpoint'', ''-n'', dev_arg i] (h_sut s) = (Some r, d1)" "ok d1"
      "view d1 = ?v\<lparr>v_era := v_era ?v + 1\<rparr>" "jget ''closed_era'' r = JNum (uint (v_era ?v))"
    using checkpoint_law [OF o i(1)] era by auto
  let ?s1 = "s\<lparr>h_sut := d1, h_n := (h_n s)\<lparr>n_checkpoints := n_checkpoints (h_n s) + 1\<rparr>\<rparr>"
  have "cursor_ok (view (h_sut ?s1)) (h_cursor ?s1)" "synced (view (h_sut ?s1)) (h_cursor ?s1) (h_shadow ?s1)"
    using cur e(2) d1(3) by (auto simp: cursor_ok_def synced_def split: option.splits)
  then have "\<exists>d m j. chain (try_incremental out i) (\<lambda>b. if b then ret () else full_copy out) ?s1 =
        (Inr (), ?s1\<lparr>h_sut := d, h_shadow := v_data (view (h_sut ?s1)), h_n := m, h_journal := j\<rparr>) \<and>
      ok d \<and> view d = view (h_sut ?s1)"
    by (intro backup_copy_ok) (use d1 i dev sz in simp_all)
  then obtain d3 m j' where f: "chain (try_incremental out i) (\<lambda>b. if b then ret () else full_copy out) ?s1 =
      (Inr (), ?s1\<lparr>h_sut := d3, h_shadow := v_data ?v, h_n := m, h_journal := j'\<rparr>)" "ok d3" "view d3 = view d1"
    using d1(3) by auto
  let ?s3 = "?s1\<lparr>h_sut := d3, h_shadow := v_data ?v, h_n := m, h_journal := j',
    h_cursor := Some (h_generation s, v_era ?v), h_n := m\<lparr>n_backups := n_backups m + 1\<rparr>\<rparr>"
  obtain d4 where v: "verify out ?s3 = (Inr (), ?s3\<lparr>h_sut := d4\<rparr>)" "ok d4" "view d4 = view d1"
    using verify_ok [of ?s3 i] f d1 i dev sz ex by auto
  have "op_backup_verify out s = verify out ?s3"
    using i(2) d1(1,4) f(1) by (auto simp: op_backup_verify_def op_defs split: prod.splits sum.splits)
  then have "op_backup_verify out s = (Inr (), ?s3\<lparr>h_sut := d4\<rparr>)" using v(1) by simp
  moreover have "h_attached view ok args n (?s3\<lparr>h_sut := d4\<rparr>)"
    using assms v d1(3) e i by (auto simp: h_defs cursor_ok_def synced_def)
  ultimately show ?thesis using v(3) d1(3) by (intro exI [of _ "?s3\<lparr>h_sut := d4\<rparr>"]) simp
qed

lemma checkpoint_op_ok:
  assumes "h_attached view ok args (Suc n) s"
  shows "\<exists>s'. op_checkpoint out s = (Inr (), s') \<and> h_attached view ok args n s'"
proof -
  let ?v = "view (h_sut s)"
  obtain i where i: "v_phase ?v = Attached i" "h_dev_id s = Some i" and o: "ok (h_sut s)"
    and era: "unat (v_era ?v) + Suc n < 2 ^ 32"
    using assms by (auto simp: h_defs)
  have e: "unat (v_era ?v + 1) = unat (v_era ?v) + 1" "v_era ?v < v_era ?v + 1"
    using u32_less_plus1 [of "v_era ?v"] era by auto
  obtain r d1 where d1: "su_ctl out [''checkpoint'', ''-n'', dev_arg i] (h_sut s) = (Some r, d1)" "ok d1"
      "view d1 = ?v\<lparr>v_era := v_era ?v + 1\<rparr>"
    using checkpoint_law [OF o i(1)] era by auto
  have "x < v_era ?v + 1" if "x < v_era ?v" for x using that e(2) by (rule less_trans)
  then show ?thesis
    using assms i d1 e
    by (auto simp: op_checkpoint_def op_defs h_defs cursor_ok_def synced_def split: option.splits)
qed

lemma synced_write:
  assumes "synced v c shadow" and "cursor_ok v c" and "i + length bs \<le> length (v_data v)"
    and "\<forall>x. v_newer v x \<subseteq> N x" and "\<forall>x<v_era v. {i..<i + length bs} \<subseteq> N x"
  shows "synced (v\<lparr>v_data := write_at i bs (v_data v), v_newer := N\<rparr>) c shadow"
proof -
  have "agree (N e) shadow (write_at i bs (v_data v))"
    if "agree (v_newer v e) shadow (v_data v)" "e < v_era v" for e
  proof -
    have "agree {i..<i + length bs} (write_at i bs (v_data v)) (v_data v)"
      using assms(3) by (auto simp: agree_def nth_write_at)
    then have "agree (v_newer v e \<union> {i..<i + length bs}) shadow (write_at i bs (v_data v))"
      using that(1) by (auto simp: agree_def)
    then show ?thesis by (rule agree_mono) (use assms(4,5) that(2) in auto)
  qed
  then show ?thesis using assms(1,2) by (auto simp: synced_def cursor_ok_def split: option.splits)
qed

lemma blocks_nonzero: "4096 \<le> unat a \<Longrightarrow> a div 4096 \<noteq> 0" for a :: u64
proof -
  assume "4096 \<le> unat a"
  then have "unat (a div 4096) \<noteq> 0" by (simp add: word_nat)
  then show ?thesis by (metis unat_0)
qed

lemma whole_blocks: "a mod 4096 = 0 \<Longrightarrow> 0 < a \<Longrightarrow> 4096 \<le> unat a" for a :: u64
proof -
  assume "a mod 4096 = 0" "0 < a"
  then have "unat (a mod 4096) = 0" "0 < unat a" by (simp_all add: word_less_nat_alt)
  then have "4096 dvd unat a" "0 < unat a" by (simp_all add: unat_mod_distrib mod_0_imp_dvd)
  then show ?thesis by (rule dvd_imp_le)
qed

text \<open>The offset and the data that a write of the burst draws.\<close>

lemma write_draws:
  assumes "sz mod 4096 = 0" and "0 < sz"
  obtains b k r1 r2 r3 data where "draw (sz div 4096) s = (Inr b, s\<lparr>h_rng := r1\<rparr>)"
    "draw (min MAX_WRITE (sz - 4096 * b) div 4096) (s\<lparr>h_rng := r1\<rparr>) = (Inr k, s\<lparr>h_rng := r2\<rparr>)"
    "chaos_fill (unat (4096 * (1 + k))) r2 = (data, r3)" "length data = unat (4096 * (1 + k))"
    "unat (4096 * b) + length data \<le> unat sz" "data \<noteq> []" "length data \<le> 262144"
    "unat (4096 * b) mod 4096 = 0" "length data mod 4096 = 0"
proof -
  obtain b r1 where b: "draw (sz div 4096) s = (Inr b, s\<lparr>h_rng := r1\<rparr>)" "b < sz div 4096"
    by (rule draw_ok [OF blocks_nonzero [OF whole_blocks [OF assms]]])
  note reg = block_region [OF b(2) assms(1)]
  let ?max = "min MAX_WRITE (sz - 4096 * b)"
  have max: "unat ?max = min (unat MAX_WRITE) (unat sz - 4096 * unat b)" by (simp add: unat_min reg(3))
  have M: "unat MAX_WRITE = 262144" by (simp add: MAX_WRITE_def)
  have "4096 \<le> unat ?max" using max M reg(4) by simp
  from draw_ok [OF blocks_nonzero [OF this], of "s\<lparr>h_rng := r1\<rparr>"] obtain k r2 where
    k: "draw (?max div 4096) (s\<lparr>h_rng := r1\<rparr>) = (Inr k, s\<lparr>h_rng := r2\<rparr>)" "k < ?max div 4096"
    by auto
  have "unat ?max \<le> unat MAX_WRITE" using max by simp
  note len = block_len [OF k(2) this]
  let ?len = "unat (4096 * (1 + k))"
  obtain data r3 where fill: "chaos_fill ?len r2 = (data, r3)" by fastforce
  then have ld: "length data = ?len" using length_chaos_fill [of ?len r2] by simp
  show thesis by (rule that [OF b(1) k(1) fill ld]) (use len max reg(1,2) M ld in auto)
qed

lemma write_one_ok:
  assumes "h_attached view ok args n s"
  shows "\<exists>s'. write_one out s = (Inr (), s') \<and> h_attached view ok args n s'"
proof -
  let ?v = "view (h_sut s)" and ?sz = "h_size s"
  obtain i where i: "v_phase ?v = Attached i" and o: "ok (h_sut s)"
    and sz: "unat ?sz = length (v_data ?v)" "?sz mod 4096 = 0" "0 < ?sz" and dev: "h_dev s"
    and ex: "h_expected s = v_data ?v"
    using assms by (auto simp: h_defs)
  obtain b k r1 r2 r3 data where b: "draw (?sz div 4096) s = (Inr b, s\<lparr>h_rng := r1\<rparr>)"
    and k: "draw (min MAX_WRITE (?sz - 4096 * b) div 4096) (s\<lparr>h_rng := r1\<rparr>) = (Inr k, s\<lparr>h_rng := r2\<rparr>)"
    and fill: "chaos_fill (unat (4096 * (1 + k))) r2 = (data, r3)" and ld: "length data = unat (4096 * (1 + k))"
    and fits: "unat (4096 * b) + length data \<le> unat ?sz" "data \<noteq> []" "length data \<le> 262144"
      "unat (4096 * b) mod 4096 = 0" "length data mod 4096 = 0"
    by (rule write_draws [OF sz(2,3)])
  let ?off = "4096 * b"
  have le: "unat ?off + length data \<le> length (v_data ?v)" using fits(1) sz(1) by simp
  obtain d1 N where d1: "su_write out ?off data (h_sut s) = (True, d1)" "ok d1"
      "view d1 = ?v\<lparr>v_data := write_at (unat ?off) data (v_data ?v), v_newer := N\<rparr>"
      "\<forall>c. v_newer ?v c \<subseteq> N c" "\<forall>c<v_era ?v. {unat ?off..<unat ?off + length data} \<subseteq> N c"
    using write_law [OF o i fits(2) le fits(4,5,3)] by blast
  let ?s' = "s\<lparr>h_rng := r3, h_sut := d1, h_expected := write_at (unat ?off) data (v_data ?v),
    h_n := (h_n s)\<lparr>n_writes := n_writes (h_n s) + 1\<rparr>\<rparr>"
  have "write_one out s = (Inr (), ?s')"
    using b k fill d1(1) dev ex le ld
    by (simp add: write_one_def chain_def [of "draw _"] Let_def) (simp add: op_defs)
  moreover have "h_attached view ok args n ?s'"
    using assms d1 i le synced_write [of ?v "h_cursor s" "h_shadow s" "unat ?off" data N]
    by (auto simp: h_defs)
  ultimately show ?thesis by blast
qed

lemma write_many_ok:
  "h_attached view ok args n s \<Longrightarrow> \<exists>s'. write_many out m s = (Inr (), s') \<and> h_attached view ok args n s'"
proof (induction m arbitrary: s)
  case (Suc m)
  from write_one_ok [OF Suc.prems] obtain s1 where
    "write_one out s = (Inr (), s1)" "h_attached view ok args n s1"
    by blast
  then show ?case using Suc.IH [of s1] by (simp add: chain_def)
qed (simp add: ret_def)

lemma h_attached_frame [simp]:
  "h_attached view ok args n (s\<lparr>h_rng := r\<rparr>) = h_attached view ok args n s"
  "h_attached view ok args n (s\<lparr>h_n := m\<rparr>) = h_attached view ok args n s"
  "h_attached view ok args n (s\<lparr>h_journal := j\<rparr>) = h_attached view ok args n s"
  by (simp_all add: h_defs)

lemma h_attached_less: "h_attached view ok args (Suc n) s \<Longrightarrow> h_attached view ok args n s"
  by (simp add: h_defs)

lemma burst_ok:
  assumes "h_attached view ok args n s"
  shows "\<exists>s'. op_write_burst out s = (Inr (), s') \<and> h_attached view ok args n s'"
proof -
  obtain c r where c: "draw 24 s = (Inr c, s\<lparr>h_rng := r\<rparr>)" by (rule draw_ok [of 24]) simp
  from write_many_ok [of n "s\<lparr>h_rng := r\<rparr>" "unat (1 + c)"] assms obtain s1 where
    "write_many out (unat (1 + c)) (s\<lparr>h_rng := r\<rparr>) = (Inr (), s1)" "h_attached view ok args n s1"
    by auto
  then show ?thesis using c by (simp add: op_write_burst_def op_defs)
qed

text \<open>Detaching and killing, up to the point where nothing is attached.\<close>

definition h_idle :: "phase \<Rightarrow> nat \<Rightarrow> 'd harness \<Rightarrow> bool" where
  "h_idle p n s \<longleftrightarrow> h_base view ok args n s \<and> v_phase (view (h_sut s)) = p \<and> h_dev_id s = None \<and>
     \<not> h_dev s \<and> (h_daemon s \<longleftrightarrow> p \<noteq> Down) \<and>
     (v_meta (view (h_sut s)) \<longrightarrow> v_gen (view (h_sut s)) \<in> v_used (view (h_sut s)))"

lemma h_idle_frame [simp]:
  "h_idle p n (s\<lparr>h_rng := r\<rparr>) = h_idle p n s" "h_idle p n (s\<lparr>h_n := m\<rparr>) = h_idle p n s"
  "h_idle p n (s\<lparr>h_journal := j\<rparr>) = h_idle p n s" "h_idle p n (s\<lparr>h_expected := xs\<rparr>) = h_idle p n s"
  by (simp_all add: h_idle_def h_defs)

lemma detach_ok:
  assumes "h_attached view ok args n s"
  shows "\<exists>d'. detach out s = (Inr (), s\<lparr>h_dev := False, h_sut := d', h_dev_id := None\<rparr>) \<and>
    ok d' \<and> view d' = (view (h_sut s))\<lparr>v_phase := Up, v_clean := True\<rparr> \<and>
    h_idle Up n (s\<lparr>h_dev := False, h_sut := d', h_dev_id := None\<rparr>)"
proof -
  let ?v = "view (h_sut s)"
  obtain i where i: "v_phase ?v = Attached i" "h_dev_id s = Some i" and o: "ok (h_sut s)"
    using assms by (auto simp: h_defs)
  obtain r d1 where d1: "su_ctl out [''del'', ''-n'', dev_arg i] (h_sut s) = (Some r, d1)" "ok d1"
      "view d1 = ?v\<lparr>v_phase := Up, v_clean := True\<rparr>"
    using del_law [OF o i(1)] by blast
  obtain d2 where d2: "su_gone out i d1 = (True, d2)" "ok d2" "view d2 = view d1"
    using gone_law [OF d1(2), of i] d1(3) by auto
  have "detach out s = (Inr (), s\<lparr>h_dev := False, h_sut := d2, h_dev_id := None\<rparr>)"
    using i(2) d1(1) d2(1) by (simp add: detach_def wait_bdev_gone_def op_defs)
  moreover have "h_idle Up n (s\<lparr>h_dev := False, h_sut := d2, h_dev_id := None\<rparr>)"
    using assms d2 d1(3) by (simp add: h_idle_def h_defs)
  ultimately show ?thesis using d1(3) d2 by auto
qed

lemma kill_raw:
  assumes "h_base view ok args n s" and "v_phase (view (h_sut s)) = Attached i" and "h_dev_id s = Some i"
    and "h_daemon s" and "v_gen (view (h_sut s)) \<in> v_used (view (h_sut s))"
  shows "\<exists>d'. kill_daemon out s = (Inr (), s\<lparr>h_dev := False, h_daemon := False, h_sut := d', h_dev_id := None\<rparr>) \<and>
    ok d' \<and> (\<exists>N. view d' = (view (h_sut s))\<lparr>v_phase := Down, v_newer := N\<rparr>) \<and>
    h_idle Down n (s\<lparr>h_dev := False, h_daemon := False, h_sut := d', h_dev_id := None\<rparr>)"
proof -
  let ?v = "view (h_sut s)" and ?d = "su_kill out (h_sut s)"
  obtain N where k: "ok ?d" "view ?d = ?v\<lparr>v_phase := Down, v_newer := N\<rparr>"
    using kill_law [of "h_sut s"] assms(1) by (auto simp: h_base_def)
  obtain d2 where d2: "su_gone out i ?d = (True, d2)" "ok d2" "view d2 = view ?d"
    using gone_law [OF k(1), of i] k(2) by auto
  have "kill_daemon out s = (Inr (), s\<lparr>h_dev := False, h_daemon := False, h_sut := d2, h_dev_id := None\<rparr>)"
    using assms(3,4) d2(1) by (simp add: kill_daemon_def wait_bdev_gone_def op_defs)
  moreover have "h_idle Down n (s\<lparr>h_dev := False, h_daemon := False, h_sut := d2, h_dev_id := None\<rparr>)"
    using assms d2 k(2) by (simp add: h_idle_def h_defs)
  ultimately show ?thesis using k(2) d2 by auto
qed

lemma kill_ok:
  assumes "h_attached view ok args n s"
  shows "\<exists>d'. kill_daemon out s = (Inr (), s\<lparr>h_dev := False, h_daemon := False, h_sut := d', h_dev_id := None\<rparr>) \<and>
    ok d' \<and> (\<exists>N. view d' = (view (h_sut s))\<lparr>v_phase := Down, v_newer := N\<rparr>) \<and>
    h_idle Down n (s\<lparr>h_dev := False, h_daemon := False, h_sut := d', h_dev_id := None\<rparr>)"
proof -
  obtain i where "v_phase (view (h_sut s)) = Attached i" "h_dev_id s = Some i" using assms by (auto simp: h_attached_def)
  then show ?thesis using assms by (intro kill_raw) (simp_all add: h_attached_def)
qed

lemma start_ok:
  assumes "h_idle Down n s"
  shows "\<exists>d'. start_daemon out s = (Inr (), s\<lparr>h_sut := d', h_daemon := True\<rparr>) \<and> ok d' \<and>
    view d' = (view (h_sut s))\<lparr>v_phase := Up\<rparr> \<and> h_idle Up n (s\<lparr>h_sut := d', h_daemon := True\<rparr>)"
proof -
  obtain d' where d: "su_start out (h_sut s) = (Some True, d')" "ok d'" "view d' = (view (h_sut s))\<lparr>v_phase := Up\<rparr>"
    using start_law [of "h_sut s"] assms by (auto simp: h_idle_def h_defs)
  then show ?thesis using assms by (auto simp: start_daemon_def op_defs h_idle_def h_defs)
qed

text \<open>Attaching: what \<open>add\<close> answers decides the rest.\<close>

lemma attach_run:
  assumes "h_args s = args" and "su_ctl out args (h_sut s) = (Some r, d1)" and "ok d1"
    and "jget ''dev_id'' r = JNum (uint i)" and "jget ''generation'' r = JStr g" and "v_phase (view d1) = Attached i"
  shows "\<exists>d'. attach out s = (Inr r, s\<lparr>h_dev_id := Some i, h_generation := g, h_sut := d', h_dev := True\<rparr>) \<and>
    ok d' \<and> view d' = view d1"
proof -
  obtain d2 where d2: "su_node out i d1 = (True, d2)" "ok d2" "view d2 = view d1"
    using node_law [OF assms(3,6)] by blast
  obtain d3 where d3: "su_open out i d2 = (True, d3)" "ok d3" "view d3 = view d1"
    using open_law [OF d2(2), of i] d2(3) assms(6) by auto
  have "attach out s = (Inr r, s\<lparr>h_dev_id := Some i, h_generation := g, h_sut := d3, h_dev := True\<rparr>)"
    using assms(1,2,4,5) d2(1) d3(1) by (simp add: attach_def op_defs h_args_def as_str_def)
  then show ?thesis using d3 by blast
qed

lemma attach_clean:
  assumes "h_idle Up n s" and "h_synced view s" and "v_meta (view (h_sut s))" and "v_clean (view (h_sut s))"
    and "h_expected s = v_data (view (h_sut s))"
  shows "\<exists>r s'. attach out s = (Inr r, s') \<and> \<not> unclean r \<and> h_attached view ok args n s' \<and>
    h_generation s' = v_gen (view (h_sut s)) \<and> h_expected s' = h_expected s"
proof -
  have b: "ok (h_sut s)" "v_phase (view (h_sut s)) = Up" "h_args s = args"
    using assms(1) by (simp_all add: h_idle_def h_base_def)
  obtain r d1 i where r: "su_ctl out args (h_sut s) = (Some r, d1)" "ok d1" "jget ''dev_id'' r = JNum (uint i)"
      "jget ''generation'' r = JStr (v_gen (view (h_sut s)))" "\<not> unclean r"
      "view d1 = (view (h_sut s))\<lparr>v_phase := Attached i, v_clean := False\<rparr>"
    using add_clean_law [OF b(1,2) assms(3,4)] by blast
  from attach_run [OF b(3) r(1-4)] obtain d2 where d2: "attach out s =
      (Inr r, s\<lparr>h_dev_id := Some i, h_generation := v_gen (view (h_sut s)), h_sut := d2, h_dev := True\<rparr>)"
      "ok d2" "view d2 = view d1"
    using r(6) by auto
  then show ?thesis using assms r(5,6) by (simp add: h_idle_def h_defs)
qed

lemma attach_unclean:
  assumes "h_idle Up n s" and "v_meta (view (h_sut s))" and "\<not> v_clean (view (h_sut s))"
  shows "\<exists>r d i. attach out s = (Inr r, s\<lparr>h_dev_id := Some i, h_generation := v_gen (view (h_sut s)),
      h_sut := d, h_dev := True\<rparr>) \<and> unclean r \<and> ok d \<and> (\<exists>N. view d = (view (h_sut s))\<lparr>v_phase := Attached i, v_newer := N\<rparr>) \<and>
    (\<forall>xs. xs = v_data (view (h_sut s)) \<longrightarrow> h_attached view ok args n (s\<lparr>h_dev_id := Some i,
      h_generation := v_gen (view (h_sut s)), h_sut := d, h_dev := True, h_expected := xs\<rparr>))"
proof -
  have b: "ok (h_sut s)" "v_phase (view (h_sut s)) = Up" "h_args s = args"
    using assms(1) by (simp_all add: h_idle_def h_base_def)
  obtain r d1 i N where r: "su_ctl out args (h_sut s) = (Some r, d1)" "ok d1" "jget ''dev_id'' r = JNum (uint i)"
      "jget ''generation'' r = JStr (v_gen (view (h_sut s)))" "unclean r"
      "view d1 = (view (h_sut s))\<lparr>v_phase := Attached i, v_newer := N\<rparr>"
      "\<forall>c<v_era (view (h_sut s)). {..<length (v_data (view (h_sut s)))} \<subseteq> N c"
    using add_unclean_law [OF b(1,2) assms(2,3)] by blast
  from attach_run [OF b(3) r(1-4)] obtain d2 where d2: "attach out s =
      (Inr r, s\<lparr>h_dev_id := Some i, h_generation := v_gen (view (h_sut s)), h_sut := d2, h_dev := True\<rparr>)"
      "ok d2" "view d2 = view d1"
    using r(6) by auto
  have "synced (view d2) (h_cursor s) (h_shadow s)"
    using assms(1) r(6,7) d2(3) by (auto simp: h_idle_def h_defs synced_def cursor_ok_def agree_def split: option.splits)
  then show ?thesis using assms r(5,6) d2 by (intro exI [of _ r] exI [of _ d2] exI [of _ i]) (auto simp: h_idle_def h_defs)
qed

lemma attach_fresh:
  assumes "h_idle Up (Suc n) s" and "\<not> v_meta (view (h_sut s))" and "h_expected s = v_data (view (h_sut s))"
  shows "\<exists>r s'. attach out s = (Inr r, s') \<and> \<not> unclean r \<and> h_attached view ok args n s' \<and>
    h_generation s' \<notin> v_used (view (h_sut s)) \<and> h_cursor s' = h_cursor s"
proof -
  have b: "ok (h_sut s)" "v_phase (view (h_sut s)) = Up" "h_args s = args" "Suc n \<le> v_fresh (view (h_sut s))"
    using assms(1) by (simp_all add: h_idle_def h_base_def)
  then obtain k where k: "v_fresh (view (h_sut s)) = Suc k" "n \<le> k" by (metis Suc_le_D Suc_le_mono)
  obtain r d1 i g N where r: "su_ctl out args (h_sut s) = (Some r, d1)" "ok d1" "jget ''dev_id'' r = JNum (uint i)"
      "jget ''generation'' r = JStr g" "\<not> unclean r" "g \<notin> v_used (view (h_sut s))"
      "view d1 = (view (h_sut s))\<lparr>v_phase := Attached i, v_gen := g, v_era := 1, v_newer := N, v_meta := True,
          v_clean := False, v_fresh := k, v_used := insert g (v_used (view (h_sut s)))\<rparr>"
    using add_fresh_law [OF b(1,2) assms(2) k(1)] by blast
  from attach_run [OF b(3) r(1-4)] obtain d2 where d2: "attach out s =
      (Inr r, s\<lparr>h_dev_id := Some i, h_generation := g, h_sut := d2, h_dev := True\<rparr>)"
      "ok d2" "view d2 = view d1"
    using r(7) by auto
  have "synced (view d2) (h_cursor s) (h_shadow s)" "cursor_ok (view d2) (h_cursor s)"
    using assms(1) r(6,7) d2(3) by (auto simp: h_idle_def h_defs synced_def cursor_ok_def split: option.splits)
  moreover have "1 + n < 2 ^ 32" using assms(1) by (simp add: h_idle_def h_base_def)
  ultimately show ?thesis using assms r(5-7) d2 k(2) by (auto simp: h_idle_def h_defs)
qed

lemma reattach_ok:
  assumes "h_attached view ok args n s"
  shows "\<exists>s'. op_reattach out s = (Inr (), s') \<and> h_attached view ok args n s'"
proof -
  obtain d1 where d1: "detach out s = (Inr (), s\<lparr>h_dev := False, h_sut := d1, h_dev_id := None\<rparr>)"
      "view d1 = (view (h_sut s))\<lparr>v_phase := Up, v_clean := True\<rparr>"
      "h_idle Up n (s\<lparr>h_dev := False, h_sut := d1, h_dev_id := None\<rparr>)"
    using detach_ok [OF assms] by blast
  have "\<exists>r s'. attach out (s\<lparr>h_dev := False, h_sut := d1, h_dev_id := None\<rparr>) = (Inr r, s') \<and> \<not> unclean r \<and>
      h_attached view ok args n s' \<and>
      h_generation s' = v_gen (view (h_sut (s\<lparr>h_dev := False, h_sut := d1, h_dev_id := None\<rparr>))) \<and>
      h_expected s' = h_expected (s\<lparr>h_dev := False, h_sut := d1, h_dev_id := None\<rparr>)"
    by (rule attach_clean [OF d1(3)]) (use assms d1(2) in \<open>simp_all add: h_attached_def h_synced_def\<close>)
  then obtain r s' where a: "attach out (s\<lparr>h_dev := False, h_sut := d1, h_dev_id := None\<rparr>) = (Inr r, s')"
      "\<not> unclean r" "h_attached view ok args n s'" "h_generation s' = h_generation s"
    using d1(2) assms by (auto simp: h_attached_def)
  then show ?thesis using d1(1) by (simp add: op_reattach_def op_defs)
qed

lemma crash_ok:
  assumes "h_attached view ok args n s"
  shows "\<exists>s'. op_crash out s = (Inr (), s') \<and> h_attached view ok args n s'"
proof -
  let ?v = "view (h_sut s)"
  let ?k = "\<lambda>d. s\<lparr>h_dev := False, h_daemon := False, h_sut := d, h_dev_id := None\<rparr>"
  obtain d1 N where d1: "kill_daemon out s = (Inr (), ?k d1)" "view d1 = ?v\<lparr>v_phase := Down, v_newer := N\<rparr>"
      "h_idle Down n (?k d1)"
    using kill_ok [OF assms] by blast
  obtain d2 where d2: "start_daemon out (?k d1) = (Inr (), ?k d1\<lparr>h_sut := d2, h_daemon := True\<rparr>)"
      "view d2 = ?v\<lparr>v_phase := Up, v_newer := N\<rparr>" "h_idle Up n (?k d1\<lparr>h_sut := d2, h_daemon := True\<rparr>)"
    using start_ok [OF d1(3)] d1(2) by auto
  let ?s2 = "?k d1\<lparr>h_sut := d2, h_daemon := True\<rparr>"
  have "v_meta (view (h_sut ?s2))" "\<not> v_clean (view (h_sut ?s2))" using assms d2(2) by (simp_all add: h_attached_def)
  from attach_unclean [OF d2(3) this] obtain r d3 i where
    a: "attach out ?s2 = (Inr r, ?s2\<lparr>h_dev_id := Some i, h_generation := v_gen ?v, h_sut := d3, h_dev := True\<rparr>)"
      "unclean r" "h_attached view ok args n (?s2\<lparr>h_dev_id := Some i, h_generation := v_gen ?v, h_sut := d3,
        h_dev := True, h_expected := v_data ?v\<rparr>)"
    using d2(2) by auto
  have "h_expected s = v_data ?v" "h_generation s = v_gen ?v" using assms by (simp_all add: h_attached_def)
  moreover from this have "h_attached view ok args n (?s2\<lparr>h_dev_id := Some i, h_generation := v_gen ?v, h_sut := d3, h_dev := True\<rparr>)"
    using a(3) by (simp add: h_defs)
  ultimately show ?thesis using d1(1) d2(1) a(1,2) by (simp add: op_crash_def op_defs h_defs)
qed

lemma lose_meta_ok:
  assumes "h_attached view ok args (Suc n) s"
  shows "\<exists>s'. op_lose_meta out s = (Inr (), s') \<and> h_attached view ok args n s'"
proof -
  let ?v = "view (h_sut s)" let ?s1 = "\<lambda>d. s\<lparr>h_dev := False, h_sut := d, h_dev_id := None\<rparr>"
  obtain d1 where d1: "detach out s = (Inr (), ?s1 d1)" "ok d1" "view d1 = ?v\<lparr>v_phase := Up, v_clean := True\<rparr>"
      "h_idle Up (Suc n) (?s1 d1)"
    using detach_ok [OF assms] by blast
  have m: "v_meta ?v" "h_expected s = v_data ?v" "h_generation s = v_gen ?v" "v_gen ?v \<in> v_used ?v"
    using assms by (simp_all add: h_attached_def)
  have ph: "v_phase (view d1) = Up" "v_meta (view d1)" using d1(3) m by simp_all
  obtain d2 g e N b where d2: "su_remove_meta out d1 = (True, d2)" "ok d2"
      "view d2 = (view d1)\<lparr>v_gen := g, v_era := e, v_newer := N, v_meta := False, v_clean := b\<rparr>"
      "e \<le> v_era (view d1)" "g \<notin> v_used (view d1)"
    using remove_law [OF d1(2) ph] by blast
  have "unat e \<le> unat (v_era (view d1))" using d2(4) by (simp add: word_le_nat_alt)
  then have "h_idle Up (Suc n) (?s1 d1\<lparr>h_sut := d2\<rparr>)"
    using d1(4) d2(2,3,5) by (auto simp: h_idle_def h_base_def h_args_def cursor_ok_def split: option.splits)
  from attach_fresh [OF this] obtain r s3 where a: "attach out (?s1 d1\<lparr>h_sut := d2\<rparr>) = (Inr r, s3)" "\<not> unclean r"
      "h_attached view ok args n s3" "h_generation s3 \<notin> v_used ?v" "h_cursor s3 = h_cursor s"
    using d2(3) d1(3) m by auto
  obtain i where i: "v_phase (view (h_sut s3)) = Attached i" "h_dev_id s3 = Some i" "ok (h_sut s3)"
      "h_generation s3 = v_gen (view (h_sut s3))" "cursor_ok (view (h_sut s3)) (h_cursor s3)"
    using a(3) by (auto simp: h_defs)
  have gen: "h_generation s3 \<noteq> h_generation s" using a(4) m(3,4) by auto
  show ?thesis
  proof (cases "h_cursor s")
    case None
    then show ?thesis using d1(1) d2(1) a gen by (simp add: op_lose_meta_def op_defs)
  next
    case (Some c)
    obtain g e where c: "h_cursor s = Some (g, e)" using Some by (cases c) auto
    have "g \<in> v_used ?v" using assms c by (simp add: h_defs cursor_ok_def)
    then have g: "g \<in> v_used (view (h_sut s3))" "g \<noteq> v_gen (view (h_sut s3))"
      using i(4,5) a(4,5) c by (auto simp: cursor_ok_def)
    obtain d4 where d4: "su_ctl out (dump_args i g e) (h_sut s3) = (None, d4)" "ok d4" "view d4 = view (h_sut s3)"
      using reject_law [OF i(3,1) g] by blast
    have "h_attached view ok args n (s3\<lparr>h_sut := d4\<rparr>)" using a(3) d4(2,3) by (simp add: h_defs)
    then show ?thesis using d1(1) d2(1) a(1,2,5) gen c i(2) d4(1) by (simp add: op_lose_meta_def op_defs)
  qed
qed

text \<open>A turn of a writer, while the device is attached and after the daemon was killed.\<close>

text \<open>A turn in the loop: the write succeeds while the daemon runs, and may be torn when it is down.\<close>

lemma writer_loop_ok:
  assumes "ok d" and "v_phase (view d) = Attached i \<or> v_phase (view d) = Down"
    and "raced (unat sl) E ws (v_data (view d))" and "t < length ws" and "length (v_data (view d)) = length E"
    and "sl mod 4096 = 0" and "sl \<noteq> 0" and "length E < 2 ^ 64" and pc: "w_pc (ws ! t) = WLoop"
  shows "\<exists>w d' X N. writer_turn out i sl (ws ! t) d = (w, d') \<and> ok d' \<and>
    view d' = (view d)\<lparr>v_data := X, v_newer := N\<rparr> \<and> length X = length E \<and> raced (unat sl) E (ws[t := w]) X"
proof -
  let ?w = "ws ! t" and ?v = "view d"
  obtain off bs r where g: "writer_gen sl (w_base ?w) (w_rng ?w) = Some (off, bs, r)"
      and sl: "in_slice (unat sl) t (unat off) (length bs)" and fits: "unat off + length bs \<le> length (v_data ?v)"
      and bs: "bs \<noteq> []" "unat off mod 4096 = 0" "length bs mod 4096 = 0" "length bs \<le> 262144"
    using raced_gen [OF assms(3,4,6-8)] assms(5) by metis
  show ?thesis
  proof (cases "v_phase ?v = Down")
    case True
    obtain d1 xs where d1: "su_write out off bs d = (False, d1)" "ok d1" "view d1 = ?v\<lparr>v_data := xs\<rparr>"
        "agree {unat off..<unat off + length bs} xs (v_data ?v)"
      using torn_law [OF assms(1) True fits] by blast
    have "length xs = length E" using d1(4) assms(5) by (simp add: agree_def)
    then show ?thesis
      using pc g d1 raced_torn [OF assms(3,4) sl _ d1(4) refl, of r] fits assms(5,8)
      by (intro exI [of _ "?w\<lparr>w_rng := r, w_pc := WDone, w_undefined := w_undefined ?w @ [(off, of_nat (length bs))]\<rparr>"]
          exI [of _ d1] exI [of _ xs] exI [of _ "v_newer ?v"]) (simp add: writer_turn_def)
  next
    case False
    then have "v_phase ?v = Attached i" using assms(2) by simp
    from write_law [OF assms(1) this bs(1) fits bs(2-4)] obtain d1 N where
      d1: "su_write out off bs d = (True, d1)" "ok d1" "view d1 = ?v\<lparr>v_data := write_at (unat off) bs (v_data ?v), v_newer := N\<rparr>"
      by blast
    then show ?thesis
      using pc g raced_write [OF assms(3,4) sl refl, of r] fits assms(5)
      by (intro exI [of _ "?w\<lparr>w_rng := r, w_ok := w_ok ?w @ [(off, bs)]\<rparr>"] exI [of _ d1]
          exI [of _ "write_at (unat off) bs (v_data ?v)"] exI [of _ N]) (simp add: writer_turn_def)
  qed
qed

lemma writer_turn_ok:
  assumes "ok d" and "v_phase (view d) = Attached i \<or> v_phase (view d) = Down"
    and "raced (unat sl) E ws (v_data (view d))" and "t < length ws" and "length (v_data (view d)) = length E"
    and "sl mod 4096 = 0" and "sl \<noteq> 0" and "length E < 2 ^ 64"
  shows "\<exists>w d' X N. writer_turn out i sl (ws ! t) d = (w, d') \<and> ok d' \<and>
    view d' = (view d)\<lparr>v_data := X, v_newer := N\<rparr> \<and> length X = length E \<and> raced (unat sl) E (ws[t := w]) X"
proof -
  let ?w = "ws ! t" and ?v = "view d"
  have wok: "writer_ok (unat sl) t ?w" using assms(3,4) by (auto simp: raced_def)
  note pc = raced_pc [OF assms(3,4)]
  have same: "?v\<lparr>v_data := v_data ?v, v_newer := v_newer ?v\<rparr> = ?v" by simp
  show ?thesis
  proof (cases "w_pc ?w")
    case WOpen
    obtain b d1 where "su_open out i d = (b, d1)" "ok d1" "view d1 = ?v" using open_law [OF assms(1)] by blast
    then show ?thesis using WOpen pc [of WLoop] pc [of WDone] assms(5)
      by (intro exI [of _ "?w\<lparr>w_pc := if b then WLoop else WDone\<rparr>"] exI [of _ d1] exI [of _ "v_data ?v"] exI [of _ "v_newer ?v"])
        (simp add: writer_turn_def same)
  next
    case WLoop
    then show ?thesis by (rule writer_loop_ok [OF assms])
  next
    case WDone
    then show ?thesis using assms(1,3,5)
      by (intro exI [of _ ?w] exI [of _ d] exI [of _ "v_data ?v"] exI [of _ "v_newer ?v"]) (simp add: writer_turn_def same)
  next
    case WPanic
    then show ?thesis using wok by (simp add: writer_ok_def)
  qed
qed

lemma writer_turns_ok:
  assumes "ok d" and "v_phase (view d) = Attached i \<or> v_phase (view d) = Down"
    and "raced (unat sl) E ws (v_data (view d))" and "length (v_data (view d)) = length E"
    and "sl mod 4096 = 0" and "sl \<noteq> 0" and "length E < 2 ^ 64"
  shows "\<exists>ws' d' X N. writer_turns out i sl ts ws d = (ws', d') \<and> ok d' \<and>
    view d' = (view d)\<lparr>v_data := X, v_newer := N\<rparr> \<and> length X = length E \<and> raced (unat sl) E ws' X \<and>
    length ws' = length ws"
  using assms
proof (induction ts arbitrary: ws d)
  case Nil
  then show ?case
    by (intro exI [of _ ws] exI [of _ d] exI [of _ "v_data (view d)"] exI [of _ "v_newer (view d)"]) simp
next
  case (Cons t ts)
  show ?case
  proof (cases "t < length ws")
    case True
    from writer_turn_ok [OF Cons.prems(1-3) True Cons.prems(4-7)] obtain w d1 X N where
      t: "writer_turn out i sl (ws ! t) d = (w, d1)" "ok d1" "view d1 = (view d)\<lparr>v_data := X, v_newer := N\<rparr>"
        "length X = length E" "raced (unat sl) E (ws[t := w]) X"
      by blast
    have "\<exists>ws' d' X N. writer_turns out i sl ts (ws[t := w]) d1 = (ws', d') \<and> ok d' \<and>
        view d' = (view d1)\<lparr>v_data := X, v_newer := N\<rparr> \<and> length X = length E \<and> raced (unat sl) E ws' X \<and>
        length ws' = length (ws[t := w])"
      by (rule Cons.IH) (use t Cons.prems in simp_all)
    then show ?thesis using True t(1,3) by auto
  next
    case False
    then show ?thesis using Cons.IH [OF Cons.prems] by simp
  qed
qed

text \<open>Starting the writers and joining them.\<close>

lemma spawned:
  fixes sz :: u64
  defines "sl \<equiv> writer_slice sz"
  assumes "length E = unat sz"
  shows "raced (unat sl) E (fst (spawn_writers sl [0, 1, 2, 3] r)) E" and "sl mod 4096 = 0"
    and "length (fst (spawn_writers sl [0, 1, 2, 3] r)) = 4"
proof -
  have q: "unat (sz div WRITERS div 4096) = unat sz div 4 div 4096"
    by (simp add: WRITERS_def word_nat)
  have "unat sz div 4 div 4096 * 4096 \<le> unat sz div 4" by (rule div_times_less_eq_dividend)
  then have "unat sz div 4 div 4096 * 4096 < 2 ^ 64" using unat_u64_less [of sz] by linarith
  then have u: "unat sl = unat sz div 4 div 4096 * 4096"
    unfolding sl_def writer_slice_def using q by (subst unat_word_ariths) simp
  have four: "4 * unat sl \<le> unat sz"
    using \<open>unat sz div 4 div 4096 * 4096 \<le> unat sz div 4\<close> u by linarith
  have "unat (sl mod 4096) = 0" by (simp add: unat_mod_distrib u)
  then show "sl mod 4096 = 0" by (simp add: unat_eq_zero)
  show "length (fst (spawn_writers sl [0, 1, 2, 3] r)) = 4" by (simp add: split_beta)
  have "unat (k * sl) = unat k * unat sl" if "unat k \<le> 3" for k :: u64
  proof -
    have "unat k * unat sl \<le> 3 * unat sl" using that by (rule mult_le_mono1)
    then have "unat k * unat sl < 2 ^ 64" using four unat_u64_less [of sz] by linarith
    then show ?thesis by (simp add: unat_word_ariths)
  qed
  from this [of 2] this [of 3] have k: "unat (2 * sl) = 2 * unat sl" "unat (3 * sl) = 3 * unat sl" by simp_all
  show "raced (unat sl) E (fst (spawn_writers sl [0, 1, 2, 3] r)) E"
    using four assms(2) k by (simp add: raced_def split_beta writer_ok_def undef_bytes_def All_less_Suc)
qed

lemma join_ok:
  assumes "\<forall>w\<in>set ws. w_pc w \<noteq> WPanic" and "list_all (fit (length (h_expected s))) (concat (map w_ok ws))"
  shows "\<exists>c. join_writers ws n us s = (Inr (c, us @ concat (map w_undefined ws)),
    s\<lparr>h_expected := puts (concat (map w_ok ws)) (h_expected s)\<rparr>)"
  using assms
proof (induction ws arbitrary: n us s)
  case Nil
  then show ?case by (simp add: op_defs)
next
  case (Cons w ws)
  let ?s = "s\<lparr>h_expected := puts (w_ok w) (h_expected s)\<rparr>"
  have f: "list_all (fit (length (h_expected s))) (w_ok w)" using Cons.prems(2) by simp
  then have "list_all (fit (length (h_expected ?s))) (concat (map w_ok ws))"
    using Cons.prems(2) by (simp add: length_puts)
  from Cons.IH [OF _ this, of "n + of_nat (length (w_ok w))" "us @ w_undefined w"] Cons.prems(1) obtain c where
    "join_writers ws (n + of_nat (length (w_ok w))) (us @ w_undefined w) ?s =
      (Inr (c, (us @ w_undefined w) @ concat (map w_undefined ws)),
       ?s\<lparr>h_expected := puts (concat (map w_ok ws)) (h_expected ?s)\<rparr>)"
    by auto
  then show ?case using Cons.prems(1) replay_puts [OF f] by (simp add: op_defs)
qed

lemma adopt_ok:
  assumes "ok (h_sut s)" and "v_phase (view (h_sut s)) = Attached i"
    and "list_all (\<lambda>x. unat (fst x) + unat (snd x) \<le> length (v_data (view (h_sut s)))) us"
    and "agree U (h_expected s) (v_data (view (h_sut s)))"
    and "U \<subseteq> (\<Union>x\<in>set us. {unat (fst x)..<unat (fst x) + unat (snd x)})"
  shows "\<exists>d'. adopt out us s = (Inr (), s\<lparr>h_sut := d', h_expected := v_data (view (h_sut s))\<rparr>) \<and> ok d' \<and>
    view d' = view (h_sut s)"
  using assms
proof (induction us arbitrary: s U)
  case Nil
  then have "h_expected s = v_data (view (h_sut s))" by (simp add: agree_empty)
  then show ?case using Nil.prems(1)
    by (intro exI [of _ "h_sut s"]) (simp add: op_defs flip: \<open>h_expected s = v_data (view (h_sut s))\<close>)
next
  case (Cons x us)
  obtain off n where x: "x = (off, n)" by (cases x)
  let ?data = "v_data (view (h_sut s))" let ?buf = "take (unat n) (drop (unat off) ?data)"
  have fits: "unat off + unat n \<le> length ?data" using Cons.prems(3) by (simp add: x)
  obtain d1 where d1: "su_read out off (unat n) (h_sut s) = (Some ?buf, d1)" "ok d1" "view d1 = view (h_sut s)"
    using read_law [OF Cons.prems(1,2) fits] by blast
  have len: "length ?buf = unat n" using fits by simp
  let ?s = "s\<lparr>h_sut := d1, h_expected := write_at (unat off) ?buf (h_expected s)\<rparr>"
  have "agree (U - {unat off..<unat off + length ?buf}) (write_at (unat off) ?buf (h_expected s)) (write_at (unat off) ?buf ?data)"
    using fits len by (intro agree_write [OF Cons.prems(4)]) simp
  then have "agree (U - {unat off..<unat off + unat n}) (h_expected ?s) (v_data (view (h_sut ?s)))"
    using d1(3) len write_at_same [OF fits] by simp
  then have "\<exists>d'. adopt out us ?s = (Inr (), ?s\<lparr>h_sut := d', h_expected := v_data (view (h_sut ?s))\<rparr>) \<and> ok d' \<and>
      view d' = view (h_sut ?s)"
    by (rule Cons.IH [rotated 3]) (use Cons.prems(1-3,5) d1(2,3) in \<open>auto simp: x\<close>)
  then obtain d2 where d2: "adopt out us ?s = (Inr (), s\<lparr>h_sut := d2, h_expected := ?data\<rparr>)" "ok d2"
      "view d2 = view (h_sut s)"
    using d1(3) by auto
  have "length (h_expected s) = length ?data" using Cons.prems(4) by (simp add: agree_def)
  then have "adopt out (x # us) s = adopt out us ?s" using d1(1) fits len by (simp add: x op_defs)
  with d2 show ?case by (intro exI [of _ d2]) simp
qed

lemma h_attached_sut:
  "h_attached view ok args n s \<Longrightarrow> ok d \<Longrightarrow> view d = view (h_sut s) \<Longrightarrow> h_attached view ok args n (s\<lparr>h_sut := d\<rparr>)"
  by (simp add: h_defs)

text \<open>
  The race: the writers, the kill and the join. Afterwards the expected image is the device
  outside the ranges of the interrupted writes.
\<close>

text \<open>What the joined writers leave in \<open>expected\<close> agrees with the device but for the undefined ranges.\<close>

lemma join_raced:
  assumes "raced (unat sl) (h_expected s) ws X"
  shows "\<exists>c us E. join_writers ws 0 [] s = (Inr (c, us), s\<lparr>h_expected := E\<rparr>) \<and>
    agree (\<Union>x\<in>set us. {unat (fst x)..<unat (fst x) + unat (snd x)}) E X \<and>
    list_all (\<lambda>x. unat (fst x) + unat (snd x) \<le> length (h_expected s)) us"
proof -
  have wok: "\<forall>t<length ws. writer_ok (unat sl) t (ws ! t)" and wl: "length ws * unat sl \<le> length (h_expected s)"
    using assms by (simp_all add: raced_def)
  have "\<forall>w\<in>set ws. w_pc w \<noteq> WPanic" using wok by (auto simp: in_set_conv_nth writer_ok_def)
  from join_ok [OF this, of s 0 "[]"] logs_fit [OF wok wl] obtain c where
    "join_writers ws 0 [] s = (Inr (c, concat (map w_undefined ws)),
      s\<lparr>h_expected := puts (concat (map w_ok ws)) (h_expected s)\<rparr>)"
    by auto
  moreover have "agree (undef_bytes ws) (puts (concat (map w_ok ws)) (h_expected s)) X"
    using assms by (simp add: raced_def agree_sym)
  ultimately show ?thesis using undefined_fit [OF wok wl] by (auto simp: undef_bytes_def)
qed

lemma race_ok:
  assumes "h_attached view ok args n s" and "sl = writer_slice (h_size s)" and "sl \<noteq> 0"
    and "h_dev_id s = Some i"
  shows "\<exists>c us s'. race_writers out i sl before after s = (Inr (c, us), s') \<and> h_idle Down n s' \<and>
    h_generation s' = v_gen (view (h_sut s')) \<and> h_generation s' = h_generation s \<and>
    v_meta (view (h_sut s')) \<and> \<not> v_clean (view (h_sut s')) \<and>
    agree (\<Union>x\<in>set us. {unat (fst x)..<unat (fst x) + unat (snd x)}) (h_expected s') (v_data (view (h_sut s'))) \<and>
    list_all (\<lambda>x. unat (fst x) + unat (snd x) \<le> length (v_data (view (h_sut s')))) us"
proof -
  let ?v = "view (h_sut s)" and ?E = "h_expected s"
  have E: "?E = v_data ?v" "length ?E = unat (h_size s)" and o: "ok (h_sut s)" and ph: "v_phase ?v = Attached i"
    and b: "h_base view ok args n s" "h_daemon s" "v_gen ?v \<in> v_used ?v"
    using assms(1,4) by (auto simp: h_defs)
  have lt: "length ?E < 2 ^ 64" using E(2) unat_u64_less [of "h_size s"] by simp
  obtain ws r1 where ws: "spawn_writers sl [0, 1, 2, 3] (h_rng s) = (ws, r1)" by fastforce
  have sp: "raced (unat sl) ?E ws ?E" "sl mod 4096 = 0"
    using spawned(1) [OF E(2), of "h_rng s"] spawned(2) [OF E(2)] assms(2) ws by auto
  have "(250 :: u64) \<noteq> 0" by simp
  then obtain x r2 where "draw 250 (s\<lparr>h_rng := r1\<rparr>) = (Inr x, s\<lparr>h_rng := r1\<rparr>\<lparr>h_rng := r2\<rparr>)" by (rule draw_ok)
  then have x: "draw 250 (s\<lparr>h_rng := r1\<rparr>) = (Inr x, s\<lparr>h_rng := r2\<rparr>)" by simp
  obtain ws1 d1 X1 N1 where t1: "writer_turns out i sl before ws (h_sut s) = (ws1, d1)" "ok d1"
      "view d1 = ?v\<lparr>v_data := X1, v_newer := N1\<rparr>" "length X1 = length ?E" "raced (unat sl) ?E ws1 X1"
    using writer_turns_ok [OF o, of i sl ?E ws before] ph sp assms(3) E(1) lt by auto
  let ?s1 = "s\<lparr>h_rng := r2, h_sut := d1\<rparr>"
  have "h_base view ok args n ?s1" using b(1) t1(2-4) E by (simp add: h_base_def h_args_def)
  then have "\<exists>d'. kill_daemon out ?s1 = (Inr (), ?s1\<lparr>h_dev := False, h_daemon := False, h_sut := d', h_dev_id := None\<rparr>) \<and>
      ok d' \<and> (\<exists>N. view d' = (view (h_sut ?s1))\<lparr>v_phase := Down, v_newer := N\<rparr>) \<and>
      h_idle Down n (?s1\<lparr>h_dev := False, h_daemon := False, h_sut := d', h_dev_id := None\<rparr>)"
    by (rule kill_raw) (use t1(3) ph assms(4) b in simp_all)
  then obtain d2 N where k: "kill_daemon out ?s1 = (Inr (), ?s1\<lparr>h_dev := False, h_daemon := False, h_sut := d2, h_dev_id := None\<rparr>)"
      "ok d2" "view d2 = (view d1)\<lparr>v_phase := Down, v_newer := N\<rparr>"
      "h_idle Down n (?s1\<lparr>h_dev := False, h_daemon := False, h_sut := d2, h_dev_id := None\<rparr>)"
    by auto
  obtain ws2 d3 X2 N2 where t2: "writer_turns out i sl after ws1 d2 = (ws2, d3)" "ok d3"
      "view d3 = (view d2)\<lparr>v_data := X2, v_newer := N2\<rparr>" "length X2 = length ?E" "raced (unat sl) ?E ws2 X2"
    using writer_turns_ok [OF k(2), of i sl ?E ws1 after] k(3) t1(3-5) sp(2) assms(3) lt by auto
  let ?s3 = "?s1\<lparr>h_dev := False, h_daemon := False, h_sut := d2, h_dev_id := None\<rparr>\<lparr>h_sut := d3\<rparr>"
  from join_raced [of sl ?s3 ws2 X2] t2(5) obtain c us E' where
    j: "join_writers ws2 0 [] ?s3 = (Inr (c, us), ?s3\<lparr>h_expected := E'\<rparr>)"
      "agree (\<Union>x\<in>set us. {unat (fst x)..<unat (fst x) + unat (snd x)}) E' X2"
      "list_all (\<lambda>x. unat (fst x) + unat (snd x) \<le> length ?E) us"
    by auto
  let ?s4 = "?s3\<lparr>h_expected := E'\<rparr>"
  have run: "race_writers out i sl before after s = (Inr (c, us), ?s4)"
    using ws x t1(1) k(1) t2(1) j(1) by (simp add: race_writers_def op_defs)
  moreover have "h_idle Down n ?s4"
    using k(4) t2(2-4) t1(3,4) k(3) by (simp add: h_idle_def h_base_def h_args_def)
  ultimately show ?thesis
    using assms(1) t2(3,4) k(3) t1(3) j(2,3) by (intro exI [of _ c] exI [of _ us] exI [of _ ?s4] conjI)
      (simp_all add: h_attached_def)
qed

lemma inflight_check_ok:
  assumes "h_idle Down n s" and "v_meta (view (h_sut s))" and "\<not> v_clean (view (h_sut s))"
    and "agree (\<Union>x\<in>set us. {unat (fst x)..<unat (fst x) + unat (snd x)}) (h_expected s) (v_data (view (h_sut s)))"
    and "list_all (\<lambda>x. unat (fst x) + unat (snd x) \<le> length (v_data (view (h_sut s)))) us"
    and "old = v_gen (view (h_sut s))"
  shows "\<exists>s'. inflight_check out old c us s = (Inr (), s') \<and> h_attached view ok args n s'"
proof -
  let ?v = "view (h_sut s)" let ?s0 = "s\<lparr>h_n := (h_n s)\<lparr>n_writes := n_writes (h_n s) + c\<rparr>\<rparr>"
  have "h_idle Down n ?s0" using assms(1) by simp
  from start_ok [OF this] obtain d1 where d1: "start_daemon out ?s0 = (Inr (), ?s0\<lparr>h_sut := d1, h_daemon := True\<rparr>)"
      "view d1 = ?v\<lparr>v_phase := Up\<rparr>" "h_idle Up n (?s0\<lparr>h_sut := d1, h_daemon := True\<rparr>)"
    by auto
  let ?s1 = "?s0\<lparr>h_sut := d1, h_daemon := True\<rparr>"
  have "v_meta (view (h_sut ?s1))" "\<not> v_clean (view (h_sut ?s1))" using assms(2,3) d1(2) by simp_all
  from attach_unclean [OF d1(3) this] obtain r d2 i N where
    a: "attach out ?s1 = (Inr r, ?s1\<lparr>h_dev_id := Some i, h_generation := v_gen ?v, h_sut := d2, h_dev := True\<rparr>)"
      "unclean r" "ok d2" "view d2 = ?v\<lparr>v_phase := Attached i, v_newer := N\<rparr>"
      "h_attached view ok args n (?s1\<lparr>h_dev_id := Some i, h_generation := v_gen ?v, h_sut := d2,
        h_dev := True, h_expected := v_data ?v\<rparr>)"
    using d1(2) by auto
  let ?s2 = "?s1\<lparr>h_dev_id := Some i, h_generation := v_gen ?v, h_sut := d2, h_dev := True\<rparr>"
  have "\<exists>d'. adopt out us ?s2 = (Inr (), ?s2\<lparr>h_sut := d', h_expected := v_data (view (h_sut ?s2))\<rparr>) \<and> ok d' \<and>
      view d' = view (h_sut ?s2)"
    by (rule adopt_ok [OF _ _ _ _ subset_refl]) (use a(3,4) assms(4,5) in simp_all)
  then obtain d3 where d3: "adopt out us ?s2 = (Inr (), ?s2\<lparr>h_sut := d3, h_expected := v_data ?v\<rparr>)" "ok d3" "view d3 = view d2"
    using a(4) by auto
  let ?s3 = "?s2\<lparr>h_sut := d3, h_expected := v_data ?v\<rparr>"
  have at: "h_attached view ok args n ?s3" using a(5) d3(2,3) by (simp add: h_defs)
  obtain d4 where d4: "read_device out ?s3 = (Inr (v_data ?v), ?s3\<lparr>h_sut := d4\<rparr>)" "ok d4" "view d4 = view d2"
    using read_device_ok [of ?s3 i] at d3(3) a(4) by (auto simp: h_attached_def h_base_def)
  have "h_attached view ok args n (?s3\<lparr>h_sut := d4\<rparr>)" by (rule h_attached_sut [OF at d4(2)]) (simp add: d4(3) d3(3))
  then show ?thesis
    using d1(1) a(1,2) assms(6) d3(1) d4(1) by (simp add: inflight_check_def op_defs h_defs)
qed

lemma inflight_ok:
  assumes "h_attached view ok args n s"
  shows "\<exists>s'. op_crash_inflight out before after s = (Inr (), s') \<and> h_attached view ok args n s'"
proof (cases "writer_slice (h_size s) = 0")
  case True
  then show ?thesis using crash_ok [OF assms] by (simp add: op_crash_inflight_def op_defs)
next
  case False
  obtain i where i: "h_dev_id s = Some i" using assms by (auto simp: h_attached_def)
  from race_ok [OF assms refl False i] obtain c us s1 where
    r: "race_writers out i (writer_slice (h_size s)) before after s = (Inr (c, us), s1)" "h_idle Down n s1"
      "h_generation s1 = v_gen (view (h_sut s1))" "h_generation s1 = h_generation s"
      "v_meta (view (h_sut s1))" "\<not> v_clean (view (h_sut s1))"
      "agree (\<Union>x\<in>set us. {unat (fst x)..<unat (fst x) + unat (snd x)}) (h_expected s1) (v_data (view (h_sut s1)))"
      "list_all (\<lambda>x. unat (fst x) + unat (snd x) \<le> length (v_data (view (h_sut s1)))) us"
    by blast
  from inflight_check_ok [OF r(2,5,6,7,8), of "h_generation s" c] r(3,4) show ?thesis
    using r(1) i False by (simp add: op_crash_inflight_def op_defs)
qed

lemma chaos_op_ok:
  assumes "h_attached view ok args (Suc n) s"
  shows "\<exists>s'. chaos_op out race k s = (Inr (), s') \<and> h_attached view ok args n s'"
proof -
  note less = h_attached_less [OF assms]
  show ?thesis
    unfolding chaos_op_def
    using backup_ok [OF assms] checkpoint_op_ok [OF assms] lose_meta_ok [OF assms] burst_ok [OF less]
      reattach_ok [OF less] crash_ok [OF less] inflight_ok [OF less, of "fst race" "snd race"]
    by (auto split: if_splits)
qed

lemma run_ops_ok:
  "h_attached view ok args (m + n) s \<Longrightarrow>
     \<exists>s'. run_ops out race i m s = (Inr (), s') \<and> h_attached view ok args n s'"
proof (induction m arbitrary: i s)
  case (Suc m)
  have "(100 :: u64) \<noteq> 0" by simp
  then obtain k r where k: "draw 100 s = (Inr k, s\<lparr>h_rng := r\<rparr>)" by (rule draw_ok)
  have "h_attached view ok args (Suc (m + n)) (s\<lparr>h_rng := r\<rparr>)" using Suc.prems by simp
  from chaos_op_ok [OF this] obtain s1 where
    s1: "chaos_op out (race i) k (s\<lparr>h_rng := r\<rparr>) = (Inr (), s1)" "h_attached view ok args (m + n) s1"
    by blast
  from Suc.IH [OF s1(2)] show ?case using k s1(1) by (simp add: chain_def)
qed (simp add: ret_def)

lemma wind_down_ok:
  assumes "h_attached view ok args (Suc n) s"
  shows "\<exists>s'. wind_down out s = (Inr (), s')"
proof -
  let ?k = "\<lambda>s d. s\<lparr>h_dev := False, h_sut := d, h_dev_id := None\<rparr>"
  from backup_ok [OF assms] obtain s1 where s1: "op_backup_verify out s = (Inr (), s1)" "h_attached view ok args n s1"
    by blast
  let ?v = "view (h_sut s1)"
  obtain d2 where d2: "detach out s1 = (Inr (), ?k s1 d2)" "ok d2" "view d2 = ?v\<lparr>v_phase := Up, v_clean := True\<rparr>"
      "h_idle Up n (?k s1 d2)"
    using detach_ok [OF s1(2)] by blast
  obtain d3 where d3: "su_backing out d2 = (Some (v_data ?v), d3)" "ok d3" "view d3 = view d2"
    using backing_law [OF d2(2)] d2(3) by auto
  have i3: "h_idle Up n (?k s1 d2\<lparr>h_sut := d3\<rparr>)"
    using d2(4) d3(2,3) by (simp add: h_idle_def h_base_def h_args_def)
  have ex: "h_expected s1 = v_data ?v" using s1(2) by (simp add: h_attached_def)
  have "\<exists>r s'. attach out (?k s1 d2\<lparr>h_sut := d3\<rparr>) = (Inr r, s') \<and> \<not> unclean r \<and> h_attached view ok args n s' \<and>
      h_generation s' = v_gen (view (h_sut (?k s1 d2\<lparr>h_sut := d3\<rparr>))) \<and>
      h_expected s' = h_expected (?k s1 d2\<lparr>h_sut := d3\<rparr>)"
    by (rule attach_clean [OF i3]) (use s1(2) d3(3) d2(3) ex in \<open>simp_all add: h_attached_def h_synced_def\<close>)
  then obtain r s4 where s4: "attach out (?k s1 d2\<lparr>h_sut := d3\<rparr>) = (Inr r, s4)" "\<not> unclean r"
      "h_attached view ok args n s4"
    by blast
  obtain d5 where d5: "detach out s4 = (Inr (), ?k s4 d5)" "ok d5"
      "view d5 = (view (h_sut s4))\<lparr>v_phase := Up, v_clean := True\<rparr>"
    using detach_ok [OF s4(3)] by blast
  obtain q d6 where d6: "su_ctl out [''shutdown''] d5 = (Some q, d6)" "ok d6" "view d6 = (view d5)\<lparr>v_phase := Down\<rparr>"
    using shutdown_law [OF d5(2)] d5(3) by auto
  obtain d7 where d7: "su_exited out d6 = (True, d7)" using exited_law [OF d6(2)] d6(3) by auto
  have "h_daemon s4" using s4(3) by (simp add: h_attached_def)
  then show ?thesis
    using s1(1) d2(1) d3(1) ex s4(1,2) d5(1) d6(1) d7 by (simp add: wind_down_def op_defs)
qed

text \<open>The whole episode, from a backing store with no metadata and no daemon.\<close>

lemma chaos_run_ok:
  assumes "h_idle Down (Suc (Suc (unat ops))) s" and "\<not> v_meta (view (h_sut s))"
    and "h_expected s = v_data (view (h_sut s))"
  shows "\<exists>s'. chaos_run out race ops s = (Inr (), s')"
proof -
  obtain d1 where d1: "start_daemon out s = (Inr (), s\<lparr>h_sut := d1, h_daemon := True\<rparr>)"
      "view d1 = (view (h_sut s))\<lparr>v_phase := Up\<rparr>" "h_idle Up (Suc (Suc (unat ops))) (s\<lparr>h_sut := d1, h_daemon := True\<rparr>)"
    using start_ok [OF assms(1)] by blast
  have "\<not> v_meta (view (h_sut (s\<lparr>h_sut := d1, h_daemon := True\<rparr>)))"
      "h_expected (s\<lparr>h_sut := d1, h_daemon := True\<rparr>) = v_data (view (h_sut (s\<lparr>h_sut := d1, h_daemon := True\<rparr>)))"
    using assms(2,3) d1(2) by simp_all
  from attach_fresh [OF d1(3) this] obtain r s2 where
    s2: "attach out (s\<lparr>h_sut := d1, h_daemon := True\<rparr>) = (Inr r, s2)" "h_attached view ok args (unat ops + Suc 0) s2"
    by auto
  from run_ops_ok [OF s2(2)] obtain s3 where
    s3: "run_ops out race 0 (unat ops) s2 = (Inr (), s3)" "h_attached view ok args (Suc 0) s3"
    by blast
  from wind_down_ok [OF s3(2)] show ?thesis
    using d1(1) s2(1) s3(1) by (simp add: chaos_run_def op_defs)
qed

end

end
