(* ===== verification/Chaos_Sut.thy ===== *)
theory Chaos_Sut
  imports Chaos_Proof Cli
begin

text \<open>
  The chaos harness run against ublkera. The outside of the harness is put together from the
  model of the program: the command line (\<^verbatim>\<open>Cli\<close>), the socket and the registry (\<^verbatim>\<open>Ctl\<close>,
  \<^verbatim>\<open>Manager\<close>), the queue handler (\<^verbatim>\<open>Target\<close>) and the metadata file (\<^verbatim>\<open>Meta\<close>). What neither
  of them is, is a parameter, the record \<open>host\<close>: clap, the constants and texts, canonical
  paths, \<^verbatim>\<open>/dev/urandom\<close>, the device id that libublk hands out, and which bytes of a write
  reach the backing store when the daemon dies under it.
\<close>

section \<open>Ublkera as the system under test\<close>

text \<open>\<open>ho_rnd k\<close> is the value drawn for the \<open>k\<close>-th history (\<open>load\<close> draws one too, and
  replaces it by the one in the file).\<close>

record host =
  ho_clap :: "string list \<Rightarrow> cmd option"
  ho_abi :: abi
  ho_texts :: texts
  ho_canon :: "string \<Rightarrow> string option"
  ho_path :: "string \<Rightarrow> path"
  ho_rnd :: "nat \<Rightarrow> u8 list"
  ho_dev :: u32
  ho_lands :: "u64 \<Rightarrow> u8 list \<Rightarrow> nat \<Rightarrow> bool"
  ho_meta :: string

record era_host =
  eh_up :: bool
  eh_world :: world
  eh_data :: "u8 list"
  eh_draws :: nat

text \<open>The backing store is a regular file; the file system and libublk work.\<close>

definition host_env :: "host \<Rightarrow> era_host \<Rightarrow> attach_env" where
  "host_env H d = \<lparr>ctl_exists = False, open_ok = True, log2_fn = (\<lambda>_. 0),
     file_meta = Some (RegularFile, of_nat (length (eh_data d))), ioctls = None,
     urandom = Some (ho_rnd H (eh_draws d)), marker_fault = None, spawn_ok = True,
     startup = Ready (ho_dev H)\<rparr>"

definition host_answers :: "host \<Rightarrow> era_host \<Rightarrow> answers" where
  "host_answers H d = \<lparr>ans_add = host_env H d, ans_del_ok = (\<lambda>_. True), ans_exit = (\<lambda>_. Saves None),
     ans_fault = (\<lambda>_. None), ans_canon = ho_canon H\<rparr>"

definition host_conn :: "host \<Rightarrow> era_host \<Rightarrow> json \<Rightarrow> connection" where
  "host_conn H d v = \<lparr>read_ok = True, parsed = decode_request (ho_path H) v, write_ok = True,
     conn_answers = host_answers H d\<rparr>"

abbreviation meta_file :: "host \<Rightarrow> path" where
  "meta_file H \<equiv> ho_path H (ho_meta H)"

text \<open>One run of the binary: parsed, sent to the daemon if there is one, answered.\<close>

definition era_ctl :: "host \<Rightarrow> string list \<Rightarrow> era_host \<Rightarrow> json option \<times> era_host" where
  "era_ctl H args d = (case Option.bind (ho_clap H args) (cmd_req (ho_canon H)) of
      None \<Rightarrow> (None, d)
    | Some v \<Rightarrow>
        if \<not> eh_up d then (None, d)
        else (case handle (ho_texts H) (host_conn H d v) (eh_world d) of (w, resp, sd) \<Rightarrow>
          (if exit_status (client_request True True (map_option Inr resp)) = 0 then resp else None,
           d\<lparr>eh_up := sd \<noteq> Some True,
             eh_world := if sd = Some True then shutdown_all (\<lambda>_. True) (\<lambda>_. Saves None) w else w,
             eh_draws := eh_draws d + (if files (eh_world d) (meta_file H) = None \<and>
               length (arcs (eh_world d)) < length (arcs w) then 1 else 0)\<rparr>)))"

definition era_start :: "era_host \<Rightarrow> bool option \<times> era_host" where
  "era_start d = (Some True, d\<lparr>eh_up := True, eh_world := fresh_daemon (files (eh_world d))\<rparr>)"

definition era_kill :: "era_host \<Rightarrow> era_host" where
  "era_kill d = d\<lparr>eh_up := False, eh_world := fresh_daemon (files (eh_world d))\<rparr>"

text \<open>The block device is there while the registry has it.\<close>

definition era_node :: "host \<Rightarrow> u64 \<Rightarrow> era_host \<Rightarrow> bool" where
  "era_node H i d \<longleftrightarrow> i = ucast (ho_dev H) \<and> map_of (devices (reap (eh_world d))) (ho_dev H) \<noteq> None"

definition era_read :: "host \<Rightarrow> u64 \<Rightarrow> nat \<Rightarrow> era_host \<Rightarrow> u8 list option \<times> era_host" where
  "era_read H off n d =
     (if map_of (devices (reap (eh_world d))) (ho_dev H) = None then (None, d)
      else (Some (take n (drop (unat off) (eh_data d))), d))"

text \<open>
  A write is one request of the driver (it is smaller than the announced maximum). The handler
  sees the fresh command and submits a write to the backing store, which does it in full; then
  it sees the completion. With no device, some bytes of the request may still land.
\<close>

definition write_iod :: "abi \<Rightarrow> u64 \<Rightarrow> nat \<Rightarrow> iod" where
  "write_iod K off n = \<lparr>op_flags = IO_OP_WRITE K, start_sector = drop_bit 9 off,
     nr_sectors = of_nat (n div 512)\<rparr>"

definition torn :: "(nat \<Rightarrow> bool) \<Rightarrow> nat \<Rightarrow> u8 list \<Rightarrow> u8 list \<Rightarrow> u8 list" where
  "torn lands off bs xs = map (\<lambda>k. if off \<le> k \<and> k < off + length bs \<and> lands k then bs ! (k - off) else xs ! k)
     [0..<length xs]"

definition era_write :: "host \<Rightarrow> u64 \<Rightarrow> u8 list \<Rightarrow> era_host \<Rightarrow> bool \<times> era_host" where
  "era_write H off bs d = (case map_of (devices (reap (eh_world d))) (ho_dev H) of
      None \<Rightarrow> (False, d\<lparr>eh_data := torn (ho_lands H off bs) (unat off) bs (eh_data d)\<rparr>)
    | Some m \<Rightarrow>
        let q = write_iod (ho_abi H) off (length bs); w = eh_world d in
        (case handle_io_cmd (ho_abi H) 0 q None (arcs w ! m_state m) of
           Some (s1, Submit _ _ (WriteSqe fd buf n pos)) \<Rightarrow>
             (case handle_io_cmd (ho_abi H) 0 q (Some (ucast n)) s1 of
                Some (s2, Complete _ res) \<Rightarrow>
                  (sint res = int (length bs),
                   d\<lparr>eh_world := w\<lparr>arcs := (arcs w)[m_state m := s2]\<rparr>,
                     eh_data := write_at (unat pos) (take (unat n) bs) (eh_data d)\<rparr>)
              | _ \<Rightarrow> (False, d))
         | _ \<Rightarrow> (False, d)))"

definition era_remove_meta :: "host \<Rightarrow> era_host \<Rightarrow> bool \<times> era_host" where
  "era_remove_meta H d = (files (eh_world d) (meta_file H) \<noteq> None,
     d\<lparr>eh_world := (eh_world d)\<lparr>files := (files (eh_world d))(meta_file H := None)\<rparr>\<rparr>)"

definition era_sut :: "host \<Rightarrow> era_host sut" where
  "era_sut H = \<lparr>su_ctl = era_ctl H, su_start = era_start, su_kill = era_kill,
     su_gone = (\<lambda>i d. (\<not> era_node H i d, d)), su_node = (\<lambda>i d. (era_node H i d, d)),
     su_open = (\<lambda>i d. (era_node H i d, d)), su_read = era_read H, su_write = era_write H,
     su_remove_meta = era_remove_meta H, su_backing = (\<lambda>d. (Some (eh_data d), d)),
     su_create = (\<lambda>sz d. (True, d\<lparr>eh_data := replicate (unat sz) 0\<rparr>)),
     su_exited = (\<lambda>d. (\<not> eh_up d, d))\<rparr>"

text \<open>
  What the harness relies on of clap, from its documentation and the attributes in
  \<^verbatim>\<open>src/src/main.rs\<close>: the forms it uses, options as two words, give the subcommand with
  their values and the defaults of the others.
\<close>

definition plain_arg :: "string \<Rightarrow> bool" where
  "plain_arg a \<longleftrightarrow> a \<noteq> [] \<and> hd a \<noteq> CHR ''-''"

definition clap_ok :: "(string list \<Rightarrow> cmd option) \<Rightarrow> bool" where
  "clap_ok P \<longleftrightarrow>
     (\<forall>b g q m bf. plain_arg b \<and> plain_arg m \<longrightarrow>
        P (attach_args b g q m bf) = Some (CmdAdd b g (Some m) default_dev_id q default_depth 524288 bf)) \<and>
     (\<forall>n. P [''del'', ''-n'', decimal (unat n)] = Some (CmdDel (Some n) None)) \<and>
     (\<forall>n. P [''checkpoint'', ''-n'', decimal (unat n)] = Some (CmdCheckpoint (Some n) None False)) \<and>
     (\<forall>n e g. P [''dump'', ''-n'', decimal (unat n), ''--since'', decimal (unat e), ''--generation'', hex16 g] =
        Some (CmdDump (Some n) None e (Some (hex16 g)))) \<and>
     P [''shutdown''] = Some CmdShutdown"

definition host_ok :: "host \<Rightarrow> bool" where
  "host_ok H \<longleftrightarrow> clap_ok (ho_clap H) \<and> abi_ok (ho_abi H) \<and> 0 <s EAGAIN (ho_abi H)"

section \<open>The view and the invariant\<close>

text \<open>The parameters of an episode.\<close>

record episode =
  ep_backing :: string
  ep_gran :: u64
  ep_queues :: u16
  ep_buffered :: bool
  ep_size :: u64
  ep_draws :: nat

definition ep_args :: "host \<Rightarrow> episode \<Rightarrow> string list" where
  "ep_args H E = attach_args (ep_backing E) (ep_gran E) (ep_queues E) (ho_meta H) (ep_buffered E)"

definition ep_spec :: "host \<Rightarrow> episode \<Rightarrow> device_spec" where
  "ep_spec H E = \<lparr>spec_backing = canonical_path (ho_canon H) (ep_backing E), spec_granularity = ep_gran E,
     spec_meta = Some (meta_file H), spec_dev_id = default_dev_id, spec_queues = ep_queues E,
     spec_depth = default_depth, spec_buf_size = default_buf_size, spec_buffered = ep_buffered E\<rparr>"

definition draw_gen :: "host \<Rightarrow> nat \<Rightarrow> u64" where
  "draw_gen H k = from_le_bytes (ho_rnd H k)"

definition ep_ok :: "host \<Rightarrow> episode \<Rightarrow> bool" where
  "ep_ok H E \<longleftrightarrow> plain_arg (ep_backing E) \<and> plain_arg (ho_meta H) \<and>
     is_power_of_two (ep_gran E) \<and> 4096 \<le> ep_gran E \<and> ep_size E \<noteq> 0 \<and> ep_size E mod 512 = 0 \<and>
     inj_on (draw_gen H) {..<ep_draws E}"

definition fits :: "episode \<Rightarrow> era_state \<Rightarrow> bool" where
  "fits E s \<longleftrightarrow> era_wf s \<and> granularity s = ep_gran E \<and> dev_size s = ep_size E"

text \<open>
  Nothing attached: the metadata file, if it is there, holds a map of this device. Attached:
  the registry has this device only, and its file is an unclean save of its history, as of the
  current era.
\<close>

definition idle_ok :: "host \<Rightarrow> episode \<Rightarrow> world \<Rightarrow> bool" where
  "idle_ok H E w \<longleftrightarrow> devices w = [] \<and>
     (files w (meta_file H) = None \<or>
      (\<exists>c x. files w (meta_file H) = Some (meta_bytes c x) \<and> fits E x))"

definition att_ok :: "host \<Rightarrow> episode \<Rightarrow> managed \<Rightarrow> world \<Rightarrow> bool" where
  "att_ok H E m w \<longleftrightarrow> devices w = [(ho_dev H, m)] \<and> reap w = w \<and> m_meta m = Some (meta_file H) \<and>
     fits E (arcs w ! m_state m) \<and>
     (\<exists>x. files w (meta_file H) = Some (meta_bytes False x) \<and> same_shape (arcs w ! m_state m) x \<and>
        current_era x = current_era (arcs w ! m_state m))"

definition era_ok :: "host \<Rightarrow> episode \<Rightarrow> era_host \<Rightarrow> bool" where
  "era_ok H E d \<longleftrightarrow> host_ok H \<and> ep_ok H E \<and> reg_ok (eh_world d) \<and> length (eh_data d) = unat (ep_size E) \<and>
     (idle_ok H E (eh_world d) \<or> eh_up d \<and> (\<exists>m. att_ok H E m (eh_world d)))"

definition on_disk :: "host \<Rightarrow> episode \<Rightarrow> world \<Rightarrow> (era_state \<times> bool) option" where
  "on_disk H E w = (case load (Some []) (files w (meta_file H)) (ep_size E) (ep_gran E) of
      Inl _ \<Rightarrow> None | Inr x \<Rightarrow> Some x)"

definition cur_map :: "host \<Rightarrow> episode \<Rightarrow> world \<Rightarrow> era_state option" where
  "cur_map H E w = (case map_of (devices (reap w)) (ho_dev H) of
      Some m \<Rightarrow> Some (arcs w ! m_state m) | None \<Rightarrow> map_option fst (on_disk H E w))"

definition mk_view :: "host \<Rightarrow> episode \<Rightarrow> phase \<Rightarrow> u8 list \<Rightarrow> era_state option \<Rightarrow> bool \<Rightarrow> bool \<Rightarrow> nat \<Rightarrow> sut_view" where
  "mk_view H E ph data s present clean n = \<lparr>v_phase = ph, v_data = data,
     v_gen = (case s of None \<Rightarrow> [] | Some x \<Rightarrow> hex16 (generation x)),
     v_era = (case s of None \<Rightarrow> 0 | Some x \<Rightarrow> current_era x),
     v_newer = (case s of None \<Rightarrow> (\<lambda>_. {}) | Some x \<Rightarrow> changed_since x),
     v_meta = present, v_clean = clean, v_fresh = ep_draws E - n,
     v_used = (\<lambda>k. hex16 (draw_gen H k)) ` {..<n}\<rparr>"

definition era_view :: "host \<Rightarrow> episode \<Rightarrow> era_host \<Rightarrow> sut_view" where
  "era_view H E d = mk_view H E
     (if \<not> eh_up d then Down else if devices (reap (eh_world d)) = [] then Up else Attached (ucast (ho_dev H)))
     (eh_data d) (cur_map H E (eh_world d)) (files (eh_world d) (meta_file H) \<noteq> None)
     (case on_disk H E (eh_world d) of None \<Rightarrow> False | Some (_, c) \<Rightarrow> c) (eh_draws d)"

lemma mk_view_simps [simp]:
  "v_phase (mk_view H E ph xs s b c n) = ph" "v_data (mk_view H E ph xs s b c n) = xs"
  "v_meta (mk_view H E ph xs s b c n) = b" "v_clean (mk_view H E ph xs s b c n) = c"
  "v_gen (mk_view H E ph xs (Some x) b c n) = hex16 (generation x)"
  "v_era (mk_view H E ph xs (Some x) b c n) = current_era x"
  "v_newer (mk_view H E ph xs (Some x) b c n) = changed_since x"
  "v_fresh (mk_view H E ph xs s b c n) = ep_draws E - n"
  "v_used (mk_view H E ph xs s b c n) = (\<lambda>k. hex16 (draw_gen H k)) ` {..<n}"
  by (simp_all add: mk_view_def)

lemma on_disk_none [simp]: "files w (meta_file H) = None \<Longrightarrow> on_disk H E w = None"
  by (simp add: on_disk_def load_def)

lemma on_disk_file: "files w (meta_file H) = Some (meta_bytes c x) \<Longrightarrow> fits E x \<Longrightarrow> on_disk H E w = Some (x, c)"
  using load_meta_bytes [of x "[]" c] by (simp add: on_disk_def fits_def)

lemma reap_empty [simp]: "devices w = [] \<Longrightarrow> devices (reap w) = []"
  by (simp add: reap_def)

lemma reap_arcs: "reap (w\<lparr>arcs := ss\<rparr>) = (reap w)\<lparr>arcs := ss\<rparr>" "reap (w\<lparr>files := fs\<rparr>) = (reap w)\<lparr>files := fs\<rparr>"
  by (simp_all add: reap_def)

lemma reap_id: "reap w = w \<longleftrightarrow> devices (reap w) = devices w"
  by (cases w) (simp add: reap_def)

lemma view_none:
  "devices (eh_world d) = [] \<Longrightarrow> files (eh_world d) (meta_file H) = None \<Longrightarrow>
     era_view H E d = mk_view H E (if eh_up d then Up else Down) (eh_data d) None False False (eh_draws d)"
  by (simp add: era_view_def cur_map_def)

lemma view_file:
  "devices (eh_world d) = [] \<Longrightarrow> files (eh_world d) (meta_file H) = Some (meta_bytes c x) \<Longrightarrow> fits E x \<Longrightarrow>
     era_view H E d = mk_view H E (if eh_up d then Up else Down) (eh_data d) (Some x) True c (eh_draws d)"
  by (simp add: era_view_def cur_map_def on_disk_file)

lemma fits_shape: "fits E s \<Longrightarrow> same_shape s x \<Longrightarrow> fits E x"
  using same_shape_wf [of s x] by (simp add: fits_def) (simp add: same_shape_def)

lemma view_att:
  assumes "att_ok H E m (eh_world d)" and "eh_up d"
  shows "era_view H E d = mk_view H E (Attached (ucast (ho_dev H))) (eh_data d)
    (Some (arcs (eh_world d) ! m_state m)) True False (eh_draws d)"
proof -
  obtain x where x: "files (eh_world d) (meta_file H) = Some (meta_bytes False x)" "fits E x"
    using assms(1) fits_shape by (auto simp: att_ok_def)
  show ?thesis using assms on_disk_file [OF x] x(1) by (simp add: era_view_def cur_map_def att_ok_def)
qed

text \<open>What the phase says of the state.\<close>

lemma att_phase: "era_ok H E d \<Longrightarrow> v_phase (era_view H E d) = Attached i \<Longrightarrow>
    \<exists>m. att_ok H E m (eh_world d) \<and> eh_up d \<and> i = ucast (ho_dev H)"
  by (auto simp: era_ok_def era_view_def idle_ok_def split: if_splits)

lemma idle_phase: "era_ok H E d \<Longrightarrow> v_phase (era_view H E d) = Up \<Longrightarrow> idle_ok H E (eh_world d) \<and> eh_up d"
  by (auto simp: era_ok_def era_view_def att_ok_def split: if_splits)

lemma down_phase: "era_ok H E d \<Longrightarrow> v_phase (era_view H E d) = Down \<Longrightarrow> idle_ok H E (eh_world d) \<and> \<not> eh_up d"
  by (auto simp: era_ok_def era_view_def split: if_splits)

lemma idle_cases:
  assumes "idle_ok H E w"
  obtains (none) "devices w = []" "files w (meta_file H) = None"
  | (saved_map) c x where "devices w = []" "files w (meta_file H) = Some (meta_bytes c x)" "fits E x"
  using assms by (auto simp: idle_ok_def)

lemma idle_ok_fresh: "idle_ok H E w \<Longrightarrow> idle_ok H E (fresh_daemon (files w))"
  by (simp add: idle_ok_def fresh_daemon_def)

lemma node_phase: "era_ok H E d \<Longrightarrow> era_node H i d \<longleftrightarrow> v_phase (era_view H E d) = Attached i"
  by (auto simp: era_ok_def era_view_def era_node_def idle_ok_def att_ok_def split: if_splits)

lemma fresh_sel [simp]: "devices (fresh_daemon fs) = []" "files (fresh_daemon fs) = fs" "arcs (fresh_daemon fs) = []"
  by (simp_all add: fresh_daemon_def)

text \<open>Starting, killing, the node, reading.\<close>

lemma era_start_law:
  assumes "era_ok H E d" and "v_phase (era_view H E d) = Down"
  shows "\<exists>d'. era_start d = (Some True, d') \<and> era_ok H E d' \<and> era_view H E d' = (era_view H E d)\<lparr>v_phase := Up\<rparr>"
proof -
  let ?d = "d\<lparr>eh_up := True, eh_world := fresh_daemon (files (eh_world d))\<rparr>"
  have i: "idle_ok H E (eh_world d)" "\<not> eh_up d" using down_phase [OF assms] by simp_all
  from i(1) have "era_view H E ?d = (era_view H E d)\<lparr>v_phase := Up\<rparr>"
    by (cases rule: idle_cases) (use i(2) in \<open>simp_all add: view_none view_file\<close>, simp_all add: mk_view_def)
  moreover have "era_ok H E ?d" using assms(1) idle_ok_fresh [OF i(1)] by (simp add: era_ok_def)
  ultimately show ?thesis by (simp add: era_start_def)
qed

lemma era_kill_law:
  assumes "era_ok H E d"
  shows "\<exists>N. era_ok H E (era_kill d) \<and> era_view H E (era_kill d) = (era_view H E d)\<lparr>v_phase := Down, v_newer := N\<rparr>"
proof (cases "idle_ok H E (eh_world d)")
  case True
  then have "\<exists>N. era_view H E (era_kill d) = (era_view H E d)\<lparr>v_phase := Down, v_newer := N\<rparr>"
  proof (cases rule: idle_cases)
    case none
    then show ?thesis by (intro exI [of _ "\<lambda>_. {}"]) (simp add: era_kill_def view_none mk_view_def)
  next
    case (saved_map c x)
    then show ?thesis by (intro exI [of _ "changed_since x"]) (simp add: era_kill_def view_file mk_view_def)
  qed
  then show ?thesis using assms idle_ok_fresh [OF True] by (simp add: era_ok_def era_kill_def)
next
  case False
  then obtain m where m: "eh_up d" "att_ok H E m (eh_world d)" using assms by (auto simp: era_ok_def)
  let ?s = "arcs (eh_world d) ! m_state m"
  obtain x where x: "files (eh_world d) (meta_file H) = Some (meta_bytes False x)" "fits E x" "same_shape ?s x"
      "current_era x = current_era ?s"
    using m(2) fits_shape by (auto simp: att_ok_def)
  have "era_view H E (era_kill d) = (era_view H E d)\<lparr>v_phase := Down, v_newer := changed_since x\<rparr>"
    using x by (simp add: era_kill_def view_file view_att [OF m(2,1)], simp add: mk_view_def same_shape_def)
  moreover have "era_ok H E (era_kill d)"
    using assms x by (auto simp: era_ok_def era_kill_def idle_ok_def)
  ultimately show ?thesis by blast
qed

lemma era_read_law:
  assumes "era_ok H E d" and "v_phase (era_view H E d) = Attached i"
  shows "era_read H off n d = (Some (take n (drop (unat off) (v_data (era_view H E d)))), d)"
proof -
  obtain m where "att_ok H E m (eh_world d)" using att_phase [OF assms] by blast
  then show ?thesis by (simp add: era_read_def att_ok_def era_view_def)
qed

section \<open>Writes\<close>

lemma low_byte:
  assumes "w \<le> (0xFF :: u32)"
  shows "w AND 0xFF = w"
proof -
  have "unat w < 2 ^ 8" using assms by (simp add: word_le_nat_alt)
  then have "take_bit 8 w = w" by (metis take_bit_nat_eq_self unsigned_take_bit_eq word_unat_eq_iff)
  moreover have "(0xFF :: u32) = mask 8" by (simp add: mask_eq_exp_minus_1)
  ultimately show ?thesis by (simp add: take_bit_eq_mask)
qed

lemma write_iod_facts:
  assumes "abi_ok K" and "unat off mod 4096 = 0" and "n mod 4096 = 0" and "n \<le> 262144"
  defines "q \<equiv> write_iod K off n"
  shows "iod_op q = IO_OP_WRITE K" and "iod_off q = off" and "unat (iod_bytes q) = n"
    and "unat (ucast (iod_bytes q) :: u32) = n"
proof -
  show "iod_op q = IO_OP_WRITE K" using assms(1) by (simp add: q_def write_iod_def iod_op_def low_byte abi_ok_def)
  have m: "unat off mod 512 = 0" "n mod 512 = 0"
    using assms(2,3) mod_mod_cancel [of 512 4096 "unat off"] mod_mod_cancel [of 512 4096 n] by simp_all
  have d: "unat (drop_bit 9 off) = unat off div 512" by (simp add: drop_bit_eq_div unat_div_distrib)
  have "unat (push_bit 9 (drop_bit 9 off)) = unat (drop_bit 9 off) * 512"
    using unat_u64_less [of off] by (intro unat_push_bit9) (simp add: d)
  then have "unat (push_bit 9 (drop_bit 9 off)) = unat off" using m(1) d by auto
  then have "push_bit 9 (drop_bit 9 off) = off" by (simp only: word_unat_eq_iff)
  then show "iod_off q = off" by (simp add: q_def write_iod_def iod_off_def)
  have k: "unat (of_nat (n div 512) :: u32) = n div 512" using assms(4) by (intro unat_of_nat_less) simp
  then have "unat (ucast (of_nat (n div 512) :: u32) :: u64) = n div 512"
    using assms(4) by (simp add: unsigned_ucast_eq take_bit_nat_eq_self)
  then have "unat (push_bit 9 (ucast (of_nat (n div 512) :: u32) :: u64)) = n div 512 * 512"
    using assms(4) by (subst unat_push_bit9) simp_all
  then show b: "unat (iod_bytes q) = n" using m(2) by (auto simp: q_def write_iod_def iod_bytes_def)
  show "unat (ucast (iod_bytes q) :: u32) = n"
    using b assms(4) by (simp add: unsigned_ucast_eq take_bit_nat_eq_self)
qed

lemma uint_by_sint: "uint x = (if sint x < 0 then sint x + 4294967296 else sint x)" for x :: i32
proof -
  have u: "uint x = sint x mod 4294967296" using uint_sint [of x] by (simp add: take_bit_eq_mod)
  show ?thesis
  proof (cases "sint x < 0")
    case True
    then have "(sint x + 4294967296) mod 4294967296 = sint x + 4294967296"
      using sint_bounds(1) [of x] by (intro mod_pos_pos_trivial) linarith+
    then show ?thesis using u True by simp
  next
    case False
    then show ?thesis using u sint_bounds(2) [of x] by (simp add: mod_pos_pos_trivial)
  qed
qed

lemma small_result:
  assumes "unat (n :: i32) \<le> 262144" and "0 <s (e :: i32)"
  shows "sint n = int (unat n)" and "n \<noteq> - e"
proof -
  have "int (unat n) \<le> 262144" using assms(1) by linarith
  then have "uint n \<le> 262144" by simp
  moreover have "sint n + 4294967296 = uint n" if "sint n < 0" using that uint_by_sint [of n] by simp
  ultimately have "\<not> sint n < 0" using sint_bounds(1) [of n] by fastforce
  then show "sint n = int (unat n)" using uint_by_sint [of n] by simp
  have pos: "0 < sint e" using assms(2) by (simp add: word_sless_alt)
  then have "uint e = sint e" using uint_by_sint [of e] by simp
  then have "int (unat e) < 2147483648" "0 < int (unat e)" using pos sint_bounds(2) [of e] by simp_all
  then have u: "unat e < 2147483648" "0 < unat e" by linarith+
  show "n \<noteq> - e"
  proof
    assume "n = - e"
    then have "n + e = 0" by simp
    moreover have "unat (n + e) = unat n + unat e" using assms(1) u(1) by (intro unat_add_no_overflow) simp
    ultimately show False using u(2) by simp
  qed
qed


lemma changed_since_mark:
  assumes "era_wf s" and "mark_write off len s = Some s'" and "in_device s off len"
  shows "changed_since s c \<subseteq> changed_since s' c"
    and "c < current_era s \<Longrightarrow> {unat off..<unat off + unat len} \<subseteq> changed_since s' c"
proof -
  have sh: "gran s' = gran s" "size_of s' = size_of s"
    using mark_write_shape [OF assms(2)] by (simp_all add: same_shape_def)
  show "changed_since s c \<subseteq> changed_since s' c"
  proof
    fix b
    assume b: "b \<in> changed_since s c"
    then have "b div gran s < length (eras s)" using byte_chunk_in_range [OF assms(1)] by (simp add: changed_since_def)
    from mark_write_increases [OF assms(2) this] show "b \<in> changed_since s' c"
      using b sh by (auto simp: changed_since_def chunk_era_def)
  qed
  show "{unat off..<unat off + unat len} \<subseteq> changed_since s' c" if "c < current_era s"
  proof
    fix b
    assume b: "b \<in> {unat off..<unat off + unat len}"
    then have "current_era s \<le> chunk_era s' b"
      using mark_write_reaches [OF assms(1,3,2)] by (simp add: req_bytes_def)
    with b that sh assms(3) show "b \<in> changed_since s' c"
      by (auto simp: changed_since_def in_device_def)
  qed
qed

lemma att_facts:
  assumes "era_ok H E d" and "att_ok H E m (eh_world d)"
  shows "map_of (devices (reap (eh_world d))) (ho_dev H) = Some m" and "m_state m < length (arcs (eh_world d))"
    and "era_wf (arcs (eh_world d) ! m_state m)" and "size_of (arcs (eh_world d) ! m_state m) = length (eh_data d)"
    and "reap (eh_world d) = eh_world d" and "reg_ok (eh_world d)"
proof -
  show r: "reg_ok (eh_world d)" using assms(1) by (simp add: era_ok_def)
  show m: "map_of (devices (reap (eh_world d))) (ho_dev H) = Some m" using assms(2) by (simp add: att_ok_def)
  show "m_state m < length (arcs (eh_world d))" by (rule registered_wf(8) [OF r m])
  show "era_wf (arcs (eh_world d) ! m_state m)" "size_of (arcs (eh_world d) ! m_state m) = length (eh_data d)"
    "reap (eh_world d) = eh_world d"
    using assms by (auto simp: att_ok_def fits_def era_ok_def)
qed

text \<open>Another map of the same shape and era, for the same file.\<close>

lemma att_ok_map:
  assumes "era_ok H E d" and "att_ok H E m (eh_world d)" and "eh_up d"
    and "same_shape (arcs (eh_world d) ! m_state m) s" and "current_era s = current_era (arcs (eh_world d) ! m_state m)"
    and "length xs = length (eh_data d)"
  defines "w' \<equiv> (eh_world d)\<lparr>arcs := (arcs (eh_world d))[m_state m := s]\<rparr>"
  shows "att_ok H E m w'" and "era_ok H E (d\<lparr>eh_world := w', eh_data := xs\<rparr>)"
proof -
  note f = att_facts [OF assms(1,2)]
  have "reap w' = w'" using f(5) by (simp add: w'_def reap_arcs)
  moreover have s: "arcs w' ! m_state m = s" using f(2) by (simp add: w'_def)
  moreover obtain x where "files (eh_world d) (meta_file H) = Some (meta_bytes False x)"
      "same_shape (arcs (eh_world d) ! m_state m) x" "current_era x = current_era (arcs (eh_world d) ! m_state m)"
    using assms(2) by (auto simp: att_ok_def)
  then have "\<exists>x. files w' (meta_file H) = Some (meta_bytes False x) \<and> same_shape s x \<and> current_era x = current_era s"
    using assms(4,5) by (intro exI [of _ x]) (simp add: w'_def same_shape_def)
  moreover have "fits E s" using assms(2) fits_shape [OF _ assms(4)] by (simp add: att_ok_def)
  moreover have "devices w' = [(ho_dev H, m)]" "m_meta m = Some (meta_file H)"
    using assms(2) by (simp_all add: att_ok_def w'_def)
  ultimately show a: "att_ok H E m w'" by (simp add: att_ok_def)
  have "reg_ok w'"
    unfolding w'_def by (rule reg_ok_update [OF f(6)]) (simp_all add: nth_update_shape assms(4))
  then show "era_ok H E (d\<lparr>eh_world := w', eh_data := xs\<rparr>)"
    using assms(1,3,6) a by (auto simp: era_ok_def)
qed

lemma era_write_law:
  assumes "era_ok H E d" and "v_phase (era_view H E d) = Attached i"
    and "unat off + length bs \<le> length (v_data (era_view H E d))" and "unat off mod 4096 = 0"
    and "length bs mod 4096 = 0" and "length bs \<le> 262144"
  shows "\<exists>d' N. era_write H off bs d = (True, d') \<and> era_ok H E d' \<and>
    era_view H E d' = (era_view H E d)\<lparr>v_data := write_at (unat off) bs (v_data (era_view H E d)), v_newer := N\<rparr> \<and>
    (\<forall>c. v_newer (era_view H E d) c \<subseteq> N c) \<and>
    (\<forall>c<v_era (era_view H E d). {unat off..<unat off + length bs} \<subseteq> N c)"
proof -
  let ?K = "ho_abi H" and ?w = "eh_world d"
  obtain m where m: "att_ok H E m ?w" "eh_up d" using att_phase [OF assms(1,2)] by blast
  note f = att_facts [OF assms(1) m(1)]
  let ?s = "arcs ?w ! m_state m" and ?q = "write_iod ?K off (length bs)"
  have K: "abi_ok ?K" "0 <s EAGAIN ?K" using assms(1) by (simp_all add: era_ok_def host_ok_def)
  note q = write_iod_facts [OF K(1) assms(4-6)]
  let ?n = "ucast (iod_bytes ?q) :: u32"
  have sub: "start_io ?K 0 ?q = Submit 0 (IO_OP_WRITE ?K) (WriteSqe BACKING_FIXED_FD 0 ?n off)"
    using K(1) q(1,2) by (auto simp: start_io_def make_sqe_def abi_ok_def)
  have n: "sint ?n = int (length bs)" "?n \<noteq> - EAGAIN ?K"
    using small_result [of ?n, OF _ K(2)] q(4) assms(6) by simp_all
  have ld: "length (eh_data d) = length (v_data (era_view H E d))" by (simp add: era_view_def)
  have dev: "in_device ?s off (iod_bytes ?q)" using assms(3) q(3) f(4) ld by (simp add: in_device_def)
  then obtain s2 where s2: "mark_write off (iod_bytes ?q) ?s = Some s2" using mark_write_effect [OF f(3)] by metis
  have h: "handle_io_cmd ?K 0 ?q (Some ?n) ?s = Some (s2, Complete 0 ?n)"
    using s2 q(1,2) n(2) by (simp add: handle_done changes_data_def)
  let ?xs = "write_at (unat off) bs (eh_data d)"
  let ?d = "d\<lparr>eh_world := ?w\<lparr>arcs := (arcs ?w)[m_state m := s2]\<rparr>, eh_data := ?xs\<rparr>"
  have run: "era_write H off bs d = (True, ?d)"
    using f(1) sub h n(1) q(4) by (simp add: era_write_def Let_def)
  have sh: "same_shape ?s s2" "current_era s2 = current_era ?s" using mark_write_shape [OF s2] by simp_all
  have "length ?xs = length (eh_data d)" using assms(3) ld by simp
  note a = att_ok_map [OF assms(1) m sh this]
  have v: "era_view H E ?d = (era_view H E d)\<lparr>v_data := ?xs, v_newer := changed_since s2\<rparr>"
    using view_att [of H E m ?d] a(1) m(2) f(2) sh
    by (simp add: view_att [OF m], simp add: mk_view_def same_shape_def)
  moreover have "v_data (era_view H E d) = eh_data d" by (simp add: era_view_def)
  moreover have "v_newer (era_view H E d) c \<subseteq> changed_since s2 c" for c
    using changed_since_mark(1) [OF f(3) s2 dev] by (simp add: view_att [OF m])
  moreover have "{unat off..<unat off + length bs} \<subseteq> changed_since s2 c" if "c < v_era (era_view H E d)" for c
    using changed_since_mark(2) [OF f(3) s2 dev, of c] that q(3) by (simp add: view_att [OF m])
  ultimately show ?thesis
    using run a(2) by (intro exI [of _ ?d] exI [of _ "changed_since s2"]) simp
qed

lemma length_torn [simp]: "length (torn L off bs xs) = length xs"
  by (simp add: torn_def)

lemma era_torn_law:
  assumes "era_ok H E d" and "v_phase (era_view H E d) = Down"
  shows "\<exists>d' xs. era_write H off bs d = (False, d') \<and> era_ok H E d' \<and>
    era_view H E d' = (era_view H E d)\<lparr>v_data := xs\<rparr> \<and>
    agree {unat off..<unat off + length bs} xs (v_data (era_view H E d))"
proof -
  let ?xs = "torn (ho_lands H off bs) (unat off) bs (eh_data d)" let ?d = "d\<lparr>eh_data := ?xs\<rparr>"
  have i: "idle_ok H E (eh_world d)" using down_phase [OF assms] by simp
  have "era_view H E ?d = (era_view H E d)\<lparr>v_data := ?xs\<rparr>" by (simp add: era_view_def mk_view_def)
  moreover have "agree {unat off..<unat off + length bs} ?xs (v_data (era_view H E d))"
    by (auto simp: agree_def torn_def era_view_def)
  moreover have "era_write H off bs d = (False, ?d)" using i by (simp add: era_write_def idle_ok_def)
  moreover have "era_ok H E ?d" using assms(1) by (simp add: era_ok_def)
  ultimately show ?thesis by blast
qed


section \<open>Requests\<close>

definition draws_after :: "host \<Rightarrow> era_host \<Rightarrow> world \<Rightarrow> nat" where
  "draws_after H d w = eh_draws d + (if files (eh_world d) (meta_file H) = None \<and>
     length (arcs (eh_world d)) < length (arcs w) then 1 else 0)"

lemma era_ctl_run:
  assumes "ho_clap H args = Some c" and "cmd_meaning (ho_canon H) (ho_path H) c = Some req" and "eh_up d"
    and "dispatch (ho_texts H) (host_answers H d) req (eh_world d) = (w, r)" and "req \<noteq> ReqShutdown"
  shows "era_ctl H args d = (case r of Inr v \<Rightarrow> Some v | Inl _ \<Rightarrow> None,
    d\<lparr>eh_up := True, eh_world := w, eh_draws := draws_after H d w\<rparr>)"
proof -
  have dec: "decode_request (ho_path H) (case cmd_req (ho_canon H) c of None \<Rightarrow> JNull | Some v \<Rightarrow> v) = Some req"
    using decode_cmd_req assms(2) by simp
  have null: "decode_request (ho_path H) JNull = None" by (simp add: decode_request_def as_str_def)
  obtain v where v: "cmd_req (ho_canon H) c = Some v" "decode_request (ho_path H) v = Some req"
    using dec null by (cases "cmd_req (ho_canon H) c") auto
  show ?thesis
  proof (cases r)
    case (Inl e)
    then show ?thesis using assms v
      by (simp add: era_ctl_def host_conn_def handle_def exit_status_def client_request_def err_reply_def draws_after_def)
  next
    case (Inr x)
    then have "is_ok x" using dispatch_ok [of "ho_texts H" "host_answers H d" req "eh_world d" x] assms(4) by simp
    then have "jget ''ok'' x = JBool True" by (simp add: is_ok_def)
    then show ?thesis using assms v Inr
      by (simp add: era_ctl_def host_conn_def handle_def exit_status_def client_request_def draws_after_def)
  qed
qed

lemma draws_after_same: "length (arcs w) = length (arcs (eh_world d)) \<Longrightarrow> draws_after H d w = eh_draws d"
  by (simp add: draws_after_def)

lemma with_target_id [simp]: "with_target a \<lparr>tg_dev_id = Some dv, tg_backing = None\<rparr> f w = f dv w"
  by (simp add: with_target_def resolve_def)

lemma unat_dev: "unat (ucast (n :: u32) :: u64) = unat n"
  using unat_u32_less [of n] by (simp add: unsigned_ucast_eq take_bit_nat_eq_self)

lemma clap_forms:
  assumes "clap_ok P"
  shows "P [''del'', ''-n'', dev_arg (ucast n)] = Some (CmdDel (Some n) None)"
    and "P [''checkpoint'', ''-n'', dev_arg (ucast n)] = Some (CmdCheckpoint (Some n) None False)"
    and "P (dump_args (ucast n) (hex16 g) e) = Some (CmdDump (Some n) None e (Some (hex16 g)))"
    and "P [''shutdown''] = Some CmdShutdown"
  using assms by (simp_all add: clap_ok_def dev_arg_def dump_args_def unat_dev)

lemma era_checkpoint_law:
  assumes "era_ok H E d" and "v_phase (era_view H E d) = Attached i"
  shows "\<exists>r d'. era_ctl H [''checkpoint'', ''-n'', dev_arg i] d = (Some r, d') \<and> era_ok H E d' \<and>
    era_view H E d' = (era_view H E d)\<lparr>v_era := v_era (era_view H E d) + 1\<rparr> \<and>
    jget ''closed_era'' r = JNum (uint (v_era (era_view H E d)))"
proof -
  let ?w = "eh_world d" and ?et = "tx_save (ho_texts H)"
  obtain m where m: "att_ok H E m ?w" "eh_up d" "i = ucast (ho_dev H)" using att_phase [OF assms] by blast
  note f = att_facts [OF assms(1) m(1)]
  let ?s = "arcs ?w ! m_state m" and ?w' = "fst (checkpoint_one ?et None m ?w)" and ?v = "snd (checkpoint_one ?et None m ?w)"
  let ?s' = "fst (checkpoint ?s)" and ?d = "d\<lparr>eh_up := True, eh_world := ?w', eh_draws := eh_draws d\<rparr>"
  have "dispatch (ho_texts H) (host_answers H d) (ReqCheckpoint \<lparr>tg_dev_id = Some (ho_dev H), tg_backing = None\<rparr>) ?w = (?w', Inr ?v)"
    using f(5) by (simp add: dispatch_def host_answers_def checkpoint_dev_eq [OF f(1)])
  moreover have "ho_clap H [''checkpoint'', ''-n'', dev_arg i] = Some (CmdCheckpoint (Some (ho_dev H)) None False)"
    using clap_forms(2) assms(1) m(3) by (simp add: era_ok_def host_ok_def)
  moreover have "draws_after H d ?w' = eh_draws d" by (rule draws_after_same) (simp add: checkpoint_one_arcs)
  ultimately have run: "era_ctl H [''checkpoint'', ''-n'', dev_arg i] d = (Some ?v, ?d)"
    using m(2) by (subst era_ctl_run) (auto simp: cmd_meaning_def)
  have meta: "m_meta m = Some (meta_file H)" "devices ?w = [(ho_dev H, m)]" "fits E ?s" using m(1) by (simp_all add: att_ok_def)
  have w': "arcs ?w' ! m_state m = ?s'" "files ?w' (meta_file H) = Some (meta_bytes False ?s')"
      "devices ?w' = devices ?w" "threads ?w' = threads ?w"
    using f(2) meta(1) by (simp_all add: checkpoint_one_arcs save_ok)
  have "devices (reap ?w') = devices (reap ?w)" by (simp add: reap_def w')
  then have "reap ?w' = ?w'" using w'(3) f(5) by (simp add: reap_id)
  then have a: "att_ok H E m ?w'"
    using w' meta fits_shape [OF meta(3) checkpoint_shape] by (auto simp: att_ok_def)
  have "era_ok H E ?d" using assms(1) a reg_ok_checkpoint_one [OF f(6)] by (auto simp: era_ok_def)
  moreover have "era_view H E ?d = (era_view H E d)\<lparr>v_era := v_era (era_view H E d) + 1\<rparr>"
    using view_att [of H E m ?d] a m(2) w'(1) view_att [OF m(1,2)]
    by (simp add: mk_view_def changed_since_def chunk_era_def fun_eq_iff)
  moreover have "jget ''closed_era'' ?v = JNum (uint (v_era (era_view H E d)))"
    by (simp add: checkpoint_one_reply view_att [OF m(1,2)] u32_json_def)
  ultimately show ?thesis using run by blast
qed


lemma era_host_eta: "eh_up d \<Longrightarrow> d\<lparr>eh_up := True, eh_world := eh_world d, eh_draws := eh_draws d\<rparr> = d"
  by (cases d) simp

text \<open>A \<open>dump\<close> changes nothing; \<open>r\<close> is what the daemon answers.\<close>

lemma era_dump_run:
  assumes "era_ok H E d" and "att_ok H E m (eh_world d)" and "eh_up d"
  shows "era_ctl H (dump_args (ucast (ho_dev H)) (hex16 g) e) d =
    (case snd (dump (ho_dev H) e (Some (hex16 g)) (eh_world d)) of Inr v \<Rightarrow> Some v | Inl _ \<Rightarrow> None, d)"
proof -
  note f = att_facts [OF assms(1,2)]
  have "dispatch (ho_texts H) (host_answers H d) (ReqDump \<lparr>tg_dev_id = Some (ho_dev H), tg_backing = None\<rparr> e (Some (hex16 g)))
      (eh_world d) = (eh_world d, snd (dump (ho_dev H) e (Some (hex16 g)) (eh_world d)))"
    using f(5) by (simp add: dispatch_def prod_eq_iff reap_only)
  moreover have "ho_clap H (dump_args (ucast (ho_dev H)) (hex16 g) e) = Some (CmdDump (Some (ho_dev H)) None e (Some (hex16 g)))"
    using clap_forms(3) assms(1) by (simp add: era_ok_def host_ok_def)
  moreover have "draws_after H d (eh_world d) = eh_draws d" by (simp add: draws_after_same)
  ultimately show ?thesis
    using era_ctl_run [of H _ _ _ d] assms(3) era_host_eta [OF assms(3)] by (simp add: cmd_meaning_def)
qed

lemma era_dump_law:
  assumes "era_ok H E d" and "v_phase (era_view H E d) = Attached i" and "e < v_era (era_view H E d)"
  shows "\<exists>r d' js rs. era_ctl H (dump_args i (v_gen (era_view H E d)) e) d = (Some r, d') \<and> era_ok H E d' \<and>
    era_view H E d' = era_view H E d \<and> jget ''ranges'' r = JArr js \<and> list_all2 range_of_json js rs \<and>
    v_newer (era_view H E d) e \<subseteq> covered rs \<and>
    list_all (\<lambda>x. unat (dr_offset x) + unat (dr_len x) \<le> length (v_data (era_view H E d))) rs"
proof -
  obtain m where m: "att_ok H E m (eh_world d)" "eh_up d" "i = ucast (ho_dev H)" using att_phase [OF assms(1,2)] by blast
  note f = att_facts [OF assms(1) m(1)]
  let ?s = "arcs (eh_world d) ! m_state m" let ?rs = "ranges_since ?s e"
  have v: "v_gen (era_view H E d) = hex16 (generation ?s)" "v_newer (era_view H E d) e = changed_since ?s e" "e < current_era ?s"
    using assms(3) by (simp_all add: view_att [OF m(1,2)])
  have "snd (dump (ho_dev H) e (Some (hex16 (generation ?s))) (eh_world d)) = Inr (dump_reply (ho_dev H) ?s e)"
    using f(1) v(3) by (simp add: dump_unfold parse_hex16 Let_def not_le)
  then have run: "era_ctl H (dump_args i (v_gen (era_view H E d)) e) d = (Some (dump_reply (ho_dev H) ?s e), d)"
    using era_dump_run [OF assms(1) m(1,2), of "generation ?s" e] by (simp add: v(1) m(3))
  have "jget ''ranges'' (dump_reply (ho_dev H) ?s e) = JArr (map range_json ?rs)"
    by (simp add: dump_reply_def Let_def)
  moreover have "list_all2 range_of_json (map range_json ?rs) ?rs"
    by (simp add: list_all2_conv_all_nth range_of_json_def range_json_def u64_json_def as_u64_def)
  moreover have "list_all (\<lambda>x. unat (dr_offset x) + unat (dr_len x) \<le> size_of ?s) ?rs"
    using ranges_since_upto [OF f(3), of e] by (auto simp: ranges_upto_def list_all_iff)
  then have "list_all (\<lambda>x. unat (dr_offset x) + unat (dr_len x) \<le> length (v_data (era_view H E d))) ?rs"
    using f(4) by (simp add: era_view_def)
  ultimately show ?thesis
    using run assms(1) v(2) covered_ranges_since [OF f(3), of e]
    by (intro exI [of _ "dump_reply (ho_dev H) ?s e"] exI [of _ d] exI [of _ "map range_json ?rs"] exI [of _ ?rs]) simp
qed

lemma era_reject_law:
  assumes "era_ok H E d" and "v_phase (era_view H E d) = Attached i" and "g \<in> v_used (era_view H E d)"
    and "g \<noteq> v_gen (era_view H E d)"
  shows "era_ctl H (dump_args i g e) d = (None, d)"
proof -
  obtain m where m: "att_ok H E m (eh_world d)" "eh_up d" "i = ucast (ho_dev H)" using att_phase [OF assms(1,2)] by blast
  note f = att_facts [OF assms(1) m(1)]
  let ?s = "arcs (eh_world d) ! m_state m"
  obtain k where k: "g = hex16 (draw_gen H k)" using assms(3) by (auto simp: view_att [OF m(1,2)])
  have "draw_gen H k \<noteq> generation ?s" using assms(4) k by (auto simp: view_att [OF m(1,2)])
  then have "snd (dump (ho_dev H) e (Some g) (eh_world d)) = Inl (WrongGeneration (generation ?s))"
    using f(1) by (simp add: dump_unfold parse_hex16 Let_def k)
  then show ?thesis using era_dump_run [OF assms(1) m(1,2), of "draw_gen H k" e] by (simp add: k m(3))
qed

lemma era_del_law:
  assumes "era_ok H E d" and "v_phase (era_view H E d) = Attached i"
  shows "\<exists>r d'. era_ctl H [''del'', ''-n'', dev_arg i] d = (Some r, d') \<and> era_ok H E d' \<and>
    era_view H E d' = (era_view H E d)\<lparr>v_phase := Up, v_clean := True\<rparr>"
proof -
  let ?w = "eh_world d"
  obtain m where m: "att_ok H E m ?w" "eh_up d" "i = ucast (ho_dev H)" using att_phase [OF assms] by blast
  note f = att_facts [OF assms(1) m(1)]
  note r = registered_wf [OF f(6,1)]
  have meta: "m_meta m = Some (meta_file H)" "devices ?w = [(ho_dev H, m)]" "fits E (arcs ?w ! m_state m)"
    using m(1) by (simp_all add: att_ok_def)
  let ?s = "arcs ?w ! m_state m" and ?w' = "fst (del True (Saves None) (ho_dev H) ?w)"
  let ?d = "d\<lparr>eh_up := True, eh_world := ?w', eh_draws := eh_draws d\<rparr>"
  obtain v where v: "snd (del True (Saves None) (ho_dev H) ?w) = Inr v"
    using f(1) by (simp add: del_def lookup_def Let_def)
  have "dispatch (ho_texts H) (host_answers H d) (ReqDel \<lparr>tg_dev_id = Some (ho_dev H), tg_backing = None\<rparr>) ?w = (?w', Inr v)"
    using v by (simp add: dispatch_def host_answers_def prod_eq_iff)
  moreover have "ho_clap H [''del'', ''-n'', dev_arg i] = Some (CmdDel (Some (ho_dev H)) None)"
    using clap_forms(1) assms(1) m(3) by (simp add: era_ok_def host_ok_def)
  moreover have w': "?w' = final_save None (m_supervisor m) (?w\<lparr>devices := []\<rparr>)"
    using f(5) meta(2) by (simp add: del_saving [OF f(1)])
  then have "draws_after H d ?w' = eh_draws d" by (intro draws_after_same) (simp add: final_save_def Let_def)
  ultimately have run: "era_ctl H [''del'', ''-n'', dev_arg i] d = (Some v, ?d)"
    using m(2) by (subst era_ctl_run) (auto simp: cmd_meaning_def)
  have fl: "devices ?w' = []" "files ?w' (meta_file H) = Some (meta_bytes True ?s)"
  proof -
    show "devices ?w' = []" unfolding w' by (simp add: final_save_def Let_def)
    show "files ?w' (meta_file H) = Some (meta_bytes True ?s)"
      unfolding w' using r(4,7) meta(1) by (subst final_save_ok) simp_all
  qed
  then have "era_ok H E ?d" using assms(1) meta(3) reg_ok_del [OF f(6)] by (auto simp: era_ok_def idle_ok_def)
  moreover have "era_view H E ?d = (era_view H E d)\<lparr>v_phase := Up, v_clean := True\<rparr>"
    using view_file [of ?d H True ?s E] fl meta(3) by (simp add: view_att [OF m(1,2)] mk_view_def)
  ultimately show ?thesis using run by blast
qed

lemma era_remove_law:
  assumes "era_ok H E d" and "v_phase (era_view H E d) = Up" and "v_meta (era_view H E d)"
  shows "\<exists>d' g e N b. era_remove_meta H d = (True, d') \<and> era_ok H E d' \<and> e \<le> v_era (era_view H E d) \<and>
    g \<notin> v_used (era_view H E d) \<and>
    era_view H E d' = (era_view H E d)\<lparr>v_gen := g, v_era := e, v_newer := N, v_meta := False, v_clean := b\<rparr>"
proof -
  have i: "idle_ok H E (eh_world d)" "eh_up d" using idle_phase [OF assms(1,2)] by simp_all
  let ?d = "snd (era_remove_meta H d)"
  have d: "eh_up ?d" "eh_data ?d = eh_data d" "eh_draws ?d = eh_draws d" "devices (eh_world ?d) = []"
      "files (eh_world ?d) (meta_file H) = None" "reg_ok (eh_world ?d)"
    using i assms(1) by (simp_all add: era_remove_meta_def idle_ok_def era_ok_def)
  have "[] \<noteq> hex16 g" for g by (simp add: hex16_def) (metis length_digits_rev list.size(3) numeral_eq_Suc nat.distinct(1))
  then have "[] \<notin> v_used (era_view H E d)" by (auto simp: era_view_def)
  moreover have "era_view H E ?d = (era_view H E d)\<lparr>v_gen := [], v_era := 0, v_newer := \<lambda>_. {}, v_meta := False, v_clean := False\<rparr>"
    using view_none [OF d(4,5)] d i by (simp add: era_view_def idle_ok_def, simp add: mk_view_def)
  moreover have "era_ok H E ?d" using assms(1) d by (simp add: era_ok_def idle_ok_def)
  moreover have "era_remove_meta H d = (True, ?d)" using assms(3) by (simp add: era_remove_meta_def era_view_def)
  ultimately show ?thesis
    by (intro exI [of _ ?d] exI [of _ "[]"] exI [of _ 0] exI [of _ "\<lambda>_. {}"] exI [of _ False]) simp
qed


section \<open>Attaching and shutting down\<close>

lemma host_add_check:
  assumes "era_ok H E d" and "devices (eh_world d) = []"
  shows "add_check (host_env H d) (ep_spec H E) (reap (eh_world d)) = Inr (ep_size E)"
proof -
  have "of_nat (length (eh_data d)) = ep_size E" "ep_size E \<noteq> 0" "ep_size E mod 512 = 0"
    using assms(1) by (simp_all add: era_ok_def ep_ok_def)
  then show ?thesis using assms(2)
    by (simp add: add_check_def host_env_def ep_spec_def default_dev_id_def backing_size_def)
qed

text \<open>A successful \<open>add\<close> with the map \<open>s\<close>.\<close>

lemma era_add_run:
  assumes "era_ok H E d" and "idle_ok H E (eh_world d)" and "eh_up d"
    and "attach_state (urandom (host_env H d)) (ep_spec H E) (ep_size E) (files (eh_world d)) = Inr (s, rec)"
  defines "n \<equiv> eh_draws d + (if files (eh_world d) (meta_file H) = None then 1 else 0)"
  shows "\<exists>d' bdev. era_ctl H (ep_args H E) d = (Some (add_reply (ho_dev H) (ep_spec H E) (ep_size E) s rec bdev), d') \<and>
    era_ok H E d' \<and> era_view H E d' =
      mk_view H E (Attached (ucast (ho_dev H))) (eh_data d) (Some s) True False n"
proof -
  let ?w = "eh_world d" and ?spec = "ep_spec H E" and ?env = "host_env H d" and ?bdev = "tx_bdev (ho_texts H)"
  let ?w' = "fst (add ?bdev ?env ?spec ?w)" and ?e = "new_entry (ho_dev H) (ep_spec H E) (eh_world d)"
  let ?v = "add_reply (ho_dev H) ?spec (ep_size E) s rec (?bdev (ho_dev H))"
  let ?d = "d\<lparr>eh_up := True, eh_world := ?w', eh_draws := n\<rparr>"
  have none: "devices ?w = []" using assms(2) by (simp add: idle_ok_def)
  have reg: "reg_ok ?w" using assms(1) by (simp add: era_ok_def)
  then have len: "length (arcs ?w) = length (threads ?w)" by (simp add: reg_ok_def maps_wf_def)
  have env: "good_env ?env (ho_dev H)" by (simp add: good_env_def host_env_def)
  note ok = add_success [OF host_add_check [OF assms(1) none] env assms(4) len, where bdev = ?bdev]
  have "dispatch (ho_texts H) (host_answers H d) (ReqAdd ?spec) ?w = (?w', Inr ?v)"
    using ok(1) by (simp add: dispatch_def host_answers_def prod_eq_iff)
  moreover have "clap_ok (ho_clap H)" "plain_arg (ep_backing E)" "plain_arg (ho_meta H)"
    using assms(1) by (simp_all add: era_ok_def host_ok_def ep_ok_def)
  then have "ho_clap H (ep_args H E) = Some (CmdAdd (ep_backing E) (ep_gran E) (Some (ho_meta H)) default_dev_id
      (ep_queues E) default_depth 524288 (ep_buffered E))"
    by (simp add: clap_ok_def ep_args_def)
  moreover have "cmd_meaning (ho_canon H) (ho_path H) (CmdAdd (ep_backing E) (ep_gran E) (Some (ho_meta H)) default_dev_id
      (ep_queues E) default_depth 524288 (ep_buffered E)) = Some (ReqAdd ?spec)"
    by (simp add: cmd_meaning_def ep_spec_def default_buf_size_def Let_def)
  moreover have "draws_after H d ?w' = n" by (simp add: draws_after_def n_def ok(3))
  ultimately have run: "era_ctl H (ep_args H E) d = (Some ?v, ?d)"
    using assms(3) by (subst era_ctl_run) auto
  have e: "m_state ?e = length (arcs ?w)" "m_meta ?e = Some (meta_file H)" "m_supervisor ?e = length (threads ?w)"
    by (simp_all add: new_entry_def ep_spec_def)
  have dev: "devices ?w' = [(ho_dev H, ?e)]" using ok(7) none by simp
  then have "reap ?w' = ?w'" using ok(4) e(3) unfolding reap_id by (simp add: reap_def)
  moreover have "fits E s" using attach_state_ok [OF assms(4)] by (simp add: fits_def ep_spec_def)
  moreover have "files ?w' (meta_file H) = Some (meta_bytes False s)" using ok(5) by (simp add: ep_spec_def)
  moreover have s: "arcs ?w' ! m_state ?e = s" by (simp add: ok(3) e)
  ultimately have a: "att_ok H E ?e ?w'" using dev e(2) by (auto simp: att_ok_def)
  then have "era_ok H E ?d" using assms(1) reg_ok_add [OF reg] by (auto simp: era_ok_def)
  moreover have "era_view H E ?d = mk_view H E (Attached (ucast (ho_dev H))) (eh_data d) (Some s) True False n"
    using view_att [of H E ?e ?d] a s by simp
  ultimately show ?thesis using run by blast
qed

lemma uint_ucast_dev: "uint (ucast (n :: u32) :: u64) = uint n"
  using unat_dev [of n] by (metis of_nat_unat)

lemma add_reply_fields:
  "jget ''dev_id'' (add_reply dv spec sz s rec b) = JNum (uint (ucast dv :: u64))"
  "jget ''generation'' (add_reply dv spec sz s rec b) = JStr (hex16 (generation s))"
  "unclean (add_reply dv spec sz s rec b) = rec"
  by (simp_all add: add_reply_def Let_def u32_json_def uint_ucast_dev unclean_def)

lemma era_add_clean_law:
  assumes "era_ok H E d" and "v_phase (era_view H E d) = Up" and "v_meta (era_view H E d)" and "v_clean (era_view H E d)"
  shows "\<exists>r d' i. era_ctl H (ep_args H E) d = (Some r, d') \<and> era_ok H E d' \<and> jget ''dev_id'' r = JNum (uint i) \<and>
    jget ''generation'' r = JStr (v_gen (era_view H E d)) \<and> \<not> unclean r \<and>
    era_view H E d' = (era_view H E d)\<lparr>v_phase := Attached i, v_clean := False\<rparr>"
proof -
  have i: "idle_ok H E (eh_world d)" "eh_up d" using idle_phase [OF assms(1,2)] by simp_all
  from i(1) show ?thesis
  proof (cases rule: idle_cases)
    case none
    then show ?thesis using assms(3) by (simp add: view_none)
  next
    case (saved_map c x)
    have c: "c" using assms(4) by (simp add: view_file [OF saved_map])
    have x: "era_wf x" "granularity x = ep_gran E" "dev_size x = ep_size E" using saved_map(3) by (simp_all add: fits_def)
    have "attach_state (urandom (host_env H d)) (ep_spec H E) (ep_size E) (files (eh_world d)) = Inr (x, False)"
      using attach_state_file [of "ep_spec H E" "meta_file H" "files (eh_world d)" c x] x saved_map(2) c
      by (simp add: host_env_def ep_spec_def)
    from era_add_run [OF assms(1) i this] obtain d' b where
      d: "era_ctl H (ep_args H E) d = (Some (add_reply (ho_dev H) (ep_spec H E) (ep_size E) x False b), d')" "era_ok H E d'"
        "era_view H E d' = mk_view H E (Attached (ucast (ho_dev H))) (eh_data d) (Some x) True False (eh_draws d)"
      using saved_map(2) by auto
    then show ?thesis
      by (intro exI [of _ "add_reply (ho_dev H) (ep_spec H E) (ep_size E) x False b"] exI [of _ d'] exI [of _ "ucast (ho_dev H)"])
        (simp add: add_reply_fields view_file [OF saved_map] mk_view_def)
  qed
qed

lemma all_newer:
  assumes "fits E x" and "c < current_era x"
  shows "{..<unat (ep_size E)} \<subseteq> changed_since (mark_all_dirty x) c"
proof
  fix b
  assume "b \<in> {..<unat (ep_size E)}"
  then have b: "b < size_of x" using assms(1) by (simp add: fits_def)
  then have "b div gran x < length (eras x)" using byte_chunk_in_range [of x b] assms(1) by (simp add: fits_def)
  then have "chunk_era (mark_all_dirty x) b = max (eras x ! (b div gran x)) (current_era x)"
    by (simp add: chunk_era_def nth_mark_all_dirty)
  then show "b \<in> changed_since (mark_all_dirty x) c" using b assms(2) by (simp add: changed_since_def less_max_iff_disj)
qed

lemma era_add_unclean_law:
  assumes "era_ok H E d" and "v_phase (era_view H E d) = Up" and "v_meta (era_view H E d)" and "\<not> v_clean (era_view H E d)"
  shows "\<exists>r d' i N. era_ctl H (ep_args H E) d = (Some r, d') \<and> era_ok H E d' \<and> jget ''dev_id'' r = JNum (uint i) \<and>
    jget ''generation'' r = JStr (v_gen (era_view H E d)) \<and> unclean r \<and>
    era_view H E d' = (era_view H E d)\<lparr>v_phase := Attached i, v_newer := N\<rparr> \<and>
    (\<forall>c<v_era (era_view H E d). {..<length (v_data (era_view H E d))} \<subseteq> N c)"
proof -
  have i: "idle_ok H E (eh_world d)" "eh_up d" using idle_phase [OF assms(1,2)] by simp_all
  from i(1) show ?thesis
  proof (cases rule: idle_cases)
    case none
    then show ?thesis using assms(3) by (simp add: view_none)
  next
    case (saved_map c x)
    have c: "\<not> c" using assms(4) by (simp add: view_file [OF saved_map])
    have x: "era_wf x" "granularity x = ep_gran E" "dev_size x = ep_size E" using saved_map(3) by (simp_all add: fits_def)
    let ?x = "mark_all_dirty x" let ?r = "add_reply (ho_dev H) (ep_spec H E) (ep_size E) ?x True"
    have "attach_state (urandom (host_env H d)) (ep_spec H E) (ep_size E) (files (eh_world d)) = Inr (?x, True)"
      using attach_state_file [of "ep_spec H E" "meta_file H" "files (eh_world d)" c x] x saved_map(2) c
      by (simp add: host_env_def ep_spec_def)
    from era_add_run [OF assms(1) i this] obtain d' b where
      d: "era_ctl H (ep_args H E) d = (Some (?r b), d')" "era_ok H E d'"
        "era_view H E d' = mk_view H E (Attached (ucast (ho_dev H))) (eh_data d) (Some ?x) True False (eh_draws d)"
      using saved_map(2) by auto
    have "length (eh_data d) = unat (ep_size E)" using assms(1) by (simp add: era_ok_def)
    then have "\<forall>c<v_era (era_view H E d). {..<length (v_data (era_view H E d))} \<subseteq> changed_since ?x c"
      using all_newer [OF saved_map(3)] by (simp add: view_file [OF saved_map])
    then show ?thesis using d c
      by (intro exI [of _ "?r b"] exI [of _ d'] exI [of _ "ucast (ho_dev H)"] exI [of _ "changed_since ?x"])
        (simp add: add_reply_fields view_file [OF saved_map] mk_view_def)
  qed
qed

lemma era_add_fresh_law:
  assumes "era_ok H E d" and "v_phase (era_view H E d) = Up" and "\<not> v_meta (era_view H E d)" and "v_fresh (era_view H E d) = Suc k"
  shows "\<exists>r d' i g N. era_ctl H (ep_args H E) d = (Some r, d') \<and> era_ok H E d' \<and> jget ''dev_id'' r = JNum (uint i) \<and>
    jget ''generation'' r = JStr g \<and> \<not> unclean r \<and> g \<notin> v_used (era_view H E d) \<and>
    era_view H E d' = (era_view H E d)\<lparr>v_phase := Attached i, v_gen := g, v_era := 1, v_newer := N, v_meta := True,
      v_clean := False, v_fresh := k, v_used := insert g (v_used (era_view H E d))\<rparr>"
proof -
  have i: "idle_ok H E (eh_world d)" "eh_up d" using idle_phase [OF assms(1,2)] by simp_all
  from i(1) show ?thesis
  proof (cases rule: idle_cases)
    case (saved_map c x)
    then show ?thesis using assms(3) by (simp add: view_file)
  next
    case none
    let ?n = "eh_draws d" and ?g = "hex16 (draw_gen H (eh_draws d))"
    have gr: "is_power_of_two (ep_gran E)" "\<not> ep_gran E < 4096" "inj_on (draw_gen H) {..<ep_draws E}"
      using assms(1) by (simp_all add: era_ok_def ep_ok_def not_less)
    have lt: "?n < ep_draws E" "ep_draws E - Suc ?n = k" using assms(4) by (simp_all add: era_view_def)
    obtain s where s: "era_new (Some (ho_rnd H ?n)) (ep_size E) (ep_gran E) = Inr s"
      using gr(1,2) by (simp add: era_new_def Let_def)
    have gen: "generation s = draw_gen H ?n" "current_era s = 1" using era_new_ok [OF s] by (auto simp: draw_gen_def)
    have "attach_state (urandom (host_env H d)) (ep_spec H E) (ep_size E) (files (eh_world d)) = Inr (s, False)"
      using s none(2) by (simp add: attach_state_def host_env_def ep_spec_def)
    from era_add_run [OF assms(1) i this] obtain d' b where
      d: "era_ctl H (ep_args H E) d = (Some (add_reply (ho_dev H) (ep_spec H E) (ep_size E) s False b), d')" "era_ok H E d'"
        "era_view H E d' = mk_view H E (Attached (ucast (ho_dev H))) (eh_data d) (Some s) True False (Suc ?n)"
      using none(2) by auto
    have "?g \<noteq> hex16 (draw_gen H j)" if "j < ?n" for j
    proof
      assume "?g = hex16 (draw_gen H j)"
      then have "draw_gen H ?n = draw_gen H j" by (metis option.inject parse_hex16)
      then show False using inj_onD [OF gr(3), of ?n j] that lt(1) by simp
    qed
    then have "?g \<notin> v_used (era_view H E d)" by (auto simp: era_view_def)
    then show ?thesis using d gen lt(2)
      by (intro exI [of _ "add_reply (ho_dev H) (ep_spec H E) (ep_size E) s False b"] exI [of _ d'] exI [of _ "ucast (ho_dev H)"]
          exI [of _ ?g] exI [of _ "changed_since s"])
        (simp add: add_reply_fields view_none [OF none] lessThan_Suc mk_view_def)
  qed
qed

lemma era_shutdown_law:
  assumes "era_ok H E d" and "v_phase (era_view H E d) = Up"
  shows "\<exists>r d'. era_ctl H [''shutdown''] d = (Some r, d') \<and> era_ok H E d' \<and>
    era_view H E d' = (era_view H E d)\<lparr>v_phase := Down\<rparr>"
proof -
  have i: "idle_ok H E (eh_world d)" "eh_up d" using idle_phase [OF assms] by simp_all
  let ?r = "JObj [(''ok'', JBool True), (''shutdown'', JBool True)]" let ?d = "d\<lparr>eh_up := False\<rparr>"
  have "ho_clap H [''shutdown''] = Some CmdShutdown" using clap_forms(4) assms(1) by (simp add: era_ok_def host_ok_def)
  moreover have "shutdown_all (\<lambda>_. True) (\<lambda>_. Saves None) (eh_world d) = eh_world d"
    using i(1) by (simp add: shutdown_all_def idle_ok_def)
  ultimately have "era_ctl H [''shutdown''] d = (Some ?r, ?d)"
    using i(2) by (simp add: era_ctl_def cmd_req_def host_conn_def decode_request_def as_str_def handle_def dispatch_def
        exit_status_def client_request_def)
  moreover have "era_ok H E ?d" using assms(1) i(1) by (simp add: era_ok_def)
  moreover from i(1) have "era_view H E ?d = (era_view H E d)\<lparr>v_phase := Down\<rparr>"
    by (simp add: era_view_def mk_view_def)
  ultimately show ?thesis by blast
qed

lemma era_sut_sel:
  "su_ctl (era_sut H) = era_ctl H" "su_start (era_sut H) = era_start" "su_kill (era_sut H) = era_kill"
  "su_write (era_sut H) = era_write H" "su_remove_meta (era_sut H) = era_remove_meta H"
  by (simp_all add: era_sut_def)

text \<open>Ublkera keeps the contract of the harness, on every host and for every episode.\<close>

interpretation es: cbt_sut "era_sut H" "era_view H E" "era_ok H E" "ep_args H E" for H E
proof
  fix d i
  assume "era_ok H E d" and "v_phase (era_view H E d) \<noteq> Attached i"
  then show "\<exists>d'. su_gone (era_sut H) i d = (True, d') \<and> era_ok H E d' \<and> era_view H E d' = era_view H E d"
    by (simp add: era_sut_def node_phase)
next
  fix d i
  assume "era_ok H E d" and "v_phase (era_view H E d) = Attached i"
  then show "\<exists>d'. su_node (era_sut H) i d = (True, d') \<and> era_ok H E d' \<and> era_view H E d' = era_view H E d"
    by (simp add: era_sut_def node_phase)
next
  fix d i
  assume "era_ok H E d"
  then show "\<exists>b d'. su_open (era_sut H) i d = (b, d') \<and> era_ok H E d' \<and> era_view H E d' = era_view H E d \<and>
      (v_phase (era_view H E d) = Attached i \<longrightarrow> b)"
    by (simp add: era_sut_def node_phase)
next
  fix d
  assume "era_ok H E d" and "v_phase (era_view H E d) = Up"
  then show "\<exists>d'. su_backing (era_sut H) d = (Some (v_data (era_view H E d)), d') \<and> era_ok H E d' \<and>
      era_view H E d' = era_view H E d"
    by (simp add: era_sut_def era_view_def)
next
  fix d
  assume "era_ok H E d" and "v_phase (era_view H E d) = Down"
  then show "\<exists>d'. su_exited (era_sut H) d = (True, d') \<and> era_ok H E d' \<and> era_view H E d' = era_view H E d"
    using down_phase by (simp add: era_sut_def)
next
  fix d i off n
  assume "era_ok H E d" and "v_phase (era_view H E d) = Attached i"
  then show "\<exists>d'. su_read (era_sut H) off n d = (Some (take n (drop (unat off) (v_data (era_view H E d)))), d') \<and>
      era_ok H E d' \<and> era_view H E d' = era_view H E d"
    by (simp add: era_sut_def era_read_law)
next
  fix d i g e
  assume "era_ok H E d" and "v_phase (era_view H E d) = Attached i" and "g \<in> v_used (era_view H E d)"
    and "g \<noteq> v_gen (era_view H E d)"
  then show "\<exists>d'. su_ctl (era_sut H) (dump_args i g e) d = (None, d') \<and> era_ok H E d' \<and> era_view H E d' = era_view H E d"
    by (simp add: era_sut_def era_reject_law)
qed (unfold era_sut_sel, (rule era_start_law era_kill_law era_write_law era_torn_law era_checkpoint_law
    era_dump_law era_del_law era_add_clean_law era_add_unclean_law era_add_fresh_law era_remove_law
    era_shutdown_law; assumption)+)


section \<open>Setting up an episode\<close>

lemma mod_4096_512: "(w :: u64) mod 4096 = 0 \<Longrightarrow> w mod 512 = 0"
proof -
  assume "w mod 4096 = 0"
  then have "unat (w mod 4096) = 0" by simp
  then have "unat w mod 512 = 0" using mod_mod_cancel [of 512 4096 "unat w"] by (simp add: unat_mod_distrib)
  then have "unat (w mod 512) = 0" by (simp add: unat_mod_distrib)
  then show ?thesis by (metis unat_eq_zero)
qed

lemma draw_gran_ok:
  assumes "c_granularity cli = 0 \<or> is_power_of_two (c_granularity cli) \<and> 4096 \<le> c_granularity cli"
  obtains gr r' where "draw_gran cli r = Some (gr, r')" and "is_power_of_two gr" and "4096 \<le> gr"
proof (cases "c_granularity cli = 0")
  case True
  have "(4 :: u64) \<noteq> 0" by simp
  then obtain k r' where k: "chaos_below 4 r = Some (k, r')" "k < 4" by (rule chaos_below_ok)
  then have "unat k < 4" by (simp add: word_less_nat_alt)
  then have "[4096, 16384, 65536, 262144 :: u64] ! unat k \<in> set [4096, 16384, 65536, 262144]" by (intro nth_mem) simp
  moreover have "is_power_of_two 4096" "is_power_of_two 16384" "is_power_of_two 65536" "is_power_of_two 262144"
    using is_power_of_two_exp [of 12] is_power_of_two_exp [of 14] is_power_of_two_exp [of 16] is_power_of_two_exp [of 18]
    by simp_all
  ultimately have "is_power_of_two ([4096, 16384, 65536, 262144] ! unat k)"
      "4096 \<le> [4096, 16384, 65536, 262144 :: u64] ! unat k"
    by auto
  then show thesis using that k(1) True by (simp add: draw_gran_def)
next
  case False
  then show thesis using that assms by (simp add: draw_gran_def)
qed

lemma draw_size_ok:
  assumes "c_size cli mod 4096 = 0"
  obtains sz r' where "draw_size cli r = Some (sz, r')" and "sz mod 4096 = 0" and "sz \<noteq> 0"
proof (cases "c_size cli = 0")
  case True
  have "(16 :: u64) \<noteq> 0" by simp
  then obtain k r' where k: "chaos_below 16 r = Some (k, r')" "k < 16" by (rule chaos_below_ok)
  then have k16: "unat k < 16" by (simp add: word_less_nat_alt)
  then have "unat (4096 * k) = 4096 * unat k" by (simp add: unat_word_ariths)
  then have "unat (33554432 + 4096 * k) = 33554432 + 4096 * unat k"
    using k16 by (subst unat_add_no_overflow) simp_all
  then have "unat ((33554432 + 4096 * k) mod 4096) = 0" "unat (33554432 + 4096 * k) \<noteq> 0"
    by (simp_all add: unat_mod_distrib)
  then have "(33554432 + 4096 * k) mod 4096 = 0" "33554432 + 4096 * k \<noteq> 0"
    by (metis unat_eq_zero, metis unat_0)
  then show thesis using that k(1) True by (simp add: draw_size_def)
next
  case False
  then show thesis using that assms by (simp add: draw_size_def)
qed

lemma draw_queues_ok: obtains q r' where "draw_queues r = Some (q, r')"
proof -
  have "(3 :: u64) \<noteq> 0" by simp
  then obtain k r' where "chaos_below 3 r = Some (k, r')" by (rule chaos_below_ok)
  then show thesis using that by (simp add: draw_queues_def)
qed

definition new_host :: "fs \<Rightarrow> u8 list \<Rightarrow> era_host" where
  "new_host fs xs = \<lparr>eh_up = False, eh_world = fresh_daemon fs, eh_data = xs, eh_draws = 0\<rparr>"

section \<open>Properties\<close>

text \<open>
  C3. Ublkera passes its own chaos test. On any host where clap parses the harness's command
  lines as documented and \<^verbatim>\<open>/dev/urandom\<close> gives different histories different ids, for any
  seed, any number of operations that the era counter can count, any size and granularity the
  program accepts (or drawn from the seed), any schedule of the writer threads before and after
  the kill, and whatever bytes of an interrupted write reach the disk, an episode of writes,
  checkpoints, incremental backups, clean re-attaches, killed daemons and lost metadata ends
  without a failed assertion: every incremental backup equals the device, every completed
  write is there, every recovery is flagged, and no cursor of a lost history is accepted.
\<close>

theorem chaos_episode_passes:
  assumes "host_ok H" and "ho_meta H = path_join (c_dir cli) ''meta.bin''" and "c_dir cli = [] \<or> plain_arg (c_dir cli)"
    and "c_granularity cli = 0 \<or> is_power_of_two (c_granularity cli) \<and> 4096 \<le> c_granularity cli"
    and "c_size cli mod 4096 = 0" and "unat (c_ops cli) + 2 < 2 ^ 32"
    and "inj_on (draw_gen H) {..<unat (c_ops cli) + 2}" and "fs (meta_file H) = None"
  shows "chaos_main (era_sut H) race cli (new_host fs xs) = Inr ()"
proof -
  obtain gr r1 where gr: "draw_gran cli (c_seed cli) = Some (gr, r1)" "is_power_of_two gr" "4096 \<le> gr"
    by (rule draw_gran_ok [OF assms(4)])
  obtain sz r2 where sz: "draw_size cli r1 = Some (sz, r2)" "sz mod 4096 = 0" "sz \<noteq> 0"
    by (rule draw_size_ok [OF assms(5)])
  obtain qs r3 where qs: "draw_queues r2 = Some (qs, r3)" by (rule draw_queues_ok)
  let ?E = "\<lparr>ep_backing = path_join (c_dir cli) ''backing.img'', ep_gran = gr, ep_queues = qs, ep_buffered = c_buffered cli, ep_size = sz,
      ep_draws = unat (c_ops cli) + 2\<rparr>"
  let ?d = "(new_host fs xs)\<lparr>eh_data := replicate (unat sz) 0\<rparr>"
  obtain h where h: "chaos_setup (era_sut H) cli (new_host fs xs) = Inr h" "h_sut h = ?d" "h_size h = sz"
      "h_args h = ep_args H ?E" "h_expected h = replicate (unat sz) 0" "length (h_shadow h) = unat sz" "h_cursor h = None"
      "h_dev_id h = None" "\<not> h_dev h" "\<not> h_daemon h"
    using gr(1) sz qs assms(2) by (simp add: chaos_setup_def era_sut_def h_args_def ep_args_def)
  have v: "era_view H ?E ?d = mk_view H ?E Down (replicate (unat sz) 0) None False False 0"
    using assms(8) by (simp add: view_none new_host_def)
  have "plain_arg (path_join (c_dir cli) ''backing.img'')" "plain_arg (path_join (c_dir cli) ''meta.bin'')"
    using assms(3) by (auto simp: plain_arg_def path_join_def)
  then have "era_ok H ?E ?d"
    using assms(1,2,7,8) gr(2,3) sz(2,3)
    by (simp add: era_ok_def ep_ok_def idle_ok_def new_host_def mod_4096_512)
  then have "es.h_idle H ?E Down (Suc (Suc (unat (c_ops cli)))) h"
    using h(2-10) v sz(2,3) assms(6)
    by (simp add: es.h_idle_def h_base_def cursor_ok_def word_neq_0_conv, simp add: mk_view_def)
  then obtain s' where "chaos_run (era_sut H) race (c_ops cli) h = (Inr (), s')"
    using es.chaos_run_ok [of H ?E "c_ops cli" h race] h(2,5) v by auto
  then show ?thesis using h(1) by (simp add: chaos_main_def)
qed


text \<open>A reader of command lines for the witness: options as two words, by their short names.\<close>

fun word_opts :: "string list \<Rightarrow> (string \<times> string) list option" where
  "word_opts [] = Some []"
| "word_opts [w] = (if w = ''--buffered'' then Some [(w, [])] else None)"
| "word_opts (w # v # ws) =
     (if w = ''--buffered'' then map_option (Cons (w, [])) (word_opts (v # ws))
      else map_option (Cons (w, v)) (word_opts ws))"

definition small_num :: "nat \<Rightarrow> string \<Rightarrow> 'a::len word option" where
  "small_num bits s = Option.bind (parse_u64 s) (\<lambda>n. if unat n < 2 ^ bits then Some (of_nat (unat n)) else None)"

definition word_clap :: "string list \<Rightarrow> cmd option" where
  "word_clap args = (case args of [] \<Rightarrow> None | c # ws \<Rightarrow> Option.bind (word_opts ws) (\<lambda>opts.
     let dev = Option.bind (map_of opts ''-n'') (small_num 32) in
     if c = ''add'' then
       Option.bind (map_of opts ''-f'') (\<lambda>b.
       Option.bind (Option.bind (map_of opts ''-g'') parse_size) (\<lambda>g.
       Option.bind (Option.bind (map_of opts ''-q'') (small_num 16)) (\<lambda>q.
         Some (CmdAdd b g (map_of opts ''--meta'') default_dev_id q default_depth 524288
           (map_of opts ''--buffered'' \<noteq> None)))))
     else if c = ''del'' then Some (CmdDel dev None)
     else if c = ''checkpoint'' then Some (CmdCheckpoint dev None False)
     else if c = ''dump'' then
       Option.bind (Option.bind (map_of opts ''--since'') (small_num 32)) (\<lambda>e.
         Some (CmdDump dev None e (map_of opts ''--generation'')))
     else if c = ''shutdown'' then Some CmdShutdown else None))"

lemma small_num_nat: "m < 2 ^ bits \<Longrightarrow> m < 2 ^ 64 \<Longrightarrow> small_num bits (decimal m) = Some (of_nat m)"
proof -
  assume m: "m < 2 ^ bits" "m < 2 ^ 64"
  have "unat (of_nat m :: u64) = m" using m(2) by (intro unat_of_nat_less) simp
  then show ?thesis using m by (simp add: small_num_def parse_decimal)
qed

lemma small_num_decimal [simp]:
  "small_num 32 (decimal (unat (n :: u32))) = Some n" "small_num 16 (decimal (unat (q :: u16))) = Some q"
proof -
  have "unat q < 2 ^ 16" using unsigned_less [of q, where 'a = nat] by simp
  then show "small_num 16 (decimal (unat q)) = Some q" by (subst small_num_nat) simp_all
  show "small_num 32 (decimal (unat n)) = Some n" using unat_u32_less [of n] by (subst small_num_nat) simp_all
qed

lemma parse_size_u64 [simp]: "parse_size (decimal (unat (g :: u64))) = Some g"
  using parse_size_decimal [OF unat_u64_less, of g] by simp

lemma word_clap_ok: "clap_ok word_clap"
  unfolding clap_ok_def by (simp add: word_clap_def attach_args_def)

definition ex_host :: host where
  "ex_host = \<lparr>ho_clap = word_clap, ho_abi = linux_abi, ho_texts = ex_texts, ho_canon = (\<lambda>_. None),
     ho_path = (\<lambda>p. ([], p)), ho_rnd = (\<lambda>k. le_u64 (of_nat k)), ho_dev = 0, ho_lands = (\<lambda>_ _ k. even k),
     ho_meta = ''/t/meta.bin''\<rparr>"

definition ex_cli :: chaos_cli where
  "ex_cli = \<lparr>c_seed = 42, c_ops = 1000, c_size = 0, c_granularity = 0, c_buffered = True,
     c_dir = ''/t''\<rparr>"

theorem chaos_episode_passes_witness:
  "chaos_main (era_sut ex_host) (\<lambda>i. ([0, 1, 2, 3, i mod 4, 0, 1], [2, 3, 0])) ex_cli (new_host Map.empty []) = Inr ()"
proof -
  have "host_ok ex_host"
    by (simp add: host_ok_def ex_host_def word_clap_ok linux_abi_ok) (simp add: linux_abi_def word_sless_alt)
  moreover have "draw_gen ex_host k = of_nat k" for k
    by (simp add: draw_gen_def ex_host_def u64_codec.dec_enc)
  then have "inj_on (draw_gen ex_host) {..<unat (c_ops ex_cli) + 2}"
    by (auto simp: inj_on_def ex_cli_def dest!: arg_cong [of _ _ unat] simp: unat_of_nat)
  moreover have "plain_arg (c_dir ex_cli)" "ho_meta ex_host = path_join (c_dir ex_cli) ''meta.bin''"
      "c_granularity ex_cli = 0" "c_size ex_cli mod 4096 = 0" "unat (c_ops ex_cli) + 2 < 2 ^ 32"
    by (simp_all add: plain_arg_def ex_cli_def ex_host_def path_join_def)
  ultimately show ?thesis by (intro chaos_episode_passes) simp_all
qed

end
