(* ===== verification/Spec2Isabelle.thy ===== *)
theory Spec2Isabelle
  imports Ublk_Prelude Era Era_Conc Era_Race Crc32 Meta Era_Tests Rust_Str Io_Queue Target Target_Queue
    Target_Conc Fault_Model Json Manager Daemon Ctl Fault_Server Scenario Fault_Cli Fault_Tests Cli Chaos
    Chaos_Proof Chaos_Sut
begin

text \<open>
  Verification of ublkera, a daemon that puts a user-space block device (ublk) in front of a
  file or disk and tracks which chunks of it change, so that a backup can copy only what
  changed since a cursor \<open>(generation, era)\<close>; of ublkfault, a fault-injecting block device
  to put under it; and of the chaos harness that tests the two ends of it against each other.

  \<^bold>\<open>The program.\<close> \<^verbatim>\<open>src/src/era.rs\<close> is the change map: one era number per chunk, stamped by
  completed writes, the era counter that a checkpoint increments, the list of ranges newer than
  a cursor, and the metadata file that carries the map across restarts. \<^verbatim>\<open>src/src/target.rs\<close>
  is the ublk target: it forwards each request to the backing store and stamps the map before
  it completes a write. \<^verbatim>\<open>src/src/manager.rs\<close> keeps the registry of devices, attaches and
  detaches them, and runs a supervisor thread per device that saves the map at the end.
  \<^verbatim>\<open>src/src/ctl.rs\<close> serves requests on a socket, \<^verbatim>\<open>src/src/main.rs\<close> is the command line that
  sends them. \<^verbatim>\<open>src/src/bin/chaos.rs\<close> drives the ublkera binary through seeded episodes and
  compares what it finds. \<^verbatim>\<open>src/ublkfault/src\<close> has the storage model with volatile cache, torn
  writes and lying flushes (\<^verbatim>\<open>model.rs\<close>), the server around it (\<^verbatim>\<open>main.rs\<close>) and the scenario
  runner (\<^verbatim>\<open>scenario.rs\<close>).

  \<^bold>\<open>The theories.\<close>
  \<^item> \<open>Ublk_Prelude\<close>: machine integers as words, little-endian codecs (a locale, interpreted for
    32 and 64 bits), bytes written into a list, \<open>fetch_max\<close>.
  \<^item> \<open>Era\<close>: \<open>EraState\<close> as a record, \<open>mark_write\<close>, \<open>checkpoint\<close>, \<open>ranges_since\<close>,
    \<open>mark_all_dirty\<close>; the reported ranges are exactly the changed chunks, and the map is exact
    for every history of writes and checkpoints.
  \<^item> \<open>Era_Conc\<close>: the same operations as interleaved atomic steps of any number of threads; no
    write that returned is missing from a later diff, and the retry loop ends. \<open>Era_Race\<close>: the
    concurrent test of \<^verbatim>\<open>era.rs\<close>, a writer against a checker, for every schedule.
  \<^item> \<open>Crc32\<close>, \<open>Meta\<close>: the checksum, the file layout, \<open>save\<close> and \<open>load\<close>; round trip, rejection
    of damaged files, and what a crash or an I/O error inside \<open>save\<close> leaves behind.
  \<^item> \<open>Rust_Str\<close>, \<open>Json\<close>: the parts of the Rust library and of \<open>serde_json::Value\<close> that the
    sources use.
  \<^item> \<open>Target\<close>: device parameters, backing-store requests, \<open>handle_io_cmd\<close>. \<open>Io_Queue\<close>: the locale
    \<open>io_queue\<close> of a queue that answers every request once, interpreted for the queues of both
    programs. \<open>Target_Queue\<close>: a queue thread (\<open>queue_fn\<close>) with its buffers and in-flight
    requests; what its map reports is exact. \<open>Target_Conc\<close>: all queue threads, the backing store
    that changes bytes while requests are in flight, checkpoints and scans, interleaved; the
    handler run without interference is one of these interleavings, and an incremental backup
    under load misses no byte that a finished request changed.
  \<^item> \<open>Manager\<close>, \<open>Daemon\<close>, \<open>Ctl\<close>: the registry and its operations on a record of registry,
    shared maps, supervisor threads and files; the life of the daemon as a step relation, its
    invariant, and what a killed daemon leaves for the next one; the socket loop as a refinement
    of that relation.
  \<^item> \<open>Cli\<close>: the command line, the requests it sends, what the daemon decodes from them, and the
    exit status in terms of what the daemon did.
  \<^item> \<open>Fault_Model\<close>, \<open>Fault_Server\<close>, \<open>Fault_Cli\<close>, \<open>Scenario\<close>: the storage model and what
    flushed data it keeps, the queues with hung requests, the start of the server, the control
    socket and the commands, and the scenario language.
  \<^item> \<open>Era_Tests\<close>, \<open>Fault_Tests\<close>: the unit tests of \<^verbatim>\<open>era.rs\<close>, \<^verbatim>\<open>model.rs\<close> and \<^verbatim>\<open>scenario.rs\<close> as
    computations on the models, and that they pass.
  \<^item> \<open>Chaos\<close>: the harness, over a record of functions for everything outside it.
    \<open>Chaos_Proof\<close>: the locale \<open>cbt_sut\<close> states what the harness relies on and proves that
    every operation of it passes. \<open>Chaos_Sut\<close>: the model of ublkera put together as that
    outside, the interpretation of the locale on it, and that every episode passes.

  \<^bold>\<open>Conventions.\<close> A panic is \<open>None\<close> or an error value of its own, an \<open>Err\<close> the left side of
  a sum. Integers keep their width and wrap, as in a release build. What the kernel, libublk,
  io_uring, the file system, clap and serde answer is an argument of the operation that asks, or
  a record of such answers (\<open>attach_env\<close>, \<open>answers\<close>, \<open>host\<close>); the numbers of the kernel ABI
  are the record \<open>abi\<close>. Theorems hold for all answers, unless they name the ones they need. Every
  loop of the sources is a total function here: recursion over lists and chunks, or with a
  measure, so there is no fuel. Threads are interleavings of steps: the atomics are taken as
  sequentially consistent, and a daemon that is killed loses its memory and keeps its files. The
  places where the code leaves the order open (the turns of the writer threads in the harness, of
  the queue threads and of the threads of the concurrent test) are arguments over which the
  theorems quantify.

  \<^bold>\<open>Bounds.\<close> The era counter has 32 bits; theorems over unbounded histories assume that it does
  not wrap, and \<open>checkpoint_wrap_drops_writes\<close> shows what happens when it does. The harness is
  proved for fewer than \<open>2 ^ 32 - 2\<close> operations for the same reason, and for hosts whose random
  source does not repeat an id within the episode.

  \<^bold>\<open>Limits of the code that the theorems show.\<close> A checkpoint whose save failed can lead to a
  cursor that misses changes; two devices may share a metadata file, or its temporary; with more
  than one queue the fault server completes the wrong request after a hang.

  \<^bold>\<open>Not modelled.\<close> The text of command lines (clap), the text of JSON (serde), sockets and
  forking as such, how libublk and the kernel set up buffers, threads and rings (their outcomes are
  arguments), sleeping, time-outs other than their outcome, thread names, log and progress lines,
  the shell scripts that run the programs in virtual machines, and the scenario files and
  documents.
\<close>

end
